(* ===== verification/Prelude.thy ===== *)
theory Prelude
  imports Main "HOL-Library.Word"
begin

text \<open>
  What every theory of the development shares: the machine types of the C code, little-endian
  coding of words as byte lists, writes into a byte array, array reads with the C outcome for
  an index out of range, and bounded loops.

  The target (nRF54L15, a 32-bit Cortex-M33) is little-endian, so an integer that is copied with
  \<open>memcpy\<close> or handed over as bytes is read least significant byte first.
\<close>

section \<open>Types and fact collections\<close>

type_synonym byte = "8 word"
type_synonym u8 = "8 word"
type_synonym u16 = "16 word"
type_synonym u32 = "32 word"
type_synonym u64 = "64 word"

named_theorems wire \<open>equations of the wire format: little-endian coding and byte arrays\<close>
named_theorems frame \<open>fields that an operation leaves alone\<close>

section \<open>Words as numbers\<close>

lemma unat_bound: "unat (w :: 'a::len word) < 2 ^ LENGTH('a)"
  by simp

lemma unat_u8: "unat (w :: u8) < 256"
  using unat_bound [of w] by simp

lemma unat_u16: "unat (w :: u16) < 65536"
  using unat_bound [of w] by simp

lemma unat_Suc_u8: "unat (w :: u8) < 255 \<Longrightarrow> unat (w + 1) = Suc (unat w)"
  by (simp add: unat_word_ariths)

lemma unat_pred: "(w :: 'a::len word) \<noteq> 0 \<Longrightarrow> unat (w - 1) = unat w - 1"
  by (rule unat_minus_one)

section \<open>Little-endian coding\<close>

definition le_bytes :: "nat \<Rightarrow> 'a::len word \<Rightarrow> byte list" where
  "le_bytes n w = map (\<lambda>i. ucast (drop_bit (8 * i) w)) [0..<n]"

primrec of_le :: "byte list \<Rightarrow> 'a::len word" where
  "of_le [] = 0"
| "of_le (b # bs) = or (ucast b) (push_bit 8 (of_le bs))"

lemma length_le_bytes [simp]: "length (le_bytes n w) = n"
  by (simp add: le_bytes_def)

lemma le_bytes_0 [simp]: "le_bytes 0 w = []"
  by (simp add: le_bytes_def)

lemma le_bytes_Suc: "le_bytes (Suc n) w = ucast w # le_bytes n (drop_bit 8 w)"
  by (simp add: le_bytes_def upt_conv_Cons map_Suc_upt [symmetric] add.commute
      del: upt_Suc)

lemma of_le_le_bytes_take: "of_le (le_bytes n w) = take_bit (8 * n) w"
proof (induction n arbitrary: w)
  case 0
  then show ?case by simp
next
  case (Suc n)
  show ?case
    by (rule bit_word_eqI) (auto simp: le_bytes_Suc Suc bit_simps)
qed

text \<open>Decoding what was encoded gives the word back, when all its bytes were written.\<close>

lemma of_le_le_bytes [simp, wire]:
  "LENGTH('a::len) \<le> 8 * n \<Longrightarrow> of_le (le_bytes n (w :: 'a word)) = w"
  by (simp add: of_le_le_bytes_take take_bit_word_eq_self)

lemma le_bytes_of_le [wire]:
  "8 * length bs \<le> LENGTH('a::len) \<Longrightarrow> le_bytes (length bs) (of_le bs :: 'a word) = bs"
proof (induction bs)
  case Nil
  then show ?case by simp
next
  case (Cons b bs)
  have b: "ucast (or (ucast b) (push_bit 8 (of_le bs)) :: 'a word) = b"
    using Cons.prems by (intro bit_word_eqI) (auto simp: bit_simps)
  have d: "drop_bit 8 (or (ucast b) (push_bit 8 (of_le bs)) :: 'a word)
             = take_bit (LENGTH('a) - 8) (of_le bs)"
    by (rule bit_word_eqI) (use Cons.prems in \<open>auto simp: bit_simps dest: bit_imp_le_length\<close>)
  have t: "le_bytes (length bs) (take_bit (LENGTH('a) - 8) (of_le bs :: 'a word)) = le_bytes (length bs) (of_le bs :: 'a word)"
    using Cons.prems
    by (auto simp: le_bytes_def intro!: bit_word_eqI) (auto simp: bit_simps)
  show ?case
    using Cons by (simp add: le_bytes_Suc b d t del: drop_bit_or)
qed

section \<open>Byte arrays\<close>

text \<open>\<open>store m i bs\<close>: the array \<open>m\<close> after the bytes \<open>bs\<close> are written at index \<open>i\<close>
  (\<open>memcpy(&m[i], bs, n)\<close>).\<close>

definition store :: "'a list \<Rightarrow> nat \<Rightarrow> 'a list \<Rightarrow> 'a list" where
  "store m i bs = take i m @ bs @ drop (i + length bs) m"

lemma length_store [simp]: "i + length bs \<le> length m \<Longrightarrow> length (store m i bs) = length m"
  by (simp add: store_def)

lemma store_Nil [simp]: "store m i [] = m"
  by (simp add: store_def)

lemma take_store [simp]: "i \<le> length m \<Longrightarrow> j \<le> i \<Longrightarrow> take j (store m i bs) = take j m"
  by (simp add: store_def min_def)

lemma take_drop_store_before [simp]:
  "o' + j \<le> i \<Longrightarrow> i \<le> length m \<Longrightarrow> take j (drop o' (store m i bs)) = take j (drop o' m)"
  by (metis take_drop take_store add.commute)

lemma take_drop_store_at [simp]:
  "i + length bs \<le> length m \<Longrightarrow> n = length bs \<Longrightarrow> take n (drop i (store m i bs)) = bs"
  by (simp add: store_def)

lemma take_drop_add: "take (a + b) (drop i m) = take a (drop i m) @ take b (drop (i + a) m)"
  by (metis add.commute drop_drop take_add)

lemma take_drop_store_append:
  "i + n = j \<Longrightarrow> j + length bs \<le> length m \<Longrightarrow>
   take (n + length bs) (drop i (store m j bs)) = take n (drop i m) @ bs"
  by (simp add: take_drop_add)

text \<open>An array read. C leaves a read past the end undefined; here it yields whatever
  \<open>stray\<close> says lies there, so no statement can rely on its value.\<close>

definition array_read :: "(nat \<Rightarrow> 'a) \<Rightarrow> 'a list \<Rightarrow> nat \<Rightarrow> 'a" where
  "array_read stray xs i = (if i < length xs then xs ! i else stray i)"

lemma array_read_in [simp]: "i < length xs \<Longrightarrow> array_read stray xs i = xs ! i"
  by (simp add: array_read_def)

section \<open>Bounded loops\<close>

text \<open>\<open>for (size_t i = 0; i < n; i++) body\<close>, and the same loop counting down,
  \<open>for (size_t i = n; i > 0; i--) body\<close> (the body sees \<open>i\<close> from \<open>n\<close> to 1).\<close>

fun for_up :: "nat \<Rightarrow> (nat \<Rightarrow> 's \<Rightarrow> 's) \<Rightarrow> 's \<Rightarrow> 's" where
  "for_up 0 body s = s"
| "for_up (Suc n) body s = body n (for_up n body s)"

fun for_down :: "nat \<Rightarrow> (nat \<Rightarrow> 's \<Rightarrow> 's) \<Rightarrow> 's \<Rightarrow> 's" where
  "for_down 0 body s = s"
| "for_down (Suc n) body s = for_down n body (body (Suc n) s)"

lemma for_up_fold: "for_up n body s = fold body [0..<n] s"
  by (induction n) auto

text \<open>An invariant of the body is an invariant of the loop.\<close>

lemma for_up_inv:
  assumes "P 0 s" and "\<And>i s. i < n \<Longrightarrow> P i s \<Longrightarrow> P (Suc i) (body i s)"
  shows "P n (for_up n body s)"
  using assms(2) by (induction n) (auto simp: assms(1))

lemma for_up_keeps:
  assumes "\<And>i s. i < n \<Longrightarrow> f (body i s) = f s"
  shows "f (for_up n body s) = f s"
  using assms by (induction n) auto

end
