(* ===== verification/Platform.thy ===== *)
theory Platform
  imports Prelude
begin

text \<open>
  The interface to the code that is not in the repository: Zephyr (network buffers, semaphores,
  timers, the Bluetooth host, GPIO, random numbers) and the PSA Crypto API. None of it is
  defined here. Every operation the repository calls is a field of the record
  \<open>platform\<close>, which the model takes as an argument; what the repository relies on is
  stated, as documented, in the locales \<open>zephyr_net_buf\<close>, \<open>zephyr_sem\<close>,
  \<open>psa_store\<close> and \<open>psa_reliable\<close>. The last section gives one platform that meets
  all of them, generic in the MAC function and in the answers of the Bluetooth host.
\<close>

section \<open>Network buffers\<close>

text \<open>
  \<open>struct net_buf_simple\<close>, whose fields the repository reads directly: the storage
  \<open>__buf\<close> (its length is \<open>size\<close>), the data pointer as an offset into the storage,
  and the length of the data.
\<close>

record net_buf_simple =
  nb_buf :: "byte list"
  nb_off :: nat
  nb_len :: nat

record net_buf_simple_state =
  nbs_off :: nat
  nbs_len :: nat

definition nb_data :: "net_buf_simple \<Rightarrow> byte list" where
  "nb_data b = take (nb_len b) (drop (nb_off b) (nb_buf b))"

definition nb_end :: "net_buf_simple \<Rightarrow> nat" where
  "nb_end b = nb_off b + nb_len b"

definition nb_wf :: "net_buf_simple \<Rightarrow> bool" where
  "nb_wf b \<longleftrightarrow> nb_off b + nb_len b \<le> length (nb_buf b)"

definition nb_tailroom :: "net_buf_simple \<Rightarrow> nat" where
  "nb_tailroom b = length (nb_buf b) - (nb_off b + nb_len b)"

text \<open>The buffer after the bytes \<open>bs\<close> were added at its end, resp. after \<open>n\<close> bytes
  were taken from its end or its start.\<close>

definition nb_append :: "net_buf_simple \<Rightarrow> byte list \<Rightarrow> net_buf_simple" where
  "nb_append b bs = b\<lparr>nb_buf := store (nb_buf b) (nb_end b) bs, nb_len := nb_len b + length bs\<rparr>"

definition nb_chop :: "net_buf_simple \<Rightarrow> nat \<Rightarrow> net_buf_simple" where
  "nb_chop b n = b\<lparr>nb_len := nb_len b - n\<rparr>"

definition nb_last :: "net_buf_simple \<Rightarrow> nat \<Rightarrow> byte list" where
  "nb_last b n = take n (drop (nb_end b - n) (nb_buf b))"

definition nb_pull :: "net_buf_simple \<Rightarrow> nat \<Rightarrow> net_buf_simple" where
  "nb_pull b n = b\<lparr>nb_off := nb_off b + n, nb_len := nb_len b - n\<rparr>"

section \<open>PSA Crypto types\<close>

type_synonym psa_status_t = int
type_synonym psa_key_id_t = u32

abbreviation PSA_SUCCESS :: psa_status_t where "PSA_SUCCESS \<equiv> 0"
abbreviation PSA_ERROR_INVALID_HANDLE :: psa_status_t where "PSA_ERROR_INVALID_HANDLE \<equiv> - 136"

datatype psa_algorithm_t = PSA_ALG_SHA_256 | PSA_ALG_HMAC psa_algorithm_t | Other_algorithm u32
datatype psa_key_lifetime_t = PSA_KEY_LIFETIME_PERSISTENT | Other_lifetime u32
datatype psa_key_type_t = PSA_KEY_TYPE_HMAC | PSA_KEY_TYPE_RAW_DATA | Other_key_type u32
datatype psa_key_usage_t = PSA_KEY_USAGE_SIGN_MESSAGE | PSA_KEY_USAGE_EXPORT | Other_usage u32

record psa_key_attributes_t =
  psa_key_id :: psa_key_id_t
  psa_key_lifetime :: psa_key_lifetime_t
  psa_key_type :: psa_key_type_t
  psa_key_bits :: nat
  psa_key_usage_flags :: psa_key_usage_t
  psa_key_algorithm :: psa_algorithm_t

section \<open>Bluetooth and kernel types\<close>

type_synonym bt_addr_le_t = "byte list"
type_synonym sync_ptr = nat

datatype bt_data_type = BT_DATA_FLAGS | BT_DATA_MANUFACTURER_DATA | Other_data_type byte

record bt_data =
  bt_data_type :: bt_data_type
  bt_data_data :: "byte list"

record bt_le_per_adv_param =
  interval_min :: u16
  interval_max :: u16
  per_adv_options :: u32
  num_subevents :: u8
  subevent_interval :: u8
  response_slot_delay :: u8
  response_slot_spacing :: u8
  num_response_slots :: u8

record bt_le_per_adv_subevent_data_params =
  sdp_subevent :: u8
  response_slot_start :: u8
  response_slot_count :: u8
  sdp_data :: "byte list"

record bt_le_per_adv_response_params =
  request_event :: u16
  request_subevent :: u8
  response_subevent :: u8
  response_slot :: u8

record bt_le_per_adv_sync_param =
  sync_addr :: bt_addr_le_t
  sync_options :: u32
  sync_sid :: u8
  sync_skip :: u16
  sync_timeout :: u16

record bt_le_per_adv_sync_info =
  info_addr :: bt_addr_le_t
  info_sid :: u8
  info_interval :: u16

datatype gpio_flags = GPIO_OUTPUT_ACTIVE | GPIO_OUTPUT_INACTIVE | GPIO_INPUT | GPIO_INT_EDGE_TO_ACTIVE

text \<open>
  Calls into the platform whose effect lies outside the program's memory. A device keeps the
  list of the calls it has made; what a call returns may depend on all the calls before it.
  Durations are in milliseconds.
\<close>

datatype zcall =
    K_sleep nat
  | K_timer_init
  | K_timer_start int int
  | K_timer_stop
  | Sys_reboot
  | Sys_rand8_get
  | Sys_rand_get nat
  | Bt_enable
  | Bt_le_ext_adv_create
  | Bt_le_per_adv_set_param bt_le_per_adv_param
  | Bt_le_ext_adv_set_data "bt_data list"
  | Bt_le_per_adv_start
  | Bt_le_ext_adv_start
  | Bt_le_per_adv_set_subevent_data bt_le_per_adv_subevent_data_params
  | Bt_le_per_adv_set_response_data sync_ptr bt_le_per_adv_response_params "byte list"
  | Bt_le_per_adv_sync_subevent sync_ptr "u8 list"
  | Bt_le_per_adv_sync_create bt_le_per_adv_sync_param
  | Bt_le_per_adv_sync_delete "sync_ptr option"
  | Bt_le_per_adv_sync_get_info "sync_ptr option"
  | Bt_le_per_adv_sync_recv_enable "sync_ptr option"
  | Bt_le_per_adv_sync_recv_disable "sync_ptr option"
  | Bt_le_per_adv_sync_cb_register
  | Bt_le_scan_cb_register
  | Bt_le_scan_start
  | Bt_le_scan_stop
  | Gpio_is_ready nat
  | Gpio_pin_configure nat gpio_flags
  | Gpio_pin_interrupt_configure nat gpio_flags
  | Gpio_add_callback nat
  | Gpio_pin_toggle nat
  | Gpio_pin_set nat int
  | Gpio_pin_get nat

record k_sem =
  sem_count :: nat
  sem_limit :: nat

section \<open>The platform\<close>

text \<open>
  Pointers that an operation returns into a buffer are offsets into its storage. The PSA store is
  a type parameter, since only the PSA functions look into it. \<open>psa_export_key\<close> and
  \<open>psa_mac_compute\<close> return the bytes they wrote to their output. The \<open>stray\<close> fields
  are the values that compiled code happens to produce where C gives none.
\<close>

record 'p platform =
  net_buf_simple_add :: "net_buf_simple \<Rightarrow> nat \<Rightarrow> nat \<times> net_buf_simple"
  net_buf_simple_add_mem :: "net_buf_simple \<Rightarrow> byte list \<Rightarrow> net_buf_simple"
  net_buf_simple_add_u8 :: "net_buf_simple \<Rightarrow> u8 \<Rightarrow> net_buf_simple"
  net_buf_simple_add_le16 :: "net_buf_simple \<Rightarrow> u16 \<Rightarrow> net_buf_simple"
  net_buf_simple_add_le32 :: "net_buf_simple \<Rightarrow> u32 \<Rightarrow> net_buf_simple"
  net_buf_simple_add_le64 :: "net_buf_simple \<Rightarrow> u64 \<Rightarrow> net_buf_simple"
  net_buf_simple_remove_mem :: "net_buf_simple \<Rightarrow> nat \<Rightarrow> nat \<times> net_buf_simple"
  net_buf_simple_remove_u8 :: "net_buf_simple \<Rightarrow> u8 \<times> net_buf_simple"
  net_buf_simple_remove_le16 :: "net_buf_simple \<Rightarrow> u16 \<times> net_buf_simple"
  net_buf_simple_remove_le32 :: "net_buf_simple \<Rightarrow> u32 \<times> net_buf_simple"
  net_buf_simple_remove_le64 :: "net_buf_simple \<Rightarrow> u64 \<times> net_buf_simple"
  net_buf_simple_pull_mem :: "net_buf_simple \<Rightarrow> nat \<Rightarrow> nat \<times> net_buf_simple"
  net_buf_simple_reset :: "net_buf_simple \<Rightarrow> net_buf_simple"
  net_buf_simple_init_with_data :: "byte list \<Rightarrow> net_buf_simple"
  net_buf_simple_save :: "net_buf_simple \<Rightarrow> net_buf_simple_state"
  net_buf_simple_restore :: "net_buf_simple \<Rightarrow> net_buf_simple_state \<Rightarrow> net_buf_simple"
  psa_key_id_user_min :: psa_key_id_t
  psa_crypto_init :: "'p \<Rightarrow> psa_status_t \<times> 'p"
  psa_import_key :: "psa_key_attributes_t \<Rightarrow> byte list \<Rightarrow> 'p \<Rightarrow> psa_status_t \<times> 'p"
  psa_destroy_key :: "psa_key_id_t \<Rightarrow> 'p \<Rightarrow> psa_status_t \<times> 'p"
  psa_export_key :: "psa_key_id_t \<Rightarrow> nat \<Rightarrow> 'p \<Rightarrow> psa_status_t \<times> byte list \<times> 'p"
  psa_mac_compute :: "psa_key_id_t \<Rightarrow> psa_algorithm_t \<Rightarrow> byte list \<Rightarrow> nat \<Rightarrow> 'p \<Rightarrow> psa_status_t \<times> byte list \<times> 'p"
  psa_generate_random :: "nat \<Rightarrow> 'p \<Rightarrow> psa_status_t \<times> byte list \<times> 'p"
  k_sem_give :: "k_sem \<Rightarrow> k_sem"
  k_sem_take_now :: "k_sem \<Rightarrow> k_sem option"
  k_sem_reset :: "k_sem \<Rightarrow> k_sem"
  k_sem_init :: "nat \<Rightarrow> nat \<Rightarrow> k_sem"
  zephyr_ret :: "zcall list \<Rightarrow> zcall \<Rightarrow> int"
  zephyr_sync :: "zcall list \<Rightarrow> zcall \<Rightarrow> sync_ptr"
  zephyr_sync_info :: "zcall list \<Rightarrow> sync_ptr option \<Rightarrow> bt_le_per_adv_sync_info"
  sys_rand8_get :: "zcall list \<Rightarrow> byte"
  sys_rand_get :: "zcall list \<Rightarrow> nat \<Rightarrow> byte list"
  bt_data_parse_elems :: "byte list \<Rightarrow> bt_data list"
  stray_shl :: "byte \<Rightarrow> nat \<Rightarrow> int"
  stray_u16 :: "nat \<Rightarrow> u16"
  stray_attributes :: psa_key_attributes_t

text \<open>A device: the PSA store and the calls made so far. The states of the three programs
  extend it.\<close>

record 'p device =
  psa_store :: 'p
  zlog :: "zcall list"

definition zephyr_call :: "'p platform \<Rightarrow> zcall \<Rightarrow> ('p, 'x) device_scheme \<Rightarrow> int \<times> ('p, 'x) device_scheme" where
  "zephyr_call pf c d = (zephyr_ret pf (zlog d) c, d\<lparr>zlog := zlog d @ [c]\<rparr>)"

definition zephyr_do :: "zcall \<Rightarrow> ('p, 'x) device_scheme \<Rightarrow> ('p, 'x) device_scheme" where
  "zephyr_do c d = d\<lparr>zlog := zlog d @ [c]\<rparr>"

lemma zephyr_do_simps [simp]:
  "psa_store (zephyr_do c d) = psa_store d"
  "zlog (zephyr_do c d) = zlog d @ [c]"
  "device.more (zephyr_do c d) = device.more d"
  by (simp_all add: zephyr_do_def)

lemma snd_zephyr_call [simp]: "snd (zephyr_call pf c d) = zephyr_do c d"
  by (simp add: zephyr_call_def zephyr_do_def)

lemma fst_zephyr_call [simp]: "fst (zephyr_call pf c d) = zephyr_ret pf (zlog d) c"
  by (simp add: zephyr_call_def)

end
