(* ===== verification/Platform_Laws.thy ===== *)
theory Platform_Laws
  imports Platform
begin

text \<open>
  What the program relies on of Zephyr and of PSA Crypto, as locales over the platform record,
  and a platform that satisfies all of it. Each law is conditional on the documented
  precondition of the call: adding to a buffer needs tailroom, taking from it needs data. A
  statement proved from these laws therefore also shows that the code calls the buffer
  functions only inside their preconditions.
\<close>

section \<open>Lemmas on buffers\<close>

named_theorems nb \<open>network buffers\<close>

lemma nb_append_Nil [simp]: "nb_append b [] = b"
  by (simp add: nb_append_def)

lemma length_nb_data [simp]: "nb_wf b \<Longrightarrow> length (nb_data b) = nb_len b"
  by (auto simp: nb_data_def nb_wf_def)

lemma nb_wf_append [nb]: "nb_wf b \<Longrightarrow> length bs \<le> nb_tailroom b \<Longrightarrow> nb_wf (nb_append b bs)"
  by (simp add: nb_wf_def nb_append_def nb_tailroom_def nb_end_def)

lemma nb_data_append [nb]:
  "nb_wf b \<Longrightarrow> length bs \<le> nb_tailroom b \<Longrightarrow> nb_data (nb_append b bs) = nb_data b @ bs"
  by (simp add: nb_wf_def nb_append_def nb_tailroom_def nb_end_def nb_data_def take_drop_store_append)

lemma nb_tailroom_append [nb]:
  "nb_wf b \<Longrightarrow> length bs \<le> nb_tailroom b \<Longrightarrow> nb_tailroom (nb_append b bs) = nb_tailroom b - length bs"
  by (simp add: nb_wf_def nb_append_def nb_tailroom_def nb_end_def)

lemma nb_len_append [simp]: "nb_len (nb_append b bs) = nb_len b + length bs"
  by (simp add: nb_append_def)

lemma nb_off_append [simp]: "nb_off (nb_append b bs) = nb_off b"
  by (simp add: nb_append_def)

lemma nb_size_append [nb]:
  "nb_wf b \<Longrightarrow> length bs \<le> nb_tailroom b \<Longrightarrow> length (nb_buf (nb_append b bs)) = length (nb_buf b)"
  by (simp add: nb_wf_def nb_append_def nb_tailroom_def nb_end_def)

text \<open>Two appends are one: the serialisers are chains of appends.\<close>

lemma nb_append_append [nb]:
  assumes "nb_wf b" and "length bs + length cs \<le> nb_tailroom b"
  shows "nb_append (nb_append b bs) cs = nb_append b (bs @ cs)"
proof -
  let ?m = "nb_buf b" and ?i = "nb_end b"
  have l: "?i + length bs + length cs \<le> length ?m"
    using assms by (auto simp: nb_wf_def nb_tailroom_def nb_end_def)
  then have "store (store ?m ?i bs) (?i + length bs) cs = store ?m ?i (bs @ cs)"
    by (simp add: store_def ac_simps)
  then show ?thesis
    by (simp add: nb_append_def nb_end_def add.assoc)
qed

lemma nb_wf_chop [nb]: "nb_wf b \<Longrightarrow> nb_wf (nb_chop b n)"
  by (auto simp: nb_wf_def nb_chop_def)

lemma nb_len_chop [simp]: "nb_len (nb_chop b n) = nb_len b - n"
  by (simp add: nb_chop_def)

lemma nb_chop_chop [simp]: "nb_chop (nb_chop b m) n = nb_chop b (m + n)"
  by (simp add: nb_chop_def)

lemma nb_chop_0 [simp]: "nb_chop b 0 = b"
  by (simp add: nb_chop_def)

lemma nb_data_chop [nb]: "nb_data (nb_chop b n) = take (nb_len b - n) (nb_data b)"
  by (simp add: nb_chop_def nb_data_def)

lemma nb_last_eq [nb]:
  assumes "n \<le> nb_len b"
  shows "nb_last b n = drop (nb_len b - n) (nb_data b)"
proof -
  have "nb_end b - n = nb_off b + (nb_len b - n)"
    using assms by (simp add: nb_end_def)
  then show ?thesis
    using assms by (simp add: nb_last_def nb_data_def drop_take add.commute)
qed

lemma nb_wf_pull [nb]: "nb_wf b \<Longrightarrow> n \<le> nb_len b \<Longrightarrow> nb_wf (nb_pull b n)"
  by (auto simp: nb_wf_def nb_pull_def)

lemma nb_data_pull [nb]: "n \<le> nb_len b \<Longrightarrow> nb_data (nb_pull b n) = drop n (nb_data b)"
  by (simp add: nb_pull_def nb_data_def drop_take add.commute)

section \<open>The network buffer interface\<close>

locale zephyr_net_buf =
  fixes pf :: "'p platform"
  assumes nb_add: "nb_wf b \<Longrightarrow> n \<le> nb_tailroom b \<Longrightarrow>
      net_buf_simple_add pf b n = (nb_end b, b\<lparr>nb_len := nb_len b + n\<rparr>)"
    and nb_add_mem: "nb_wf b \<Longrightarrow> length bs \<le> nb_tailroom b \<Longrightarrow>
      net_buf_simple_add_mem pf b bs = nb_append b bs"
    and nb_add_u8: "nb_wf b \<Longrightarrow> 1 \<le> nb_tailroom b \<Longrightarrow>
      net_buf_simple_add_u8 pf b v8 = nb_append b [v8]"
    and nb_add_le16: "nb_wf b \<Longrightarrow> 2 \<le> nb_tailroom b \<Longrightarrow>
      net_buf_simple_add_le16 pf b v16 = nb_append b (le_bytes 2 v16)"
    and nb_add_le32: "nb_wf b \<Longrightarrow> 4 \<le> nb_tailroom b \<Longrightarrow>
      net_buf_simple_add_le32 pf b v32 = nb_append b (le_bytes 4 v32)"
    and nb_add_le64: "nb_wf b \<Longrightarrow> 8 \<le> nb_tailroom b \<Longrightarrow>
      net_buf_simple_add_le64 pf b v64 = nb_append b (le_bytes 8 v64)"
    and nb_remove_mem: "nb_wf b \<Longrightarrow> n \<le> nb_len b \<Longrightarrow>
      net_buf_simple_remove_mem pf b n = (nb_end b - n, nb_chop b n)"
    and nb_remove_u8: "nb_wf b \<Longrightarrow> 1 \<le> nb_len b \<Longrightarrow>
      net_buf_simple_remove_u8 pf b = (of_le (nb_last b 1), nb_chop b 1)"
    and nb_remove_le16: "nb_wf b \<Longrightarrow> 2 \<le> nb_len b \<Longrightarrow>
      net_buf_simple_remove_le16 pf b = (of_le (nb_last b 2), nb_chop b 2)"
    and nb_remove_le32: "nb_wf b \<Longrightarrow> 4 \<le> nb_len b \<Longrightarrow>
      net_buf_simple_remove_le32 pf b = (of_le (nb_last b 4), nb_chop b 4)"
    and nb_remove_le64: "nb_wf b \<Longrightarrow> 8 \<le> nb_len b \<Longrightarrow>
      net_buf_simple_remove_le64 pf b = (of_le (nb_last b 8), nb_chop b 8)"
    and nb_pull_mem: "nb_wf b \<Longrightarrow> n \<le> nb_len b \<Longrightarrow>
      net_buf_simple_pull_mem pf b n = (nb_off b, nb_pull b n)"
    and nb_reset: "net_buf_simple_reset pf b = b\<lparr>nb_off := 0, nb_len := 0\<rparr>"
    and nb_init_with_data:
      "net_buf_simple_init_with_data pf m = \<lparr>nb_buf = m, nb_off = 0, nb_len = length m\<rparr>"
    and nb_save: "net_buf_simple_save pf b = \<lparr>nbs_off = nb_off b, nbs_len = nb_len b\<rparr>"
    and nb_restore: "net_buf_simple_restore pf b st = b\<lparr>nb_off := nbs_off st, nb_len := nbs_len st\<rparr>"
begin

lemmas nb_adds = nb_add_mem nb_add_u8 nb_add_le16 nb_add_le32 nb_add_le64
lemmas nb_removes = nb_remove_mem nb_remove_u8 nb_remove_le16 nb_remove_le32 nb_remove_le64

lemma nb_wf_reset [simp]: "nb_wf (net_buf_simple_reset pf b)"
  by (simp add: nb_reset nb_wf_def)

lemma nb_data_reset [simp]: "nb_data (net_buf_simple_reset pf b) = []"
  by (simp add: nb_reset nb_data_def)

lemma nb_tailroom_reset [simp]: "nb_tailroom (net_buf_simple_reset pf b) = length (nb_buf b)"
  by (simp add: nb_reset nb_tailroom_def)

lemma nb_buf_reset [simp]: "nb_buf (net_buf_simple_reset pf b) = nb_buf b"
  by (simp add: nb_reset)

end

section \<open>Semaphores\<close>

text \<open>\<open>k_sem_take_now\<close> is a take that finds the semaphore available; where it is
  \<open>None\<close>, the caller of \<open>k_sem_take\<close> waits.\<close>

locale zephyr_sem =
  fixes pf :: "'p platform"
  assumes sem_give: "k_sem_give pf s = s\<lparr>sem_count := min (sem_limit s) (sem_count s + 1)\<rparr>"
    and sem_take: "k_sem_take_now pf s =
      (if sem_count s = 0 then None else Some (s\<lparr>sem_count := sem_count s - 1\<rparr>))"
    and sem_reset: "k_sem_reset pf s = s\<lparr>sem_count := 0\<rparr>"
    and sem_init: "k_sem_init pf c l = \<lparr>sem_count = c, sem_limit = l\<rparr>"
begin

lemma take_after_give [simp]: "0 < sem_limit s \<Longrightarrow> k_sem_take_now pf (k_sem_give pf s) \<noteq> None"
  by (simp add: sem_give sem_take)

lemma take_after_reset [simp]: "k_sem_take_now pf (k_sem_reset pf s) = None"
  by (simp add: sem_reset sem_take)

text \<open>A binary semaphore remembers one give only: the second one of two is lost.\<close>

lemma give_give: "sem_limit s = 1 \<Longrightarrow> k_sem_give pf (k_sem_give pf s) = k_sem_give pf s"
  by (simp add: sem_give)

end

section \<open>The PSA key store and MAC\<close>

definition HMAC_SHA_256 :: psa_algorithm_t where
  "HMAC_SHA_256 = PSA_ALG_HMAC PSA_ALG_SHA_256"

type_synonym stored_key = "psa_key_attributes_t \<times> byte list"

text \<open>A key that may sign with HMAC-SHA-256.\<close>

definition signing_key :: "psa_key_attributes_t \<Rightarrow> bool" where
  "signing_key a \<longleftrightarrow> psa_key_type a = PSA_KEY_TYPE_HMAC \<and>
     psa_key_usage_flags a = PSA_KEY_USAGE_SIGN_MESSAGE \<and> psa_key_algorithm a = HMAC_SHA_256"

locale psa_key_store =
  fixes pf :: "'p platform"
    and key_of :: "'p \<Rightarrow> psa_key_id_t \<Rightarrow> stored_key option"
    and mac :: "byte list \<Rightarrow> byte list \<Rightarrow> byte list"
  assumes user_min: "psa_key_id_user_min pf = 1"
    and mac_length: "length (mac k m) = 32"
    and mac_compute: "psa_mac_compute pf kid HMAC_SHA_256 m n p = (PSA_SUCCESS, out, p') \<Longrightarrow>
      32 \<le> n \<Longrightarrow> \<exists>a k. key_of p kid = Some (a, k) \<and> signing_key a \<and> out = mac k m"
    and mac_compute_length: "psa_mac_compute pf kid alg m n p = (st, out, p') \<Longrightarrow> length out \<le> n"
    and mac_compute_keys: "psa_mac_compute pf kid alg m n p = (st, out, p') \<Longrightarrow> key_of p' = key_of p"
    and init_keys: "psa_crypto_init pf p = (st, p') \<Longrightarrow> key_of p' = key_of p"
    and random_length: "psa_generate_random pf n p = (st, out, p') \<Longrightarrow> length out = n"
    and random_keys: "psa_generate_random pf n p = (st, out, p') \<Longrightarrow> key_of p' = key_of p"
    and import_ok: "psa_import_key pf a d p = (PSA_SUCCESS, p') \<Longrightarrow>
      key_of p (psa_key_id a) = None \<and> key_of p' = (key_of p)(psa_key_id a \<mapsto> (a, d))"
    and import_failed: "psa_import_key pf a d p = (st, p') \<Longrightarrow> st \<noteq> PSA_SUCCESS \<Longrightarrow> key_of p' = key_of p"
    and destroy_ok: "psa_destroy_key pf kid p = (PSA_SUCCESS, p') \<Longrightarrow> key_of p' = (key_of p)(kid := None)"
    and destroy_absent: "psa_destroy_key pf kid p = (PSA_ERROR_INVALID_HANDLE, p') \<Longrightarrow>
      key_of p kid = None \<and> key_of p' = key_of p"
    and export_ok: "psa_export_key pf kid n p = (PSA_SUCCESS, out, p') \<Longrightarrow>
      \<exists>a. key_of p kid = Some (a, out) \<and> psa_key_usage_flags a = PSA_KEY_USAGE_EXPORT"
    and export_absent: "psa_export_key pf kid n p = (PSA_ERROR_INVALID_HANDLE, out, p') \<Longrightarrow>
      key_of p kid = None"
    and export_length: "psa_export_key pf kid n p = (st, out, p') \<Longrightarrow> length out \<le> n"
    and export_keys: "psa_export_key pf kid n p = (st, out, p') \<Longrightarrow> key_of p' = key_of p"

text \<open>A store whose calls succeed whenever the documentation gives no reason to fail.\<close>

locale psa_reliable = psa_key_store pf key_of mac
  for pf :: "'p platform" and key_of mac +
  assumes mac_succeeds: "key_of p kid = Some (a, k) \<Longrightarrow> signing_key a \<Longrightarrow> 32 \<le> n \<Longrightarrow>
      fst (psa_mac_compute pf kid HMAC_SHA_256 m n p) = PSA_SUCCESS"
    and import_succeeds: "key_of p (psa_key_id a) = None \<Longrightarrow> fst (psa_import_key pf a d p) = PSA_SUCCESS"
    and destroy_succeeds: "fst (psa_destroy_key pf kid p) =
      (if key_of p kid = None then PSA_ERROR_INVALID_HANDLE else PSA_SUCCESS)"
    and export_succeeds: "key_of p kid = Some (a, d) \<Longrightarrow> psa_key_usage_flags a = PSA_KEY_USAGE_EXPORT \<Longrightarrow>
      length d \<le> n \<Longrightarrow> fst (psa_export_key pf kid n p) = PSA_SUCCESS"
    and export_fails: "key_of p kid = None \<Longrightarrow> fst (psa_export_key pf kid n p) = PSA_ERROR_INVALID_HANDLE"
    and init_succeeds: "fst (psa_crypto_init pf p) = PSA_SUCCESS"
begin

lemma mac_compute_signing:
  assumes "key_of p kid = Some (a, k)" and "signing_key a" and "32 \<le> n"
  obtains p' where "psa_mac_compute pf kid HMAC_SHA_256 m n p = (PSA_SUCCESS, mac k m, p')"
    and "key_of p' = key_of p"
proof -
  obtain out p' where c: "psa_mac_compute pf kid HMAC_SHA_256 m n p = (PSA_SUCCESS, out, p')"
    using mac_succeeds [OF assms] by (metis prod.collapse)
  with mac_compute [OF c assms(3)] assms(1) mac_compute_keys [OF c] that show thesis
    by auto
qed

end

section \<open>All of it\<close>

text \<open>The platform as the three programs use it, and the platform on which the calls succeed.\<close>

locale pawr_platform = zephyr_net_buf pf + zephyr_sem pf + psa_key_store pf key_of mac
  for pf :: "'p platform" and key_of mac

locale pawr_reliable = pawr_platform pf key_of mac + psa_reliable pf key_of mac
  for pf :: "'p platform" and key_of mac

end
