(* ===== verification/Reference_Platform.thy ===== *)
theory Reference_Platform
  imports Platform_Laws
begin

text \<open>
  One platform that satisfies every law of the interface: buffers that move offsets as the
  documentation says, counting semaphores, and a PSA store that is a map from key ids to keys.
  It stays generic in the MAC function, in the answers of the Bluetooth host and in the
  randomness, so what is shown on it does not depend on a stand-in for HMAC-SHA-256.
\<close>

type_synonym key_map = "psa_key_id_t \<Rightarrow> stored_key option"

definition mac32 :: "(byte list \<Rightarrow> byte list \<Rightarrow> byte list) \<Rightarrow> byte list \<Rightarrow> byte list \<Rightarrow> byte list" where
  "mac32 h k m = take 32 (h k m @ replicate 32 0)"

definition store_mac_compute ::
    "(byte list \<Rightarrow> byte list \<Rightarrow> byte list) \<Rightarrow> psa_key_id_t \<Rightarrow> psa_algorithm_t \<Rightarrow> byte list \<Rightarrow> nat \<Rightarrow>
     key_map \<Rightarrow> psa_status_t \<times> byte list \<times> key_map" where
  "store_mac_compute h kid alg m n p =
     (case p kid of
        None \<Rightarrow> (PSA_ERROR_INVALID_HANDLE, [], p)
      | Some (a, k) \<Rightarrow>
          if signing_key a \<and> alg = HMAC_SHA_256 \<and> 32 \<le> n then (PSA_SUCCESS, mac32 h k m, p)
          else (- 133, [], p))"

definition store_import_key :: "psa_key_attributes_t \<Rightarrow> byte list \<Rightarrow> key_map \<Rightarrow> psa_status_t \<times> key_map" where
  "store_import_key a d p =
     (if p (psa_key_id a) = None then (PSA_SUCCESS, p(psa_key_id a \<mapsto> (a, d))) else (- 139, p))"

definition store_destroy_key :: "psa_key_id_t \<Rightarrow> key_map \<Rightarrow> psa_status_t \<times> key_map" where
  "store_destroy_key kid p =
     (if p kid = None then (PSA_ERROR_INVALID_HANDLE, p) else (PSA_SUCCESS, p(kid := None)))"

definition store_export_key :: "psa_key_id_t \<Rightarrow> nat \<Rightarrow> key_map \<Rightarrow> psa_status_t \<times> byte list \<times> key_map" where
  "store_export_key kid n p =
     (case p kid of
        None \<Rightarrow> (PSA_ERROR_INVALID_HANDLE, [], p)
      | Some (a, d) \<Rightarrow>
          if psa_key_usage_flags a \<noteq> PSA_KEY_USAGE_EXPORT then (- 133, [], p)
          else if n < length d then (- 138, [], p)
          else (PSA_SUCCESS, d, p))"

definition no_attributes :: psa_key_attributes_t where
  "no_attributes = \<lparr>psa_key_id = 0, psa_key_lifetime = Other_lifetime 0, psa_key_type = Other_key_type 0,
     psa_key_bits = 0, psa_key_usage_flags = Other_usage 0, psa_key_algorithm = Other_algorithm 0\<rparr>"

definition store_platform ::
    "(byte list \<Rightarrow> byte list \<Rightarrow> byte list) \<Rightarrow> (zcall list \<Rightarrow> zcall \<Rightarrow> int) \<Rightarrow> (zcall list \<Rightarrow> byte) \<Rightarrow>
     (byte list \<Rightarrow> bt_data list) \<Rightarrow> key_map platform" where
  "store_platform h ret rnd parse = \<lparr>
     net_buf_simple_add = (\<lambda>b n. (nb_end b, b\<lparr>nb_len := nb_len b + n\<rparr>)),
     net_buf_simple_add_mem = nb_append,
     net_buf_simple_add_u8 = (\<lambda>b v. nb_append b [v]),
     net_buf_simple_add_le16 = (\<lambda>b v. nb_append b (le_bytes 2 v)),
     net_buf_simple_add_le32 = (\<lambda>b v. nb_append b (le_bytes 4 v)),
     net_buf_simple_add_le64 = (\<lambda>b v. nb_append b (le_bytes 8 v)),
     net_buf_simple_remove_mem = (\<lambda>b n. (nb_end b - n, nb_chop b n)),
     net_buf_simple_remove_u8 = (\<lambda>b. (of_le (nb_last b 1), nb_chop b 1)),
     net_buf_simple_remove_le16 = (\<lambda>b. (of_le (nb_last b 2), nb_chop b 2)),
     net_buf_simple_remove_le32 = (\<lambda>b. (of_le (nb_last b 4), nb_chop b 4)),
     net_buf_simple_remove_le64 = (\<lambda>b. (of_le (nb_last b 8), nb_chop b 8)),
     net_buf_simple_pull_mem = (\<lambda>b n. (nb_off b, nb_pull b n)),
     net_buf_simple_reset = (\<lambda>b. b\<lparr>nb_off := 0, nb_len := 0\<rparr>),
     net_buf_simple_init_with_data = (\<lambda>m. \<lparr>nb_buf = m, nb_off = 0, nb_len = length m\<rparr>),
     net_buf_simple_save = (\<lambda>b. \<lparr>nbs_off = nb_off b, nbs_len = nb_len b\<rparr>),
     net_buf_simple_restore = (\<lambda>b st. b\<lparr>nb_off := nbs_off st, nb_len := nbs_len st\<rparr>),
     psa_key_id_user_min = 1,
     psa_crypto_init = (\<lambda>p. (PSA_SUCCESS, p)),
     psa_import_key = store_import_key,
     psa_destroy_key = store_destroy_key,
     psa_export_key = store_export_key,
     psa_mac_compute = store_mac_compute h,
     psa_generate_random = (\<lambda>n p. (PSA_SUCCESS, replicate n 0, p)),
     k_sem_give = (\<lambda>s. s\<lparr>sem_count := min (sem_limit s) (sem_count s + 1)\<rparr>),
     k_sem_take_now = (\<lambda>s. if sem_count s = 0 then None else Some (s\<lparr>sem_count := sem_count s - 1\<rparr>)),
     k_sem_reset = (\<lambda>s. s\<lparr>sem_count := 0\<rparr>),
     k_sem_init = (\<lambda>c l. \<lparr>sem_count = c, sem_limit = l\<rparr>),
     zephyr_ret = ret,
     zephyr_sync = (\<lambda>l c. length l),
     zephyr_sync_info = (\<lambda>l s. \<lparr>info_addr = [], info_sid = 0, info_interval = 2000\<rparr>),
     sys_rand8_get = rnd,
     sys_rand_get = (\<lambda>l n. replicate n (rnd l)),
     bt_data_parse_elems = parse,
     stray_shl = (\<lambda>x s. 0),
     stray_u16 = (\<lambda>i. 0),
     stray_attributes = no_attributes\<rparr>"

interpretation ref_net_buf: zephyr_net_buf "store_platform h ret rnd parse"
  by unfold_locales (simp_all add: store_platform_def)

interpretation ref_sem: zephyr_sem "store_platform h ret rnd parse"
  by unfold_locales (simp_all add: store_platform_def)

lemmas store_ops = store_mac_compute_def store_import_key_def store_destroy_key_def store_export_key_def

interpretation ref_psa: psa_reliable "store_platform h ret rnd parse" "\<lambda>p. p" "mac32 h"
proof unfold_locales
  show "length (mac32 h k m) = 32" for k m
    by (simp add: mac32_def)
qed (auto simp: store_platform_def store_ops mac32_def split: option.splits if_splits)

interpretation ref_platform: pawr_reliable "store_platform h ret rnd parse" "\<lambda>p. p" "mac32 h"
  by unfold_locales

section \<open>Concrete data for the witnesses\<close>

text \<open>A hash that depends on the key and on the message, a host that answers 0 to every call,
  two device keys, and a buffer that holds a given message.\<close>

definition demo_hash :: "byte list \<Rightarrow> byte list \<Rightarrow> byte list" where
  "demo_hash k m = map (\<lambda>b. b + sum_list m) k"

definition demo :: "key_map platform" where
  "demo = store_platform demo_hash (\<lambda>l c. 0) (\<lambda>l. of_nat (length l)) (\<lambda>m. [])"

definition sign_attributes :: "psa_key_id_t \<Rightarrow> psa_key_attributes_t" where
  "sign_attributes i = no_attributes\<lparr>psa_key_id := i, psa_key_type := PSA_KEY_TYPE_HMAC,
     psa_key_usage_flags := PSA_KEY_USAGE_SIGN_MESSAGE, psa_key_algorithm := HMAC_SHA_256\<rparr>"

definition demo_key :: "nat \<Rightarrow> byte list" where
  "demo_key i = replicate 32 (of_nat i)"

definition demo_keys :: key_map where
  "demo_keys = Map.empty(1 \<mapsto> (sign_attributes 1, demo_key 7), 3 \<mapsto> (sign_attributes 3, demo_key 9))"

definition buf_of :: "byte list \<Rightarrow> net_buf_simple" where
  "buf_of m = \<lparr>nb_buf = m, nb_off = 0, nb_len = length m\<rparr>"

lemma signing_sign_attributes [simp]: "signing_key (sign_attributes i)"
  by (simp add: sign_attributes_def signing_key_def)

lemma buf_of_simps [simp]: "nb_wf (buf_of m)" "nb_data (buf_of m) = m" "nb_buf (buf_of m) = m"
    "nb_len (buf_of m) = length m" "nb_off (buf_of m) = 0"
  by (simp_all add: buf_of_def nb_wf_def nb_data_def)

lemma demo_keys_simps [simp]:
  "demo_keys 1 = Some (sign_attributes 1, demo_key 7)"
  "demo_keys 3 = Some (sign_attributes 3, demo_key 9)"
  by (simp_all add: demo_keys_def)

lemma demo_reliable: "pawr_reliable demo (\<lambda>p. p) (mac32 demo_hash)"
  unfolding demo_def by (rule ref_platform.pawr_reliable_axioms)

lemma demo_platform: "pawr_platform demo (\<lambda>p. p) (mac32 demo_hash)"
  unfolding demo_def by (rule ref_platform.pawr_platform_axioms)

lemma demo_psa_reliable: "psa_reliable demo (\<lambda>p. p) (mac32 demo_hash)"
  unfolding demo_def by (rule ref_psa.psa_reliable_axioms)

lemma demo_net_buf: "zephyr_net_buf demo"
  unfolding demo_def by (rule ref_net_buf.zephyr_net_buf_axioms)

lemma demo_sem: "zephyr_sem demo"
  unfolding demo_def by (rule ref_sem.zephyr_sem_axioms)

end
