(* ===== verification/Crypto.thy ===== *)
theory Crypto
  imports Reference_Platform
begin

text \<open>
  The crypto library (\<open>lib/crypto/crypto.c\<close>, \<open>include/app/lib/crypto.h\<close>): importing a
  signing key, computing a MAC into a buffer, and the counter kept in the PSA store. The last
  two sections show what a stored counter is worth after a reboot and which part of it is lost.
\<close>

section \<open>Sizes and flags\<close>

definition HASH_LEN :: nat where "HASH_LEN = 32"
definition KEY_BITS :: nat where "KEY_BITS = 256"
definition KEY_LEN :: nat where "KEY_LEN = KEY_BITS div 8"
definition MAC_LEN :: nat where "MAC_LEN = 32"
definition KEY_FLAGS :: psa_key_usage_t where "KEY_FLAGS = PSA_KEY_USAGE_SIGN_MESSAGE"

lemmas crypto_sizes = HASH_LEN_def MAC_LEN_def KEY_LEN_def KEY_BITS_def

text \<open>\<open>sizeof(psa_key_id_t)\<close> and \<open>sizeof(uint64_t)\<close>, and \<open>BIT_SIZEOF\<close>.\<close>

definition SIZEOF_KEY_ID :: nat where "SIZEOF_KEY_ID = 4"
definition SIZEOF_U64 :: nat where "SIZEOF_U64 = 8"

definition BIT_SIZEOF :: "nat \<Rightarrow> nat" where
  "BIT_SIZEOF n = n * 8"

section \<open>Operations\<close>

definition crypto_init :: "'p platform \<Rightarrow> 'p \<Rightarrow> psa_status_t \<times> 'p" where
  "crypto_init pf p = psa_crypto_init pf p"

text \<open>The attributes of the two kinds of keys. The attribute variable is not initialised, so the
  fields that no setter touches are stray; for a counter that includes the algorithm.\<close>

definition hmac_key_attributes :: "'p platform \<Rightarrow> psa_key_id_t \<Rightarrow> psa_key_attributes_t" where
  "hmac_key_attributes pf persistent_id = (stray_attributes pf)\<lparr>
     psa_key_id := persistent_id,
     psa_key_lifetime := PSA_KEY_LIFETIME_PERSISTENT,
     psa_key_type := PSA_KEY_TYPE_HMAC,
     psa_key_bits := KEY_BITS,
     psa_key_usage_flags := KEY_FLAGS,
     psa_key_algorithm := HMAC_SHA_256\<rparr>"

definition counter_key_attributes :: "'p platform \<Rightarrow> psa_key_id_t \<Rightarrow> psa_key_attributes_t" where
  "counter_key_attributes pf uid = (stray_attributes pf)\<lparr>
     psa_key_id := uid,
     psa_key_lifetime := PSA_KEY_LIFETIME_PERSISTENT,
     psa_key_type := PSA_KEY_TYPE_RAW_DATA,
     psa_key_bits := BIT_SIZEOF SIZEOF_KEY_ID,
     psa_key_usage_flags := PSA_KEY_USAGE_EXPORT\<rparr>"

lemma hmac_key_attributes_simps [simp]:
  "psa_key_id (hmac_key_attributes pf i) = i"
  "signing_key (hmac_key_attributes pf i)"
  by (simp_all add: hmac_key_attributes_def signing_key_def KEY_FLAGS_def)

lemma counter_key_attributes_simps [simp]:
  "psa_key_id (counter_key_attributes pf i) = i"
  "psa_key_usage_flags (counter_key_attributes pf i) = PSA_KEY_USAGE_EXPORT"
  by (simp_all add: counter_key_attributes_def)

definition crypto_save_persistent_key ::
    "'p platform \<Rightarrow> psa_key_id_t \<Rightarrow> net_buf_simple \<Rightarrow> 'p \<Rightarrow> psa_status_t \<times> 'p" where
  "crypto_save_persistent_key pf persistent_id key p =
     psa_import_key pf (hmac_key_attributes pf persistent_id) (nb_data key) p"

text \<open>\<open>crypto_compute_mac\<close> reads \<open>hashable_len\<close> bytes from the data pointer of
  \<open>input\<close> and lets PSA write into the \<open>MAC_LEN\<close> bytes it has added to \<open>mac_out\<close>.\<close>

definition crypto_compute_mac ::
    "'p platform \<Rightarrow> psa_key_id_t \<Rightarrow> net_buf_simple \<Rightarrow> nat \<Rightarrow> net_buf_simple \<Rightarrow> 'p \<Rightarrow>
     psa_status_t \<times> net_buf_simple \<times> 'p" where
  "crypto_compute_mac pf key_id input hashable_len mac_out p =
     (let (mac_data, mac_out) = net_buf_simple_add pf mac_out MAC_LEN;
          (err, out, p) = psa_mac_compute pf key_id HMAC_SHA_256
             (take hashable_len (drop (nb_off input) (nb_buf input))) MAC_LEN p
      in (err, mac_out\<lparr>nb_buf := store (nb_buf mac_out) mac_data out\<rparr>, p))"

record crypto_counter_t =
  cc_value :: u64
  storage_uid :: psa_key_id_t

text \<open>\<open>tmp[i] << s\<close>: the byte is promoted to a 32-bit \<open>int\<close>, and the shift is defined
  only if \<open>s\<close> is below 32 and the result fits.\<close>

definition shl_defined :: "byte \<Rightarrow> nat \<Rightarrow> bool" where
  "shl_defined x s \<longleftrightarrow> s < 32 \<and> unat x * 2 ^ s < 2 ^ 31"

definition int_shl :: "'p platform \<Rightarrow> byte \<Rightarrow> nat \<Rightarrow> int" where
  "int_shl pf x s = (if shl_defined x s then int (unat x * 2 ^ s) else stray_shl pf x s)"

definition crypto_secure_counter_commit ::
    "'p platform \<Rightarrow> crypto_counter_t \<Rightarrow> 'p \<Rightarrow> psa_status_t \<times> 'p" where
  "crypto_secure_counter_commit pf ctx p =
     (let (err, p) = psa_destroy_key pf (storage_uid ctx) p
      in if err \<noteq> PSA_SUCCESS \<and> err \<noteq> PSA_ERROR_INVALID_HANDLE then (err, p)
         else psa_import_key pf (counter_key_attributes pf (storage_uid ctx))
                (take SIZEOF_KEY_ID (le_bytes SIZEOF_U64 (cc_value ctx))) p)"

definition crypto_secure_counter_init ::
    "'p platform \<Rightarrow> crypto_counter_t \<Rightarrow> 'p \<Rightarrow> psa_status_t \<times> crypto_counter_t \<times> 'p" where
  "crypto_secure_counter_init pf ctx p =
     (let (err, tmp, p) = psa_export_key pf (storage_uid ctx) SIZEOF_U64 p;
          ctx = ctx\<lparr>cc_value := of_le (store (le_bytes SIZEOF_U64 (cc_value ctx)) 0 tmp)\<rparr>
      in if err = PSA_ERROR_INVALID_HANDLE then
           let (_, tmp, p) = psa_generate_random pf SIZEOF_U64 p;
               ctx = ctx\<lparr>cc_value := for_up SIZEOF_U64
                       (\<lambda>i v. or v (word_of_int (int_shl pf (tmp ! i) (i * 8)))) (cc_value ctx)\<rparr>;
               (st, p) = crypto_secure_counter_commit pf ctx p
           in (st, ctx, p)
         else (err, ctx, p))"

section \<open>What the operations do to the key store\<close>

context psa_key_store
begin

lemma save_key_ok:
  assumes "crypto_save_persistent_key pf kid key p = (PSA_SUCCESS, p')"
  shows "key_of p kid = None"
    and "\<exists>a. signing_key a \<and> key_of p' = (key_of p)(kid \<mapsto> (a, nb_data key))"
  using import_ok [OF assms [unfolded crypto_save_persistent_key_def]] hmac_key_attributes_simps(2)
  by (auto intro!: exI [of _ "hmac_key_attributes pf kid"])

lemma destroy_removes:
  assumes "psa_destroy_key pf kid p = (st, p')" and "st = PSA_SUCCESS \<or> st = PSA_ERROR_INVALID_HANDLE"
  shows "key_of p' = (key_of p)(kid := None)"
  using assms destroy_ok [of kid p p'] destroy_absent [of kid p p'] by auto

text \<open>A commit that succeeds leaves an exportable key with the low four bytes of the counter,
  and no other key changes.\<close>

lemma commit_ok:
  assumes "crypto_secure_counter_commit pf ctx p = (PSA_SUCCESS, p')"
  shows "\<exists>a. psa_key_usage_flags a = PSA_KEY_USAGE_EXPORT \<and>
    key_of p' = (key_of p)(storage_uid ctx \<mapsto> (a, le_bytes 4 (cc_value ctx)))"
proof -
  obtain st q where d: "psa_destroy_key pf (storage_uid ctx) p = (st, q)"
    by (metis prod.exhaust)
  from assms d have st: "st = PSA_SUCCESS \<or> st = PSA_ERROR_INVALID_HANDLE"
    by (auto simp: crypto_secure_counter_commit_def split: if_splits)
  have le4: "take SIZEOF_KEY_ID (le_bytes SIZEOF_U64 (cc_value ctx)) = le_bytes 4 (cc_value ctx)"
    by (simp add: le_bytes_def SIZEOF_KEY_ID_def SIZEOF_U64_def take_map)
  from assms d st have i: "psa_import_key pf (counter_key_attributes pf (storage_uid ctx))
      (le_bytes 4 (cc_value ctx)) q = (PSA_SUCCESS, p')"
    by (auto simp: crypto_secure_counter_commit_def le4)
  from import_ok [OF i] destroy_removes [OF d st]
  have "key_of p' = (key_of p)(storage_uid ctx \<mapsto>
      (counter_key_attributes pf (storage_uid ctx), le_bytes 4 (cc_value ctx)))"
    by auto
  then show ?thesis
    by (intro exI [of _ "counter_key_attributes pf (storage_uid ctx)"]) simp
qed

text \<open>Whatever a commit returns, the other keys stay.\<close>

lemma commit_other_keys:
  assumes "crypto_secure_counter_commit pf ctx p = (st, p')" and "kid \<noteq> storage_uid ctx"
    and "fst (psa_destroy_key pf (storage_uid ctx) p) \<in> {PSA_SUCCESS, PSA_ERROR_INVALID_HANDLE}"
  shows "key_of p' kid = key_of p kid"
proof -
  obtain d q where d: "psa_destroy_key pf (storage_uid ctx) p = (d, q)"
    by (metis prod.exhaust)
  with assms(3) have "d = PSA_SUCCESS \<or> d = PSA_ERROR_INVALID_HANDLE" by simp
  note q = destroy_removes [OF d this]
  show ?thesis
  proof (cases "st = PSA_SUCCESS")
    case True
    with assms commit_ok [of ctx p p'] show ?thesis by auto
  next
    case False
    with assms d q import_failed show ?thesis
      by (fastforce simp: crypto_secure_counter_commit_def Let_def)
  qed
qed

text \<open>Reading a counter that is stored keeps the keys, whatever PSA answers.\<close>

lemma counter_init_keeps:
  assumes "crypto_secure_counter_init pf ctx p = (st, ctx', p')" and "key_of p (storage_uid ctx) = Some x"
  shows "storage_uid ctx' = storage_uid ctx" and "key_of p' = key_of p"
proof -
  obtain e tmp q where x: "psa_export_key pf (storage_uid ctx) SIZEOF_U64 p = (e, tmp, q)"
    by (metis prod.exhaust)
  have "e \<noteq> PSA_ERROR_INVALID_HANDLE"
    using x assms(2) export_absent by fastforce
  with assms(1) x export_keys [OF x] show "storage_uid ctx' = storage_uid ctx" and "key_of p' = key_of p"
    by (auto simp: crypto_secure_counter_init_def Let_def split: if_splits)
qed

text \<open>Reading a stored counter overlays the stored bytes on the value the context had.\<close>

lemma counter_init_ok:
  assumes "crypto_secure_counter_init pf ctx p = (PSA_SUCCESS, ctx', p')"
    and "key_of p (storage_uid ctx) = Some (a, d)"
  shows "cc_value ctx' = of_le (store (le_bytes 8 (cc_value ctx)) 0 d)"
    and "storage_uid ctx' = storage_uid ctx" and "key_of p' = key_of p"
proof -
  obtain st tmp q where e: "psa_export_key pf (storage_uid ctx) SIZEOF_U64 p = (st, tmp, q)"
    by (metis prod.exhaust)
  have st: "st \<noteq> PSA_ERROR_INVALID_HANDLE"
    using e assms(2) export_absent by fastforce
  with assms(1) e have r: "st = PSA_SUCCESS" "q = p'"
    "ctx' = ctx\<lparr>cc_value := of_le (store (le_bytes SIZEOF_U64 (cc_value ctx)) 0 tmp)\<rparr>"
    by (auto simp: crypto_secure_counter_init_def Let_def split: if_splits)
  have "tmp = d"
    using export_ok e r(1) assms(2) by fastforce
  with r show "cc_value ctx' = of_le (store (le_bytes 8 (cc_value ctx)) 0 d)"
    and "storage_uid ctx' = storage_uid ctx"
    by (simp_all add: SIZEOF_U64_def)
  show "key_of p' = key_of p"
    using export_keys [OF e] r by simp
qed

end

lemma store_le_bytes_0: "store (le_bytes 8 (0 :: u64)) 0 (le_bytes 4 (v :: u64)) = le_bytes 8 (take_bit 32 v)"
proof -
  have "le_bytes 4 v = le_bytes 4 (take_bit 32 v)"
    by (auto simp: le_bytes_def bit_simps intro!: bit_word_eqI)
  moreover have "drop 4 (le_bytes 8 (0 :: u64)) = drop 4 (le_bytes 8 (take_bit 32 v))"
    by (auto simp: le_bytes_def drop_map drop_upt bit_simps intro!: bit_word_eqI)
  moreover have "le_bytes 4 w = take 4 (le_bytes 8 w)" for w :: u64
    by (simp add: le_bytes_def take_map)
  ultimately show ?thesis
    by (simp add: store_def)
qed

context psa_reliable
begin

lemma commit_succeeds: "\<exists>p'. crypto_secure_counter_commit pf ctx p = (PSA_SUCCESS, p')"
proof -
  obtain st q where d: "psa_destroy_key pf (storage_uid ctx) p = (st, q)"
    by (metis prod.exhaust)
  have st: "st = PSA_SUCCESS \<or> st = PSA_ERROR_INVALID_HANDLE"
    using destroy_succeeds [of "storage_uid ctx" p] d by (auto split: if_splits)
  then have "key_of q (storage_uid ctx) = None"
    using destroy_removes [OF d] by auto
  then have "fst (psa_import_key pf (counter_key_attributes pf (storage_uid ctx)) dat q) = PSA_SUCCESS" for dat
    by (simp add: import_succeeds)
  with d st show ?thesis
    by (auto simp: crypto_secure_counter_commit_def split: prod.splits intro: prod_eqI)
       (metis prod.collapse)+
qed

lemma init_after_commit:
  assumes "crypto_secure_counter_commit pf ctx p = (PSA_SUCCESS, p')"
  shows "\<exists>p''. crypto_secure_counter_init pf \<lparr>cc_value = 0, storage_uid = storage_uid ctx\<rparr> p' =
    (PSA_SUCCESS, \<lparr>cc_value = take_bit 32 (cc_value ctx), storage_uid = storage_uid ctx\<rparr>, p'')"
proof -
  from commit_ok [OF assms] obtain a where
    u: "psa_key_usage_flags a = PSA_KEY_USAGE_EXPORT"
    and k: "key_of p' (storage_uid ctx) = Some (a, le_bytes 4 (cc_value ctx))"
    by auto
  obtain st tmp q where e: "psa_export_key pf (storage_uid ctx) 8 p' = (st, tmp, q)"
    by (metis prod.exhaust)
  have st: "st = PSA_SUCCESS"
    using export_succeeds [OF k u, of 8] e by simp
  with export_ok e k have "tmp = le_bytes 4 (cc_value ctx)"
    by fastforce
  with e st show ?thesis
    by (simp add: crypto_secure_counter_init_def SIZEOF_U64_def store_le_bytes_0)
qed

end

end
