(* ===== verification/Message_Transfer.thy ===== *)
theory Message_Transfer
  imports Crypto
begin

text \<open>
  The wire protocol (\<open>lib/transfer/transfer.c\<close>, \<open>include/app/lib/transfer.h\<close>): the
  messages, their serialisers and deserialisers, and the signature with its counter. A signed
  message is the payload, the 64-bit counter and the MAC over both, in this order; the receiver
  takes them off the end in the reverse order.

  A deserialiser takes the result structure and returns it updated, since the caller fills in the
  expected counts and since fields set before an error keep their new values.
\<close>

section \<open>Messages\<close>

record subevent_sel_info_t =
  num_reg_slots :: u8

record rsp_data_t =
  sender_id :: u16
  rsp_counter :: u32

record register_data_t =
  subevent :: u8
  rsp_slot :: u8

record ack_data_t =
  ack_id :: u16

record advertisement_data_t =
  reg_data :: "register_data_t list"
  selection_info :: subevent_sel_info_t
  adv_counter :: u64

record subevent_data_t =
  register_data :: "register_data_t list"
  ack_data :: "ack_data_t list"
  sub_counter :: u64
  register_data_count :: nat
  ack_data_count :: nat

record response_data_t =
  rsp_metadata :: rsp_data_t
  rsp_data :: "byte list"
  data_len :: u8
  resp_counter :: u64

datatype transfer_error_t =
    TRANSFER_NO_ERROR
  | TRANSFER_COULDNT_COMPUTE_MAC
  | TRANSFER_MESSAGE_TO_SHORT
  | TRANSFER_INVALID_HASH
  | TRANSFER_COUNTER_DIDNT_MATCH

text \<open>\<open>UNUSED_DATA_LEN\<close>, with the packed \<open>rsp_data_t\<close> of 6 bytes.\<close>

definition SIZEOF_RSP_DATA :: nat where "SIZEOF_RSP_DATA = 6"

definition UNUSED_DATA_LEN :: nat where
  "UNUSED_DATA_LEN = 62 - HASH_LEN - SIZEOF_U64 - SIZEOF_RSP_DATA - 1"

section \<open>Signing and verifying\<close>

text \<open>
  \<open>sign_message\<close> makes a second buffer over the last \<open>HASH_LEN\<close> bytes of the
  message, so writing the MAC into that buffer writes it into the message: its storage is
  stored back.
\<close>

definition sign_message ::
    "'p platform \<Rightarrow> net_buf_simple \<Rightarrow> psa_key_id_t \<Rightarrow> 'p \<Rightarrow> transfer_error_t \<times> net_buf_simple \<times> 'p" where
  "sign_message pf serialized key_id p =
     (let hashable_len = nb_len serialized;
          (tail, serialized) = net_buf_simple_add pf serialized HASH_LEN;
          hmac = net_buf_simple_init_with_data pf (take HASH_LEN (drop tail (nb_buf serialized)));
          hmac = net_buf_simple_reset pf hmac;
          (err, hmac, p) = crypto_compute_mac pf key_id serialized hashable_len hmac p;
          serialized = serialized\<lparr>nb_buf := store (nb_buf serialized) tail (nb_buf hmac)\<rparr>
      in (if err = PSA_SUCCESS then TRANSFER_NO_ERROR else TRANSFER_COULDNT_COMPUTE_MAC,
          serialized, p))"

definition counter_serialize :: "'p platform \<Rightarrow> u64 \<Rightarrow> net_buf_simple \<Rightarrow> net_buf_simple" where
  "counter_serialize pf data result = net_buf_simple_add_le64 pf result data"

definition counter_deserialize ::
    "'p platform \<Rightarrow> u64 \<Rightarrow> net_buf_simple \<Rightarrow> transfer_error_t \<times> u64 \<times> net_buf_simple" where
  "counter_deserialize pf result data =
     (if nb_len data < 8 then (TRANSFER_MESSAGE_TO_SHORT, result, data)
      else let (v, data) = net_buf_simple_remove_le64 pf data
           in (TRANSFER_NO_ERROR, v, data))"

text \<open>\<open>verify_message\<close> returns the error, the message without hash and counter, the
  local counter, and the store. The local buffer for the recomputed MAC starts empty; its bytes
  are all written before they are compared.\<close>

definition verify_message ::
    "'p platform \<Rightarrow> net_buf_simple \<Rightarrow> psa_key_id_t \<Rightarrow> u64 \<Rightarrow> 'p \<Rightarrow>
     transfer_error_t \<times> net_buf_simple \<times> u64 \<times> 'p" where
  "verify_message pf message key_id counter p =
     (if nb_len message < HASH_LEN then (TRANSFER_MESSAGE_TO_SHORT, message, counter, p)
      else
        let (tail, message) = net_buf_simple_remove_mem pf message HASH_LEN;
            hmac = net_buf_simple_init_with_data pf (take HASH_LEN (drop tail (nb_buf message)));
            hmac_self_signed = \<lparr>nb_buf = replicate MAC_LEN 0, nb_off = 0, nb_len = 0\<rparr>;
            (err, hmac_self_signed, p) =
               crypto_compute_mac pf key_id message (nb_len message) hmac_self_signed p
        in if err \<noteq> PSA_SUCCESS then (TRANSFER_COULDNT_COMPUTE_MAC, message, counter, p)
           else if take HASH_LEN (drop (nb_off hmac) (nb_buf hmac)) \<noteq>
                   take HASH_LEN (drop (nb_off hmac_self_signed) (nb_buf hmac_self_signed))
           then (TRANSFER_INVALID_HASH, message, counter, p)
           else
             let (transfer_err, remote_counter, message) = counter_deserialize pf 0 message
             in if transfer_err \<noteq> TRANSFER_NO_ERROR then (transfer_err, message, counter, p)
                else if remote_counter < counter
                then (TRANSFER_COUNTER_DIDNT_MATCH, message, counter, p)
                else (TRANSFER_NO_ERROR, message,
                      (if remote_counter > counter then remote_counter else counter), p))"

section \<open>Serialisers\<close>

definition register_data_serialize :: "'p platform \<Rightarrow> register_data_t \<Rightarrow> net_buf_simple \<Rightarrow> net_buf_simple" where
  "register_data_serialize pf data result =
     net_buf_simple_add_u8 pf (net_buf_simple_add_u8 pf result (subevent data)) (rsp_slot data)"

definition advertisement_data_serialize ::
    "'p platform \<Rightarrow> advertisement_data_t \<Rightarrow> net_buf_simple \<Rightarrow> net_buf_simple" where
  "advertisement_data_serialize pf data result =
     (let n = num_reg_slots (selection_info data);
          result = for_up (unat n) (\<lambda>i. register_data_serialize pf (reg_data data ! i)) result;
          result = net_buf_simple_add_u8 pf result n
      in counter_serialize pf (adv_counter data) result)"

definition subevent_data_with_reg_serialize ::
    "'p platform \<Rightarrow> subevent_data_t \<Rightarrow> net_buf_simple \<Rightarrow> net_buf_simple" where
  "subevent_data_with_reg_serialize pf data result =
     (let result = for_up (register_data_count data)
                     (\<lambda>i. register_data_serialize pf (register_data data ! i)) result;
          result = for_up (ack_data_count data)
                     (\<lambda>i r. net_buf_simple_add_le16 pf r (ack_id (ack_data data ! i))) result
      in counter_serialize pf (sub_counter data) result)"

definition subevent_data_serialize :: "'p platform \<Rightarrow> subevent_data_t \<Rightarrow> net_buf_simple \<Rightarrow> net_buf_simple" where
  "subevent_data_serialize pf data result =
     (let result = for_up (ack_data_count data)
                     (\<lambda>i r. net_buf_simple_add_le16 pf r (ack_id (ack_data data ! i))) result
      in counter_serialize pf (sub_counter data) result)"

definition response_data_serialize :: "'p platform \<Rightarrow> response_data_t \<Rightarrow> net_buf_simple \<Rightarrow> net_buf_simple" where
  "response_data_serialize pf data result =
     (let result = net_buf_simple_add_le16 pf result (sender_id (rsp_metadata data));
          result = net_buf_simple_add_le32 pf result (rsp_counter (rsp_metadata data));
          result = net_buf_simple_add_mem pf result (take (unat (data_len data)) (rsp_data data));
          result = net_buf_simple_add_u8 pf result (data_len data)
      in counter_serialize pf (resp_counter data) result)"

section \<open>Deserialisers\<close>

text \<open>The bytes at a pointer into a buffer, and the same bytes read as packed
  \<open>register_data_t\<close> structures.\<close>

definition nb_mem :: "net_buf_simple \<Rightarrow> nat \<Rightarrow> nat \<Rightarrow> byte list" where
  "nb_mem b ptr n = take n (drop ptr (nb_buf b))"

fun as_register_data :: "byte list \<Rightarrow> register_data_t list" where
  "as_register_data (s # r # bs) = \<lparr>subevent = s, rsp_slot = r\<rparr> # as_register_data bs"
| "as_register_data _ = []"

definition register_data_deserialize ::
    "'p platform \<Rightarrow> register_data_t \<Rightarrow> net_buf_simple \<Rightarrow> transfer_error_t \<times> register_data_t \<times> net_buf_simple" where
  "register_data_deserialize pf result data =
     (if nb_len data < 2 then (TRANSFER_MESSAGE_TO_SHORT, result, data)
      else let (r, data) = net_buf_simple_remove_u8 pf data;
               (s, data) = net_buf_simple_remove_u8 pf data
           in (TRANSFER_NO_ERROR, result\<lparr>rsp_slot := r, subevent := s\<rparr>, data))"

definition advertisement_data_deserialize ::
    "'p platform \<Rightarrow> advertisement_data_t \<Rightarrow> net_buf_simple \<Rightarrow>
     transfer_error_t \<times> advertisement_data_t \<times> net_buf_simple" where
  "advertisement_data_deserialize pf result data =
     (if nb_len data < 1 then (TRANSFER_MESSAGE_TO_SHORT, result, data)
      else
        let (n, data) = net_buf_simple_remove_u8 pf data;
            result = result\<lparr>selection_info := \<lparr>num_reg_slots = n\<rparr>\<rparr>;
            reg_data_size = 2 * unat n
        in if nb_len data < reg_data_size then (TRANSFER_MESSAGE_TO_SHORT, result, data)
           else let (ptr, data) = net_buf_simple_pull_mem pf data reg_data_size
                in (TRANSFER_NO_ERROR,
                    result\<lparr>reg_data := as_register_data (nb_mem data ptr reg_data_size)\<rparr>, data))"

text \<open>One round of the loop over the acks, counting down from \<open>i\<close>.\<close>

definition ack_round :: "'p platform \<Rightarrow> nat \<Rightarrow> subevent_data_t \<times> net_buf_simple \<Rightarrow> subevent_data_t \<times> net_buf_simple" where
  "ack_round pf i = (\<lambda>(result, data).
     let (v, data) = net_buf_simple_remove_le16 pf data
     in (result\<lparr>ack_data := (ack_data result)[i - 1 := \<lparr>ack_id = v\<rparr>]\<rparr>, data))"

text \<open>The loop over the register data returns at the first error.\<close>

fun register_loop ::
    "'p platform \<Rightarrow> nat \<Rightarrow> subevent_data_t \<Rightarrow> net_buf_simple \<Rightarrow> transfer_error_t \<times> subevent_data_t \<times> net_buf_simple" where
  "register_loop pf 0 result data = (TRANSFER_NO_ERROR, result, data)"
| "register_loop pf (Suc i) result data =
     (let (err, r, data) = register_data_deserialize pf (register_data result ! i) data;
          result = result\<lparr>register_data := (register_data result)[i := r]\<rparr>
      in if err \<noteq> TRANSFER_NO_ERROR then (err, result, data) else register_loop pf i result data)"

definition subevent_data_with_reg_deserialize ::
    "'p platform \<Rightarrow> subevent_data_t \<Rightarrow> net_buf_simple \<Rightarrow> transfer_error_t \<times> subevent_data_t \<times> net_buf_simple" where
  "subevent_data_with_reg_deserialize pf result data =
     (if nb_len data < 2 * ack_data_count result then (TRANSFER_MESSAGE_TO_SHORT, result, data)
      else let (result, data) = for_down (ack_data_count result) (ack_round pf) (result, data)
           in register_loop pf (register_data_count result) result data)"

definition subevent_data_deserialize ::
    "'p platform \<Rightarrow> subevent_data_t \<Rightarrow> net_buf_simple \<Rightarrow> transfer_error_t \<times> subevent_data_t \<times> net_buf_simple" where
  "subevent_data_deserialize pf result data =
     (if nb_len data < 2 * ack_data_count result then (TRANSFER_MESSAGE_TO_SHORT, result, data)
      else let (result, data) = for_down (ack_data_count result) (ack_round pf) (result, data)
           in (TRANSFER_NO_ERROR, result, data))"

definition response_data_deserialize ::
    "'p platform \<Rightarrow> response_data_t \<Rightarrow> net_buf_simple \<Rightarrow> transfer_error_t \<times> response_data_t \<times> net_buf_simple" where
  "response_data_deserialize pf result data =
     (if nb_len data < 1 then (TRANSFER_MESSAGE_TO_SHORT, result, data)
      else
        let (n, data) = net_buf_simple_remove_u8 pf data;
            result = result\<lparr>data_len := n\<rparr>
        in if nb_len data < unat n + 2 + 4 then (TRANSFER_MESSAGE_TO_SHORT, result, data)
           else
             let (ptr, data) = net_buf_simple_remove_mem pf data (unat n);
                 result = result\<lparr>rsp_data := nb_mem data ptr (unat n)\<rparr>;
                 (c, data) = net_buf_simple_remove_le32 pf data;
                 (i, data) = net_buf_simple_remove_le16 pf data
             in (TRANSFER_NO_ERROR,
                 result\<lparr>rsp_metadata := \<lparr>sender_id = i, rsp_counter = c\<rparr>\<rparr>, data))"

end
