(* ===== verification/Transfer_Wire.thy ===== *)
theory Transfer_Wire
  imports Message_Transfer
begin

text \<open>
  The wire format as byte lists, and the proof that the serialisers append exactly these bytes
  and the deserialisers read them back. The abstract side (\<open>adv_wire\<close>,
  \<open>subevent_wire\<close>, \<open>response_wire\<close>, the decoders) knows nothing of buffers, offsets
  and loops.
\<close>

section \<open>The wire format\<close>

definition reg_wire :: "register_data_t \<Rightarrow> byte list" where
  "reg_wire r = [subevent r, rsp_slot r]"

definition regs_wire :: "register_data_t list \<Rightarrow> byte list" where
  "regs_wire rs = concat (map reg_wire rs)"

definition acks_wire :: "ack_data_t list \<Rightarrow> byte list" where
  "acks_wire as = concat (map (\<lambda>a. le_bytes 2 (ack_id a)) as)"

definition adv_wire :: "advertisement_data_t \<Rightarrow> byte list" where
  "adv_wire d = regs_wire (take (unat (num_reg_slots (selection_info d))) (reg_data d))
                @ [num_reg_slots (selection_info d)]"

definition subevent_wire :: "subevent_data_t \<Rightarrow> byte list" where
  "subevent_wire d = regs_wire (take (register_data_count d) (register_data d))
                     @ acks_wire (take (ack_data_count d) (ack_data d))"

definition response_wire :: "response_data_t \<Rightarrow> byte list" where
  "response_wire d = le_bytes 2 (sender_id (rsp_metadata d)) @ le_bytes 4 (rsp_counter (rsp_metadata d))
                     @ take (unat (data_len d)) (rsp_data d) @ [data_len d]"

fun as_ack_data :: "byte list \<Rightarrow> ack_data_t list" where
  "as_ack_data (x # y # bs) = \<lparr>ack_id = of_le [x, y]\<rparr> # as_ack_data bs"
| "as_ack_data _ = []"

lemma length_reg_wire: "length (reg_wire r) = 2"
  by (simp add: reg_wire_def)

lemma length_regs_wire [simp]: "length (regs_wire rs) = 2 * length rs"
  by (induction rs) (auto simp: regs_wire_def reg_wire_def)

lemma length_acks_wire [simp]: "length (acks_wire as) = 2 * length as"
  by (induction as) (auto simp: acks_wire_def)

lemma regs_wire_snoc: "regs_wire (rs @ [r]) = regs_wire rs @ reg_wire r"
  by (simp add: regs_wire_def)

lemma acks_wire_snoc: "acks_wire (as @ [a]) = acks_wire as @ le_bytes 2 (ack_id a)"
  by (simp add: acks_wire_def)

lemma as_register_data_wire [wire]: "as_register_data (regs_wire rs) = rs"
  by (induction rs) (auto simp: regs_wire_def reg_wire_def)

lemma le_bytes_2: "le_bytes 2 w = [ucast w, ucast (drop_bit 8 w)]"
  by (simp add: le_bytes_def numeral_2_eq_2)

lemma as_ack_data_wire [wire]: "as_ack_data (acks_wire as) = as"
proof (induction as)
  case Nil
  then show ?case by (simp add: acks_wire_def)
next
  case (Cons a as)
  have "of_le (le_bytes 2 (ack_id a)) = ack_id a"
    by (rule of_le_le_bytes) simp
  then show ?case
    using Cons by (simp add: acks_wire_def le_bytes_2)
qed

lemma as_register_data_append:
  "even (length xs) \<Longrightarrow> as_register_data (xs @ ys) = as_register_data xs @ as_register_data ys"
  by (induction xs rule: as_register_data.induct) auto

lemma as_ack_data_append:
  "even (length xs) \<Longrightarrow> as_ack_data (xs @ ys) = as_ack_data xs @ as_ack_data ys"
  by (induction xs rule: as_ack_data.induct) auto

lemma length_as_register_data [simp]: "length (as_register_data bs) = length bs div 2"
  by (induction bs rule: as_register_data.induct) auto

lemma length_as_ack_data [simp]: "length (as_ack_data bs) = length bs div 2"
  by (induction bs rule: as_ack_data.induct) auto

section \<open>Serialisers append the wire format\<close>

text \<open>A loop of appends is one append.\<close>

lemma for_up_appends:
  assumes wf: "nb_wf b" and room: "length (concat (map f [0..<n])) \<le> nb_tailroom b"
    and body: "\<And>i r. i < n \<Longrightarrow> nb_wf r \<Longrightarrow> length (f i) \<le> nb_tailroom r \<Longrightarrow> g i r = nb_append r (f i)"
  shows "for_up n g b = nb_append b (concat (map f [0..<n]))"
  using room body
proof (induction n)
  case 0
  then show ?case by simp
next
  case (Suc n)
  then have IH: "for_up n g b = nb_append b (concat (map f [0..<n]))"
    by simp
  with Suc.prems wf show ?case
    by (simp add: nb_wf_append nb_tailroom_append nb_append_append)
qed

lemma concat_map_nth: "n \<le> length xs \<Longrightarrow> concat (map (\<lambda>i. f (xs ! i)) [0..<n]) = concat (map f (take n xs))"
  by (rule arg_cong [where f = concat]) (auto simp: list_eq_iff_nth_eq)

context zephyr_net_buf
begin

lemma register_data_serialize_eq:
  "nb_wf b \<Longrightarrow> 2 \<le> nb_tailroom b \<Longrightarrow> register_data_serialize pf r b = nb_append b (reg_wire r)"
  by (simp add: register_data_serialize_def reg_wire_def nb_add_u8 nb_wf_append nb_tailroom_append nb_append_append)

lemma regs_loop_eq:
  assumes "nb_wf b" and "n \<le> length rs" and "2 * n \<le> nb_tailroom b"
  shows "for_up n (\<lambda>i. register_data_serialize pf (rs ! i)) b = nb_append b (regs_wire (take n rs))"
proof -
  have eq: "concat (map (\<lambda>i. reg_wire (rs ! i)) [0..<n]) = regs_wire (take n rs)"
    using assms(2) by (simp add: concat_map_nth regs_wire_def)
  have "for_up n (\<lambda>i. register_data_serialize pf (rs ! i)) b
        = nb_append b (concat (map (\<lambda>i. reg_wire (rs ! i)) [0..<n]))"
    by (rule for_up_appends [OF assms(1)])
       (use assms in \<open>simp_all add: eq register_data_serialize_eq length_reg_wire min_absorb2\<close>)
  then show ?thesis by (simp add: eq)
qed

lemma acks_loop_eq:
  assumes "nb_wf b" and "n \<le> length as" and "2 * n \<le> nb_tailroom b"
  shows "for_up n (\<lambda>i r. net_buf_simple_add_le16 pf r (ack_id (as ! i))) b = nb_append b (acks_wire (take n as))"
proof -
  have eq: "concat (map (\<lambda>i. le_bytes 2 (ack_id (as ! i))) [0..<n]) = acks_wire (take n as)"
    using assms(2) by (simp add: concat_map_nth [where f = "\<lambda>a. le_bytes 2 (ack_id a)"] acks_wire_def)
  have "for_up n (\<lambda>i r. net_buf_simple_add_le16 pf r (ack_id (as ! i))) b
        = nb_append b (concat (map (\<lambda>i. le_bytes 2 (ack_id (as ! i))) [0..<n]))"
    by (rule for_up_appends [OF assms(1)]) (use assms in \<open>simp_all add: eq nb_add_le16 min_absorb2\<close>)
  then show ?thesis by (simp add: eq)
qed

lemma advertisement_data_serialize_eq:
  assumes "nb_wf b" and "unat (num_reg_slots (selection_info d)) \<le> length (reg_data d)"
    and "length (adv_wire d) + 8 \<le> nb_tailroom b"
  shows "advertisement_data_serialize pf d b = nb_append b (adv_wire d @ le_bytes 8 (adv_counter d))"
  using assms
  by (simp add: advertisement_data_serialize_def adv_wire_def regs_loop_eq counter_serialize_def
      nb_add_u8 nb_add_le64 nb_wf_append nb_tailroom_append nb_append_append min_absorb2 Let_def)

lemma subevent_data_with_reg_serialize_eq:
  assumes "nb_wf b" and "register_data_count d \<le> length (register_data d)"
    and "ack_data_count d \<le> length (ack_data d)"
    and "length (subevent_wire d) + 8 \<le> nb_tailroom b"
  shows "subevent_data_with_reg_serialize pf d b = nb_append b (subevent_wire d @ le_bytes 8 (sub_counter d))"
  using assms
  by (simp add: subevent_data_with_reg_serialize_def subevent_wire_def regs_loop_eq acks_loop_eq
      counter_serialize_def nb_add_le64 nb_wf_append nb_tailroom_append nb_append_append min_absorb2 Let_def)

lemma subevent_data_serialize_eq:
  assumes "nb_wf b" and "ack_data_count d \<le> length (ack_data d)"
    and "2 * ack_data_count d + 8 \<le> nb_tailroom b"
  shows "subevent_data_serialize pf d b
         = nb_append b (acks_wire (take (ack_data_count d) (ack_data d)) @ le_bytes 8 (sub_counter d))"
  using assms
  by (simp add: subevent_data_serialize_def acks_loop_eq
      counter_serialize_def nb_add_le64 nb_wf_append nb_tailroom_append nb_append_append min_absorb2 Let_def)

lemma response_data_serialize_eq:
  assumes "nb_wf b" and "length (response_wire d) + 8 \<le> nb_tailroom b"
  shows "response_data_serialize pf d b = nb_append b (response_wire d @ le_bytes 8 (resp_counter d))"
  using assms
  by (simp add: response_data_serialize_def response_wire_def counter_serialize_def nb_adds
      nb_wf_append nb_tailroom_append nb_append_append Let_def)

end

section \<open>Taking bytes off the end\<close>

lemma nb_last_suffix:
  assumes "nb_wf b" and "nb_data b = xs @ ys" and "n = length ys"
  shows "nb_last b n = ys" and "nb_data (nb_chop b n) = xs" and "nb_wf (nb_chop b n)"
    and "n \<le> nb_len b" and "nb_len (nb_chop b n) = length xs"
proof -
  have l: "nb_len b = length xs + length ys"
    using length_nb_data [OF assms(1)] assms(2) by simp
  then show "nb_last b n = ys" and "nb_data (nb_chop b n) = xs" and "n \<le> nb_len b"
    and "nb_len (nb_chop b n) = length xs"
    using assms by (simp_all add: nb_last_eq nb_data_chop)
  show "nb_wf (nb_chop b n)"
    using assms(1) by (rule nb_wf_chop)
qed

lemma nb_last_split:
  assumes "nb_wf b" and "m + n \<le> nb_len b"
  shows "nb_last b (m + n) = nb_last (nb_chop b n) m @ nb_last b n"
proof -
  have "drop (nb_len b - (m + n)) (nb_data b)
        = drop (nb_len b - (m + n)) (take (nb_len b - n) (nb_data b)) @ drop (nb_len b - n) (nb_data b)"
    using assms by (metis append_take_drop_id diff_le_mono2 drop_append drop_take le_add2 length_nb_data length_take min.absorb2 diff_is_0_eq drop0 diff_le_self)
  then show ?thesis
    using assms by (simp add: nb_last_eq nb_data_chop add.commute)
qed

lemma length_nb_last [simp]: "nb_wf b \<Longrightarrow> n \<le> nb_len b \<Longrightarrow> length (nb_last b n) = n"
  by (simp add: nb_last_eq)

lemma of_le_single [simp]: "of_le [b] = (b :: byte)"
  by simp

lemma as_ack_data_two: "length bs = 2 \<Longrightarrow> as_ack_data bs = [\<lparr>ack_id = of_le bs\<rparr>]"
  by (auto simp: numeral_2_eq_2 length_Suc_conv)

text \<open>The ack loop replaces the first \<open>n\<close> acks of the result by the last \<open>2 * n\<close>
  bytes of the message, read as acks.\<close>

context zephyr_net_buf
begin

lemma ack_loop:
  "nb_wf b \<Longrightarrow> 2 * n \<le> nb_len b \<Longrightarrow> n \<le> length (ack_data res) \<Longrightarrow>
   for_down n (ack_round pf) (res, b) =
     (res\<lparr>ack_data := as_ack_data (nb_last b (2 * n)) @ drop n (ack_data res)\<rparr>, nb_chop b (2 * n))"
proof (induction n arbitrary: res b)
  case 0
  then show ?case by (simp add: nb_last_eq)
next
  case (Suc n)
  have ev: "even (length (nb_last (nb_chop b 2) (2 * n)))"
    using Suc.prems by (simp add: nb_wf_chop)
  let ?v = "\<lparr>ack_id = of_le (nb_last b 2)\<rparr>"
  let ?res = "res\<lparr>ack_data := (ack_data res)[n := ?v]\<rparr>"
  have round: "ack_round pf (Suc n) (res, b) = (?res, nb_chop b 2)"
    using Suc.prems by (simp add: ack_round_def nb_remove_le16)
  have "for_down n (ack_round pf) (?res, nb_chop b 2) =
     (?res\<lparr>ack_data := as_ack_data (nb_last (nb_chop b 2) (2 * n)) @ drop n (ack_data ?res)\<rparr>,
      nb_chop (nb_chop b 2) (2 * n))"
    by (rule Suc.IH) (use Suc.prems in \<open>simp_all add: nb_wf_chop\<close>)
  moreover have "nb_last b (2 * Suc n) = nb_last (nb_chop b 2) (2 * n) @ nb_last b 2"
    using nb_last_split [of b "2 * n" 2] Suc.prems by simp
  then have "as_ack_data (nb_last b (2 * Suc n)) = as_ack_data (nb_last (nb_chop b 2) (2 * n)) @ [?v]"
    using Suc.prems by (simp only: as_ack_data_append [OF ev]) (simp add: as_ack_data_two)
  moreover have "drop n ((ack_data res)[n := ?v]) = ?v # drop (Suc n) (ack_data res)"
    using Suc.prems by (simp add: upd_conv_take_nth_drop)
  ultimately show ?case
    by (simp add: round)
qed

lemma register_data_deserialize_eq:
  assumes "nb_wf b" and "2 \<le> nb_len b"
  shows "register_data_deserialize pf r b
         = (TRANSFER_NO_ERROR, hd (as_register_data (nb_last b 2)), nb_chop b 2)"
proof -
  have s: "nb_last b 2 = nb_last (nb_chop b 1) 1 @ nb_last b 1"
    using nb_last_split [of b 1 1] assms by (simp only: one_add_one)
  have "length (nb_last (nb_chop b 1) 1) = 1" and "length (nb_last b 1) = 1"
    using assms by (auto simp: nb_wf_chop)
  then obtain x y where "nb_last (nb_chop b 1) 1 = [x]" and "nb_last b 1 = [y]"
    by (auto simp: length_Suc_conv)
  with assms s show ?thesis
    by (simp add: register_data_deserialize_def nb_remove_u8 nb_wf_chop numeral_2_eq_2)
qed

lemma register_loop_eq:
  "nb_wf b \<Longrightarrow> 2 * n \<le> nb_len b \<Longrightarrow> n \<le> length (register_data res) \<Longrightarrow>
   register_loop pf n res b =
     (TRANSFER_NO_ERROR,
      res\<lparr>register_data := as_register_data (nb_last b (2 * n)) @ drop n (register_data res)\<rparr>,
      nb_chop b (2 * n))"
proof (induction n arbitrary: res b)
  case 0
  then show ?case by (simp add: nb_last_eq)
next
  case (Suc n)
  have ev: "even (length (nb_last (nb_chop b 2) (2 * n)))"
    using Suc.prems by (simp add: nb_wf_chop)
  let ?v = "hd (as_register_data (nb_last b 2))"
  let ?res = "res\<lparr>register_data := (register_data res)[n := ?v]\<rparr>"
  have IH: "register_loop pf n ?res (nb_chop b 2) =
     (TRANSFER_NO_ERROR,
      ?res\<lparr>register_data := as_register_data (nb_last (nb_chop b 2) (2 * n)) @ drop n (register_data ?res)\<rparr>,
      nb_chop (nb_chop b 2) (2 * n))"
    by (rule Suc.IH) (use Suc.prems in \<open>simp_all add: nb_wf_chop\<close>)
  have one: "as_register_data (nb_last b 2) = [?v]"
    using Suc.prems length_as_register_data [of "nb_last b 2"]
    by (cases "as_register_data (nb_last b 2)") auto
  have "nb_last b (2 * Suc n) = nb_last (nb_chop b 2) (2 * n) @ nb_last b 2"
    using nb_last_split [of b "2 * n" 2] Suc.prems by simp
  with one have "as_register_data (nb_last b (2 * Suc n))
             = as_register_data (nb_last (nb_chop b 2) (2 * n)) @ [?v]"
    by (simp only: as_register_data_append [OF ev])
  moreover have "drop n ((register_data res)[n := ?v]) = ?v # drop (Suc n) (register_data res)"
    using Suc.prems by (simp add: upd_conv_take_nth_drop)
  ultimately show ?case
    using Suc.prems IH by (simp add: register_data_deserialize_eq)
qed

end

section \<open>Deserialisers, on the bytes\<close>

text \<open>What each deserialiser does with any well-formed buffer: the error it returns is decided
  by the length alone, and the fields it sets are read from the end of the data.\<close>

context zephyr_net_buf
begin

lemma counter_deserialize_eq:
  "nb_wf b \<Longrightarrow> counter_deserialize pf v b =
     (if nb_len b < 8 then (TRANSFER_MESSAGE_TO_SHORT, v, b)
      else (TRANSFER_NO_ERROR, of_le (nb_last b 8), nb_chop b 8))"
  by (simp add: counter_deserialize_def nb_remove_le64)

lemma subevent_data_with_reg_deserialize_eq:
  assumes "nb_wf b" and "ack_data_count res \<le> length (ack_data res)"
    and "register_data_count res \<le> length (register_data res)"
    and "2 * ack_data_count res + 2 * register_data_count res \<le> nb_len b"
  shows "subevent_data_with_reg_deserialize pf res b =
    (let na = ack_data_count res; nr = register_data_count res; b' = nb_chop b (2 * na)
     in (TRANSFER_NO_ERROR,
         res\<lparr>ack_data := as_ack_data (nb_last b (2 * na)) @ drop na (ack_data res),
             register_data := as_register_data (nb_last b' (2 * nr)) @ drop nr (register_data res)\<rparr>,
         nb_chop b' (2 * nr)))"
  using assms
  by (simp add: subevent_data_with_reg_deserialize_def ack_loop register_loop_eq nb_wf_chop Let_def)

lemma subevent_data_deserialize_eq:
  assumes "nb_wf b" and "ack_data_count res \<le> length (ack_data res)"
    and "2 * ack_data_count res \<le> nb_len b"
  shows "subevent_data_deserialize pf res b =
    (let na = ack_data_count res
     in (TRANSFER_NO_ERROR,
         res\<lparr>ack_data := as_ack_data (nb_last b (2 * na)) @ drop na (ack_data res)\<rparr>,
         nb_chop b (2 * na)))"
  using assms by (simp add: subevent_data_deserialize_def ack_loop Let_def)

lemma advertisement_data_deserialize_wire:
  assumes "nb_wf b" and "nb_data b = regs_wire rs @ [n]" and "length rs = unat n"
  shows "\<exists>b'. advertisement_data_deserialize pf res b =
    (TRANSFER_NO_ERROR, res\<lparr>selection_info := \<lparr>num_reg_slots = n\<rparr>, reg_data := rs\<rparr>, b')"
proof -
  note l = nb_last_suffix [OF assms(1,2), of 1, simplified]
  have len: "nb_len b = 2 * unat n + 1"
    using assms length_nb_data [OF assms(1)] by simp
  let ?b = "nb_chop b 1"
  have q: "2 * unat n \<le> nb_len ?b"
    using len by simp
  have m: "nb_mem (nb_pull ?b (2 * unat n)) (nb_off ?b) (2 * unat n) = regs_wire rs"
    using l(2) len by (simp add: nb_mem_def nb_pull_def nb_chop_def nb_data_def)
  show ?thesis
    using assms(1) l len q m
    by (simp add: advertisement_data_deserialize_def nb_remove_u8 nb_pull_mem nb_wf_chop as_register_data_wire)
qed

lemma response_data_deserialize_wire:
  assumes "nb_wf b" and "nb_data b = response_wire d" and "unat (data_len d) \<le> length (rsp_data d)"
  shows "\<exists>b'. response_data_deserialize pf res b =
    (TRANSFER_NO_ERROR,
     res\<lparr>rsp_metadata := rsp_metadata d, rsp_data := take (unat (data_len d)) (rsp_data d),
         data_len := data_len d\<rparr>, b')"
proof -
  let ?n = "unat (data_len d)" and ?x = "take (unat (data_len d)) (rsp_data d)"
  let ?i = "le_bytes 2 (sender_id (rsp_metadata d))" and ?c = "le_bytes 4 (rsp_counter (rsp_metadata d))"
  have lx: "length ?x = ?n" using assms(3) by simp
  have d1: "nb_data b = (?i @ ?c @ ?x) @ [data_len d]"
    using assms(2) by (simp add: response_wire_def)
  note l1 = nb_last_suffix [OF assms(1) d1, of 1, simplified]
  have d2: "nb_data (nb_chop b 1) = (?i @ ?c) @ ?x" using l1 by simp
  have w1: "nb_wf (nb_chop b 1)" using l1 by simp
  note l2 = nb_last_suffix [OF w1 d2, of ?n, OF lx [symmetric], simplified]
  have d3: "nb_data (nb_chop b (Suc ?n)) = ?i @ ?c" using l2 by simp
  have w3: "nb_wf (nb_chop b (Suc ?n))" using l2 by simp
  note l3 = nb_last_suffix [OF w3 d3, of 4, simplified]
  have d4: "nb_data (nb_chop b (Suc ?n + 4)) = [] @ ?i" using l3 by simp
  have w4: "nb_wf (nb_chop b (Suc ?n + 4))" using l3 by simp
  note l4 = nb_last_suffix [OF w4 d4, of 2, simplified]
  have "nb_mem (nb_chop b (Suc ?n)) (nb_end (nb_chop b 1) - ?n) ?n = ?x"
    using l2 by (simp add: nb_mem_def nb_last_def nb_chop_def)
  with assms(1) l1 l2 l3 l4 w1 w3 w4 show ?thesis
    by (simp add: response_data_deserialize_def nb_removes)
qed

end

end
