(* ===== verification/Transfer_Auth.thy ===== *)
theory Transfer_Auth
  imports Transfer_Wire
begin

text \<open>
  Signing and verifying, as operations on byte lists. \<open>verify_spec\<close> is the abstract
  specification of \<open>verify_message\<close>: it knows the message as a list, the MAC as a partial
  function and the counter, and nothing of buffers. \<open>verify_refines\<close> is the simulation;
  what an accepted message looks like, and that a signed one is accepted, follow from it.
\<close>

section \<open>The abstract verifier\<close>

definition body_of :: "byte list \<Rightarrow> byte list" where
  "body_of m = take (length m - HASH_LEN) m"

definition tag_of :: "byte list \<Rightarrow> byte list" where
  "tag_of m = drop (length m - HASH_LEN) m"

definition verify_spec ::
    "(byte list \<Rightarrow> byte list option) \<Rightarrow> byte list \<Rightarrow> u64 \<Rightarrow> transfer_error_t \<times> byte list \<times> u64" where
  "verify_spec macf m c =
     (if length m < HASH_LEN then (TRANSFER_MESSAGE_TO_SHORT, m, c)
      else
        let body = body_of m; payload = take (length body - 8) body;
            remote = of_le (drop (length body - 8) body)
        in case macf body of
             None \<Rightarrow> (TRANSFER_COULDNT_COMPUTE_MAC, body, c)
           | Some t \<Rightarrow>
               if t \<noteq> tag_of m then (TRANSFER_INVALID_HASH, body, c)
               else if length body < 8 then (TRANSFER_MESSAGE_TO_SHORT, body, c)
               else if remote < c then (TRANSFER_COUNTER_DIDNT_MATCH, payload, c)
               else (TRANSFER_NO_ERROR, payload, remote))"

text \<open>The MAC that the PSA store computes for a key, if it does.\<close>

definition mac_of :: "'p platform \<Rightarrow> psa_key_id_t \<Rightarrow> 'p \<Rightarrow> byte list \<Rightarrow> byte list option" where
  "mac_of pf kid p m =
     (case psa_mac_compute pf kid HMAC_SHA_256 m MAC_LEN p of
        (st, out, _) \<Rightarrow> if st = PSA_SUCCESS then Some out else None)"

lemma body_tag: "HASH_LEN \<le> length m \<Longrightarrow> body_of m @ tag_of m = m"
  by (simp add: body_of_def tag_of_def)

lemma body_of_append [simp]: "length t = HASH_LEN \<Longrightarrow> body_of (xs @ t) = xs"
  by (simp add: body_of_def)

lemma tag_of_append [simp]: "length t = HASH_LEN \<Longrightarrow> tag_of (xs @ t) = t"
  by (simp add: tag_of_def)

lemma nb_chop_fields [simp]: "nb_buf (nb_chop b n) = nb_buf b" "nb_off (nb_chop b n) = nb_off b"
  by (simp_all add: nb_chop_def)

section \<open>Computing a MAC into an empty buffer\<close>

context zephyr_net_buf
begin

lemma compute_mac_empty:
  "length m = 32 \<Longrightarrow>
   crypto_compute_mac pf kid input n \<lparr>nb_buf = m, nb_off = 0, nb_len = 0\<rparr> p =
     (case psa_mac_compute pf kid HMAC_SHA_256 (take n (drop (nb_off input) (nb_buf input))) 32 p of
        (st, out, p') \<Rightarrow> (st, \<lparr>nb_buf = store m 0 out, nb_off = 0, nb_len = 32\<rparr>, p'))"
  by (simp add: crypto_compute_mac_def nb_add nb_wf_def nb_tailroom_def nb_end_def MAC_LEN_def
      split: prod.splits)

end

context pawr_platform
begin

text \<open>Signing and verifying keep the keys.\<close>

lemma compute_mac_keys: "key_of (snd (snd (crypto_compute_mac pf kid b n o' p))) = key_of p"
  using mac_compute_keys by (auto simp: crypto_compute_mac_def split: prod.split)

lemma sign_keys: "key_of (snd (snd (sign_message pf b kid p))) = key_of p"
  unfolding sign_message_def Let_def
  by (simp only: split_beta fst_conv snd_conv compute_mac_keys)

lemma verify_keys:
  assumes "verify_message pf b kid c p = (e, b', c', p')"
  shows "key_of p' = key_of p"
proof -
  have "snd (snd (snd (verify_message pf b kid c p))) \<in> {p} \<union> {snd (snd (crypto_compute_mac pf kid x n y p)) |x n y. True}"
    unfolding verify_message_def Let_def split_beta by auto
  then have "key_of (snd (snd (snd (verify_message pf b kid c p)))) = key_of p"
    using compute_mac_keys by auto
  with assms show ?thesis by simp
qed

lemma mac_of_Some:
  assumes "mac_of pf kid p m = Some t"
  shows "\<exists>a k. key_of p kid = Some (a, k) \<and> signing_key a \<and> t = mac k m"
proof -
  from assms obtain p' where "psa_mac_compute pf kid HMAC_SHA_256 m MAC_LEN p = (PSA_SUCCESS, t, p')"
    by (auto simp: mac_of_def split: prod.splits if_splits)
  then show ?thesis
    by (rule mac_compute) (simp add: MAC_LEN_def)
qed

lemma mac_of_length: "mac_of pf kid p m = Some t \<Longrightarrow> length t = HASH_LEN"
  by (auto dest!: mac_of_Some simp: mac_length HASH_LEN_def)

subsection \<open>Signing\<close>

text \<open>Whatever PSA answers, signing leaves the message in place and adds \<open>HASH_LEN\<close>
  bytes; if it succeeds these are the MAC of the message.\<close>

lemma sign_shape:
  assumes wf: "nb_wf b" and room: "HASH_LEN \<le> nb_tailroom b"
  shows "\<exists>t st p'. sign_message pf b kid p = (st, nb_append b t, p') \<and> length t = HASH_LEN \<and>
     key_of p' = key_of p \<and>
     (case mac_of pf kid p (nb_data b) of
        None \<Rightarrow> st = TRANSFER_COULDNT_COMPUTE_MAC
      | Some tag \<Rightarrow> st = TRANSFER_NO_ERROR \<and> t = tag)"
proof -
  let ?m = "nb_buf b" and ?i = "nb_end b"
  define old where "old = take 32 (drop ?i ?m)"
  have old: "length old = 32"
    using wf room by (simp add: old_def nb_wf_def nb_tailroom_def nb_end_def HASH_LEN_def)
  obtain st out p' where c: "psa_mac_compute pf kid HMAC_SHA_256 (nb_data b) 32 p = (st, out, p')"
    by (metis prod.exhaust)
  have lo: "length out \<le> 32"
    using mac_compute_length [OF c] .
  let ?t = "store old 0 out"
  have lt: "length ?t = 32" using old lo by simp
  have tag: "?t = out" if "length out = 32"
    using that old by (simp add: store_def)
  have cm: "crypto_compute_mac pf kid (b\<lparr>nb_len := nb_len b + 32\<rparr>) (nb_len b)
      \<lparr>nb_buf = old, nb_off = 0, nb_len = 0\<rparr> p = (st, \<lparr>nb_buf = ?t, nb_off = 0, nb_len = 32\<rparr>, p')"
    using c by (simp add: compute_mac_empty [OF old] nb_data_def)
  have eq: "sign_message pf b kid p =
     ((if st = PSA_SUCCESS then TRANSFER_NO_ERROR else TRANSFER_COULDNT_COMPUTE_MAC), nb_append b ?t, p')"
    using wf room lt cm
    by (simp add: sign_message_def nb_add nb_init_with_data nb_reset HASH_LEN_def
        old_def [symmetric] nb_append_def)
  have mo: "mac_of pf kid p (nb_data b) = (if st = PSA_SUCCESS then Some out else None)"
    using c by (simp add: mac_of_def MAC_LEN_def)
  have "length out = 32" if "st = PSA_SUCCESS"
    using mac_of_length [of kid p "nb_data b" out] mo that by (simp add: HASH_LEN_def)
  with tag have "?t = out" if "st = PSA_SUCCESS"
    using that by blast
  with eq mo lt mac_compute_keys [OF c] show ?thesis
    by (intro exI [of _ ?t] exI [of _ "if st = PSA_SUCCESS then TRANSFER_NO_ERROR else TRANSFER_COULDNT_COMPUTE_MAC"] exI [of _ p'])
       (auto simp: HASH_LEN_def)
qed

subsection \<open>Verifying\<close>

lemma verify_refines:
  assumes "nb_wf b"
  shows "\<exists>b' c' p'. verify_message pf b kid c p =
      (fst (verify_spec (mac_of pf kid p) (nb_data b) c), b', c', p') \<and>
      verify_spec (mac_of pf kid p) (nb_data b) c =
      (fst (verify_spec (mac_of pf kid p) (nb_data b) c), nb_data b', c') \<and>
      nb_wf b' \<and> nb_buf b' = nb_buf b \<and> nb_off b' = nb_off b \<and> key_of p' = key_of p"
proof (cases "nb_len b < HASH_LEN")
  case True
  with assms show ?thesis
    by (simp add: verify_message_def verify_spec_def)
next
  case False
  let ?b = "nb_chop b 32" and ?body = "body_of (nb_data b)"
  have len: "32 \<le> nb_len b" using False by (simp add: HASH_LEN_def)
  have body: "nb_data ?b = ?body" and tag: "nb_last b 32 = tag_of (nb_data b)"
    using assms len by (simp_all add: nb_data_chop nb_last_eq body_of_def tag_of_def HASH_LEN_def)
  have body': "take (nb_len b - 32) (drop (nb_off b) (nb_buf b)) = ?body"
    using body by (simp add: nb_data_def nb_chop_def)
  have lb: "length ?body = nb_len b - 32"
    using assms len by (simp add: body_of_def HASH_LEN_def)
  obtain st out p' where c: "psa_mac_compute pf kid HMAC_SHA_256 ?body 32 p = (st, out, p')"
    by (metis prod.exhaust)
  have mo: "mac_of pf kid p ?body = (if st = PSA_SUCCESS then Some out else None)"
    using c by (simp add: mac_of_def MAC_LEN_def)
  have lt: "length (nb_last b 32) = 32"
    using assms len by simp
  have own: "take 32 (store (replicate 32 0) 0 out) = out" if "st = PSA_SUCCESS"
    using mac_of_length [of kid p ?body out] mo that by (simp add: store_def HASH_LEN_def)
  have wf: "nb_wf ?b" using assms by (rule nb_wf_chop)
  have last8: "nb_last ?b 8 = drop (length ?body - 8) ?body" if "8 \<le> nb_len ?b"
    using that by (simp add: nb_last_eq body lb)
  have chop8: "nb_data (nb_chop ?b 8) = take (length ?body - 8) ?body"
    by (simp only: nb_data_chop [of ?b 8] body lb nb_len_chop)
  have k: "key_of p' = key_of p"
    using mac_compute_keys [OF c] .
  have eq: "verify_message pf b kid c p =
    (if st \<noteq> PSA_SUCCESS then (TRANSFER_COULDNT_COMPUTE_MAC, ?b, c, p')
     else if tag_of (nb_data b) \<noteq> out then (TRANSFER_INVALID_HASH, ?b, c, p')
     else if nb_len ?b < 8 then (TRANSFER_MESSAGE_TO_SHORT, ?b, c, p')
     else if of_le (nb_last ?b 8) < c then (TRANSFER_COUNTER_DIDNT_MATCH, nb_chop ?b 8, c, p')
     else (TRANSFER_NO_ERROR, nb_chop ?b 8, of_le (nb_last ?b 8), p'))"
    using assms len c own lt wf
    by (auto simp: verify_message_def nb_remove_mem nb_init_with_data compute_mac_empty HASH_LEN_def MAC_LEN_def
        Let_def nb_last_def [symmetric] tag [symmetric] body' counter_deserialize_eq simp del: nb_chop_chop)
  show ?thesis
    unfolding eq
    using len lb mo k wf
    by (auto simp: verify_spec_def HASH_LEN_def Let_def body chop8 last8 assms nb_wf_chop lb
        simp del: nb_chop_chop)
qed

subsection \<open>What is accepted\<close>

lemma verify_sound:
  assumes "nb_wf b" and "verify_message pf b kid c p = (TRANSFER_NO_ERROR, b', c', p')"
  shows "\<exists>a k payload. key_of p kid = Some (a, k) \<and> signing_key a \<and>
    nb_data b = payload @ le_bytes 8 c' @ mac k (payload @ le_bytes 8 c') \<and>
    nb_data b' = payload \<and> nb_wf b' \<and> c \<le> c'"
proof -
  let ?m = "nb_data b" and ?body = "body_of (nb_data b)"
  from verify_refines [OF assms(1), of kid c p] assms(2)
  have spec: "verify_spec (mac_of pf kid p) ?m c = (TRANSFER_NO_ERROR, nb_data b', c')" and wf: "nb_wf b'"
    by auto
  from spec have l: "HASH_LEN \<le> length ?m" and mo: "mac_of pf kid p ?body = Some (tag_of ?m)"
    and l8: "8 \<le> length ?body" and c': "c' = of_le (drop (length ?body - 8) ?body)"
    and d: "nb_data b' = take (length ?body - 8) ?body" and le: "c \<le> c'"
    by (auto simp: verify_spec_def Let_def split: if_splits option.splits)
  from mac_of_Some [OF mo] obtain a k where k: "key_of p kid = Some (a, k)" "signing_key a" "tag_of ?m = mac k ?body"
    by blast
  have "length (drop (length ?body - 8) ?body) = 8"
    using l8 by simp
  then have "le_bytes 8 c' = drop (length ?body - 8) ?body"
    using le_bytes_of_le [of "drop (length ?body - 8) ?body", where 'a = 64] c' by simp
  with d have "?body = nb_data b' @ le_bytes 8 c'"
    by simp
  with body_tag [OF l] k le wf show ?thesis
    by (intro exI [of _ a] exI [of _ k] exI [of _ "nb_data b'"]) (simp add: append_assoc [symmetric] del: append_assoc)
qed

text \<open>Verification never lowers the local counter, and leaves it alone when it fails.\<close>

lemma verify_counter:
  assumes "nb_wf b" and "verify_message pf b kid c p = (e, b', c', p')"
  shows "c \<le> c'" and "e \<noteq> TRANSFER_NO_ERROR \<Longrightarrow> c' = c" and "nb_wf b'" and "key_of p' = key_of p"
  using verify_refines [OF assms(1), of kid c p] assms(2)
  by (auto simp: verify_spec_def Let_def split: if_splits option.splits)

end

section \<open>When the calls succeed\<close>

context pawr_reliable
begin

lemma mac_of_key:
  "key_of p kid = Some (a, k) \<Longrightarrow> signing_key a \<Longrightarrow> mac_of pf kid p m = Some (mac k m)"
  by (rule mac_compute_signing [of p kid a k MAC_LEN m]) (auto simp: mac_of_def MAC_LEN_def)

lemma sign_signs:
  assumes "nb_wf b" and "HASH_LEN \<le> nb_tailroom b" and "key_of p kid = Some (a, k)" and "signing_key a"
  shows "\<exists>p'. sign_message pf b kid p = (TRANSFER_NO_ERROR, nb_append b (mac k (nb_data b)), p') \<and>
     key_of p' = key_of p"
  using sign_shape [OF assms(1,2), of kid p] mac_of_key [OF assms(3,4)] by auto

lemma verify_accepts:
  assumes "nb_wf b" and "nb_data b = payload @ le_bytes 8 r @ mac k (payload @ le_bytes 8 r)"
    and "key_of p kid = Some (a, k)" and "signing_key a" and "c \<le> r"
  shows "\<exists>b' p'. verify_message pf b kid c p = (TRANSFER_NO_ERROR, b', r, p') \<and>
    nb_data b' = payload \<and> nb_wf b' \<and> key_of p' = key_of p"
proof -
  let ?body = "payload @ le_bytes 8 r"
  have d: "nb_data b = ?body @ mac k ?body"
    using assms(2) by simp
  have lm: "length (mac k ?body) = HASH_LEN"
    by (simp add: mac_length HASH_LEN_def)
  have "body_of (nb_data b) = ?body" and "tag_of (nb_data b) = mac k ?body" and "HASH_LEN \<le> length (nb_data b)"
    unfolding d using lm by (simp_all only: body_of_append tag_of_append length_append)
  then have "verify_spec (mac_of pf kid p) (nb_data b) c = (TRANSFER_NO_ERROR, payload, r)"
    using assms(5) by (simp add: verify_spec_def mac_of_key [OF assms(3,4)] Let_def not_less wire)
  with verify_refines [OF assms(1), of kid c p] show ?thesis
    by auto
qed

text \<open>A message body that is signed with a key is accepted under the same key, with any counter
  up to the one it carries.\<close>

lemma sign_verify:
  assumes "nb_wf b" and "HASH_LEN \<le> nb_tailroom b" and "nb_data b = payload @ le_bytes 8 r"
    and "key_of p kid = Some (a, k)" and "signing_key a"
    and "key_of q kid' = Some (a', k)" and "signing_key a'" and "c \<le> r"
  shows "\<exists>b' p'. sign_message pf b kid p = (TRANSFER_NO_ERROR, b', p') \<and> nb_wf b' \<and> key_of p' = key_of p \<and>
    nb_data b' = payload @ le_bytes 8 r @ mac k (payload @ le_bytes 8 r) \<and>
    (\<forall>m. nb_wf m \<and> nb_data m = nb_data b' \<longrightarrow>
      (\<exists>m' q'. verify_message pf m kid' c q = (TRANSFER_NO_ERROR, m', r, q') \<and>
        nb_data m' = payload \<and> nb_wf m'))"
proof -
  let ?t = "mac k (nb_data b)"
  obtain p' where s: "sign_message pf b kid p = (TRANSFER_NO_ERROR, nb_append b ?t, p')" "key_of p' = key_of p"
    using sign_signs [OF assms(1,2,4,5)] by blast
  have lt: "length ?t \<le> nb_tailroom b"
    using assms(2) by (simp add: mac_length HASH_LEN_def)
  have d: "nb_data (nb_append b ?t) = payload @ le_bytes 8 r @ mac k (payload @ le_bytes 8 r)"
    using nb_data_append [OF assms(1) lt] assms(3) by simp
  have "\<exists>m' q'. verify_message pf m kid' c q = (TRANSFER_NO_ERROR, m', r, q') \<and> nb_data m' = payload \<and> nb_wf m'"
    if "nb_wf m \<and> nb_data m = nb_data (nb_append b ?t)" for m
    using verify_accepts [of m payload r k q kid' a' c] that d assms(6,7,8) by auto
  with s d nb_wf_append [OF assms(1) lt] show ?thesis
    by blast
qed

end

end
