(* ===== verification/Transfer_Props.thy ===== *)
theory Transfer_Props
  imports Transfer_Auth
begin

text \<open>
  The properties of the crypto and transfer libraries, and their witnesses: the counter over a
  reboot, the refinement of the verifier, what it accepts, the round trips of the three
  messages through signature and verification, and the preconditions of the buffer calls.
\<close>

section \<open>Typed round trips in the locale\<close>

context zephyr_net_buf
begin

lemma subevent_read_back:
  assumes "nb_wf m" and "nb_data m = subevent_wire d"
    and "register_data_count d = length (register_data d)" and "ack_data_count d = length (ack_data d)"
    and "register_data_count res = register_data_count d" and "length (register_data res) = register_data_count d"
    and "ack_data_count res = ack_data_count d" and "length (ack_data res) = ack_data_count d"
  shows "\<exists>m'. subevent_data_with_reg_deserialize pf res m
    = (TRANSFER_NO_ERROR, res\<lparr>register_data := register_data d, ack_data := ack_data d\<rparr>, m')"
proof -
  let ?a = "acks_wire (ack_data d)" and ?r = "regs_wire (register_data d)"
  have d: "nb_data m = ?r @ ?a"
    using assms by (simp add: subevent_wire_def)
  note l = nb_last_suffix [OF assms(1) d, of "2 * ack_data_count d"]
  have la: "2 * ack_data_count d = length ?a" using assms by simp
  note l = l [OF la]
  have d2: "nb_data (nb_chop m (2 * ack_data_count d)) = [] @ ?r" using l by simp
  have lr: "2 * register_data_count d = length ?r" using assms by simp
  note l2 = nb_last_suffix [OF l(3) d2 lr]
  have len: "nb_len m = 2 * register_data_count d + 2 * ack_data_count d"
    using length_nb_data [OF assms(1)] d la lr by simp
  show ?thesis
    using assms l l2 len
    by (simp add: subevent_data_with_reg_deserialize_eq [OF assms(1)] Let_def as_ack_data_wire as_register_data_wire)
qed

end

text \<open>Each message has a sending half (serialise, then sign) and a receiving half (verify, then
  deserialise), joined by the bytes on the air.\<close>

context pawr_reliable
begin

lemma send_body:
  assumes "nb_wf b" and "nb_data b = []" and "length body + HASH_LEN \<le> nb_tailroom b"
    and "key_of p kid = Some (a, k)" and "signing_key a"
  shows "\<exists>b' p'. sign_message pf (nb_append b body) kid p = (TRANSFER_NO_ERROR, b', p') \<and>
    nb_wf b' \<and> nb_data b' = body @ mac k body \<and> key_of p' = key_of p"
proof -
  have room: "length body \<le> nb_tailroom b" using assms(3) by simp
  note ap = nb_wf_append [OF assms(1) room] nb_data_append [OF assms(1) room] nb_tailroom_append [OF assms(1) room]
  have "HASH_LEN \<le> nb_tailroom (nb_append b body)" using ap assms(3) by simp
  moreover have "length (mac k body) \<le> nb_tailroom (nb_append b body)"
    using ap assms(3) by (simp add: mac_length HASH_LEN_def)
  ultimately show ?thesis
    using sign_signs [OF ap(1) _ assms(4,5)] ap assms(2) nb_wf_append [OF ap(1)] nb_data_append [OF ap(1)]
    by (metis append_Nil)
qed

lemma subevent_send:
  assumes "register_data_count d = length (register_data d)" and "ack_data_count d = length (ack_data d)"
    and "length (subevent_wire d) + 8 + HASH_LEN \<le> length (nb_buf b)"
    and "key_of p kid = Some (a, k)" and "signing_key a"
  shows "\<exists>b' p'. sign_message pf (subevent_data_with_reg_serialize pf d (net_buf_simple_reset pf b)) kid p
      = (TRANSFER_NO_ERROR, b', p') \<and> nb_wf b' \<and> key_of p' = key_of p \<and>
    nb_data b' = subevent_wire d @ le_bytes 8 (sub_counter d) @ mac k (subevent_wire d @ le_bytes 8 (sub_counter d))"
  using send_body [of "net_buf_simple_reset pf b" "subevent_wire d @ le_bytes 8 (sub_counter d)" p kid a k] assms
  by (simp add: subevent_data_with_reg_serialize_eq) blast

lemma subevent_receive:
  assumes "nb_wf m"
    and "nb_data m = subevent_wire d @ le_bytes 8 (sub_counter d) @ mac k (subevent_wire d @ le_bytes 8 (sub_counter d))"
    and "register_data_count d = length (register_data d)" and "ack_data_count d = length (ack_data d)"
    and "key_of q kid = Some (a, k)" and "signing_key a" and "c \<le> sub_counter d"
    and "register_data_count res = register_data_count d" and "length (register_data res) = register_data_count d"
    and "ack_data_count res = ack_data_count d" and "length (ack_data res) = ack_data_count d"
  shows "\<exists>m' q' m''. verify_message pf m kid c q = (TRANSFER_NO_ERROR, m', sub_counter d, q') \<and> key_of q' = key_of q \<and>
    subevent_data_with_reg_deserialize pf res m'
      = (TRANSFER_NO_ERROR, res\<lparr>register_data := register_data d, ack_data := ack_data d\<rparr>, m'')"
  using verify_accepts [OF assms(1,2,5,6,7)] subevent_read_back assms(3,4,8-11) by metis

lemma response_send:
  assumes "length (response_wire d) + 8 + HASH_LEN \<le> length (nb_buf b)"
    and "key_of p kid = Some (a, k)" and "signing_key a"
  shows "\<exists>b' p'. sign_message pf (response_data_serialize pf d (net_buf_simple_reset pf b)) kid p
      = (TRANSFER_NO_ERROR, b', p') \<and> nb_wf b' \<and> key_of p' = key_of p \<and>
    nb_data b' = response_wire d @ le_bytes 8 (resp_counter d) @ mac k (response_wire d @ le_bytes 8 (resp_counter d))"
  using send_body [of "net_buf_simple_reset pf b" "response_wire d @ le_bytes 8 (resp_counter d)" p kid a k] assms
  by (simp add: response_data_serialize_eq) blast

lemma advertisement_send:
  assumes "unat (num_reg_slots (selection_info d)) \<le> length (reg_data d)"
    and "length (adv_wire d) + 8 + HASH_LEN \<le> length (nb_buf b)"
    and "key_of p kid = Some (a, k)" and "signing_key a"
  shows "\<exists>b' p'. sign_message pf (advertisement_data_serialize pf d (net_buf_simple_reset pf b)) kid p
      = (TRANSFER_NO_ERROR, b', p') \<and> nb_wf b' \<and> key_of p' = key_of p \<and>
    nb_data b' = adv_wire d @ le_bytes 8 (adv_counter d) @ mac k (adv_wire d @ le_bytes 8 (adv_counter d))"
  using send_body [of "net_buf_simple_reset pf b" "adv_wire d @ le_bytes 8 (adv_counter d)" p kid a k] assms
  by (simp add: advertisement_data_serialize_eq) blast

lemma advertisement_receive:
  assumes "nb_wf m"
    and "nb_data m = adv_wire d @ le_bytes 8 (adv_counter d) @ mac k (adv_wire d @ le_bytes 8 (adv_counter d))"
    and "length (reg_data d) = unat (num_reg_slots (selection_info d))"
    and "key_of q kid = Some (a, k)" and "signing_key a" and "c \<le> adv_counter d"
  shows "\<exists>m' q' m''. verify_message pf m kid c q = (TRANSFER_NO_ERROR, m', adv_counter d, q') \<and> key_of q' = key_of q \<and>
    advertisement_data_deserialize pf res m'
      = (TRANSFER_NO_ERROR, res\<lparr>selection_info := selection_info d, reg_data := reg_data d\<rparr>, m'')"
proof -
  obtain m' q' where v: "verify_message pf m kid c q = (TRANSFER_NO_ERROR, m', adv_counter d, q')"
    "nb_data m' = adv_wire d" "nb_wf m'" "key_of q' = key_of q"
    using verify_accepts [OF assms(1,2,4,5,6)] by blast
  from v(2) have w: "nb_data m' = regs_wire (reg_data d) @ [num_reg_slots (selection_info d)]"
    using assms(3) by (simp add: adv_wire_def)
  have "\<lparr>num_reg_slots = num_reg_slots (selection_info d)\<rparr> = selection_info d"
    by simp
  with v advertisement_data_deserialize_wire [OF v(3) w assms(3), of res] show ?thesis
    by auto
qed

end

section \<open>The stored counter\<close>

text \<open>A counter that was committed and is read after a reboot comes back modulo 2^32: the
  commit stores only the four bytes of \<open>sizeof(ctx->storage_uid)\<close>. Both calls succeed.\<close>

lemma counter_after_reboot:
  assumes "psa_reliable pf key_of mac"
  shows "\<exists>p' p''. crypto_secure_counter_commit pf ctx p = (PSA_SUCCESS, p') \<and>
    crypto_secure_counter_init pf \<lparr>cc_value = 0, storage_uid = storage_uid ctx\<rparr> p' =
      (PSA_SUCCESS, \<lparr>cc_value = take_bit 32 (cc_value ctx), storage_uid = storage_uid ctx\<rparr>, p'')"
  using psa_reliable.commit_succeeds [OF assms] psa_reliable.init_after_commit [OF assms] by blast

lemma counter_after_reboot_example:
  "\<exists>p' p''. crypto_secure_counter_commit demo \<lparr>cc_value = 77, storage_uid = 5\<rparr> demo_keys = (PSA_SUCCESS, p') \<and>
    crypto_secure_counter_init demo \<lparr>cc_value = 0, storage_uid = 5\<rparr> p' =
      (PSA_SUCCESS, \<lparr>cc_value = take_bit 32 77, storage_uid = 5\<rparr>, p'')"
  using counter_after_reboot [OF demo_psa_reliable, of "\<lparr>cc_value = 77, storage_uid = 5\<rparr>" demo_keys] by simp

text \<open>C15: the loss is real: from 2^32 on, the counter a device reads after a reboot is smaller
  than the one it committed, so it would accept messages it has already seen; below 2^32 the
  counter survives.\<close>

theorem counter_lost_above_32_bits:
  assumes "psa_reliable pf key_of mac"
    and "crypto_secure_counter_commit pf ctx p = (PSA_SUCCESS, p')"
    and "crypto_secure_counter_init pf \<lparr>cc_value = 0, storage_uid = storage_uid ctx\<rparr> p' = (st, ctx', p'')"
  shows "(cc_value ctx' = cc_value ctx \<longleftrightarrow> cc_value ctx < 2 ^ 32) \<and> cc_value ctx' \<le> cc_value ctx"
proof -
  have v: "cc_value ctx' = take_bit 32 (cc_value ctx)"
    using psa_reliable.init_after_commit [OF assms(1,2)] assms(3) by auto
  have m: "unat (take_bit 32 w) = unat w mod 2 ^ 32" for w :: u64
    by (simp only: unsigned_take_bit_eq take_bit_eq_mod [of 32 "unat w"])
  have lt: "w < 2 ^ 32 \<longleftrightarrow> unat w < 2 ^ 32" for w :: u64
    by (simp add: word_less_nat_alt)
  have "cc_value ctx' = cc_value ctx \<longleftrightarrow> unat (cc_value ctx) mod 2 ^ 32 = unat (cc_value ctx)"
    unfolding v by (simp only: word_unat_eq_iff m)
  moreover have "unat (cc_value ctx') \<le> unat (cc_value ctx)"
    unfolding v m by simp
  ultimately show ?thesis
    unfolding lt word_le_nat_alt by (metis mod_less mod_less_divisor zero_less_numeral zero_less_power)
qed

theorem counter_lost_above_32_bits_witness:
  "\<exists>p' ctx' p''.
    crypto_secure_counter_init demo \<lparr>cc_value = 0, storage_uid = 5\<rparr> p' = (PSA_SUCCESS, ctx', p'') \<and>
    (cc_value ctx' = 2 ^ 32 + 3 \<longleftrightarrow> (2 ^ 32 + 3 :: u64) < 2 ^ 32) \<and> cc_value ctx' \<le> 2 ^ 32 + 3"
proof -
  let ?ctx = "\<lparr>cc_value = 2 ^ 32 + 3, storage_uid = 5\<rparr>"
  obtain p' where c: "crypto_secure_counter_commit demo ?ctx demo_keys = (PSA_SUCCESS, p')"
    using psa_reliable.commit_succeeds [OF demo_psa_reliable] by blast
  obtain ctx' p'' where i: "crypto_secure_counter_init demo \<lparr>cc_value = 0, storage_uid = storage_uid ?ctx\<rparr> p'
      = (PSA_SUCCESS, ctx', p'')"
    using psa_reliable.init_after_commit [OF demo_psa_reliable c] by blast
  from counter_lost_above_32_bits [OF demo_psa_reliable c i] i show ?thesis
    by auto
qed

text \<open>On a device with no stored counter the initial value is filled from eight random bytes
  with \<open>tmp[i] << i * 8\<close> on an \<open>int\<close>: for the upper four bytes no shift is defined in C,
  whatever was drawn, so the upper half of the random counter is undefined.\<close>

lemma random_counter_shift_undefined:
  assumes "4 \<le> i"
  shows "\<not> shl_defined x (i * 8) \<and> int_shl pf x (i * 8) = stray_shl pf x (i * 8)"
  using assms by (simp add: shl_defined_def int_shl_def)

lemma random_counter_shift_undefined_witness:
  "\<not> shl_defined 1 (4 * 8) \<and> int_shl demo 1 (4 * 8) = stray_shl demo 1 (4 * 8)"
  using random_counter_shift_undefined [of 4 1 demo] by simp

section \<open>Verification\<close>

text \<open>C10: \<open>verify_message\<close> on a buffer refines the abstract verifier on its bytes: the same
  error, the same remaining bytes, the same counter, for every message, key and PSA answer.\<close>

theorem verify_message_refines:
  assumes "pawr_platform pf key_of mac" and "nb_wf b"
    and "verify_message pf b kid c p = (e, b', c', p')"
  shows "verify_spec (mac_of pf kid p) (nb_data b) c = (e, nb_data b', c') \<and> nb_wf b'"
  using pawr_platform.verify_refines [OF assms(1,2), of kid c p] assms(3) by auto

definition demo_body :: "byte list" where
  "demo_body = [10, 20, 30] @ le_bytes 8 (5 :: u64)"

definition demo_message :: "byte list" where
  "demo_message = demo_body @ mac32 demo_hash (demo_key 7) demo_body"

lemma demo_accepts:
  "c \<le> 5 \<Longrightarrow> \<exists>b' p'. verify_message demo (buf_of demo_message) 1 c demo_keys = (TRANSFER_NO_ERROR, b', 5, p') \<and>
     nb_data b' = [10, 20, 30]"
  using pawr_reliable.verify_accepts [OF demo_reliable, of "buf_of demo_message" "[10, 20, 30]" 5 "demo_key 7"
      demo_keys 1 "sign_attributes 1" c]
  by (auto simp: demo_message_def demo_body_def)

theorem verify_message_refines_witness:
  "\<exists>b'. verify_spec (mac_of demo 1 demo_keys) demo_message 2 = (TRANSFER_NO_ERROR, nb_data b', 5) \<and> nb_wf b'"
proof -
  obtain b' p' where v: "verify_message demo (buf_of demo_message) 1 2 demo_keys = (TRANSFER_NO_ERROR, b', 5, p')"
    using demo_accepts [of 2] by auto
  from verify_message_refines [OF demo_platform _ v] show ?thesis by auto
qed

text \<open>C9: a message is accepted only if it is authentic and fresh: its bytes are a payload, a
  counter that is not below the local one, and the MAC of both under a signing key stored at
  the key id; the local counter becomes that counter and the payload is what is left to parse.\<close>

theorem accepted_is_authentic_and_fresh:
  assumes "pawr_platform pf key_of mac" and "nb_wf b"
    and "verify_message pf b kid c p = (TRANSFER_NO_ERROR, b', c', p')"
  shows "\<exists>a k payload. key_of p kid = Some (a, k) \<and> signing_key a \<and>
    nb_data b = payload @ le_bytes 8 c' @ mac k (payload @ le_bytes 8 c') \<and>
    nb_data b' = payload \<and> c \<le> c'"
  using pawr_platform.verify_sound [OF assms] by blast

theorem accepted_is_authentic_and_fresh_witness:
  "\<exists>b' a k payload. demo_keys 1 = Some (a, k) \<and> signing_key a \<and>
    demo_message = payload @ le_bytes 8 (5 :: u64) @ mac32 demo_hash k (payload @ le_bytes 8 (5 :: u64)) \<and>
    nb_data b' = payload \<and> (3 :: u64) \<le> 5"
proof -
  obtain b' p' where v: "verify_message demo (buf_of demo_message) 1 3 demo_keys = (TRANSFER_NO_ERROR, b', 5, p')"
    using demo_accepts [of 3] by auto
  from accepted_is_authentic_and_fresh [OF demo_platform _ v] show ?thesis by auto
qed

text \<open>Verification never lowers the local counter, whatever arrives and whatever PSA
  answers, and leaves it unchanged when it rejects the message; the keys stay.\<close>

lemma verify_keeps_counter_monotone:
  assumes "pawr_platform pf key_of mac" and "nb_wf b"
    and "verify_message pf b kid c p = (e, b', c', p')"
  shows "c \<le> c' \<and> (e = TRANSFER_NO_ERROR \<or> c' = c) \<and> key_of p' = key_of p"
  using pawr_platform.verify_counter [OF assms] by blast

lemma verify_keeps_counter_monotone_example:
  "\<exists>e b' c' p'. verify_message demo (buf_of [1, 2, 3]) 1 9 demo_keys = (e, b', c', p') \<and>
     9 \<le> c' \<and> (e = TRANSFER_NO_ERROR \<or> c' = 9) \<and> p' = demo_keys"
proof -
  obtain e b' c' p' where v: "verify_message demo (buf_of [1, 2, 3]) 1 9 demo_keys = (e, b', c', p')"
    by (metis prod.exhaust)
  from verify_keeps_counter_monotone [OF demo_platform _ v] v show ?thesis by auto
qed

section \<open>Round trips\<close>

text \<open>C11: a subevent message (register slots, acks, counter) that is serialised into a buffer
  with room for it, signed, carried over unchanged, verified under the same key with a local
  counter that is not ahead, and deserialised with the same counts, arrives as it was sent.\<close>

theorem subevent_message_roundtrip:
  assumes "pawr_reliable pf key_of mac"
    and "register_data_count d = length (register_data d)" and "ack_data_count d = length (ack_data d)"
    and "length (subevent_wire d) + 8 + HASH_LEN \<le> length (nb_buf b)"
    and "key_of p kid = Some (a, k)" and "signing_key a" and "key_of q kid' = Some (a', k)" and "signing_key a'"
    and "c \<le> sub_counter d"
    and "register_data_count res = register_data_count d" and "length (register_data res) = register_data_count d"
    and "ack_data_count res = ack_data_count d" and "length (ack_data res) = ack_data_count d"
    and "sign_message pf (subevent_data_with_reg_serialize pf d (net_buf_simple_reset pf b)) kid p = (e1, b', p')"
    and "nb_wf m" and "nb_data m = nb_data b'"
    and "verify_message pf m kid' c q = (e2, m', c', q')"
    and "subevent_data_with_reg_deserialize pf res m' = (e3, res', m'')"
  shows "e1 = TRANSFER_NO_ERROR \<and> e2 = TRANSFER_NO_ERROR \<and> e3 = TRANSFER_NO_ERROR \<and> c' = sub_counter d \<and>
    register_data res' = register_data d \<and> ack_data res' = ack_data d"
proof -
  note s = pawr_reliable.subevent_send [OF assms(1-6)]
  from s assms(14,16) have e1: "e1 = TRANSFER_NO_ERROR" and d: "nb_data m =
      subevent_wire d @ le_bytes 8 (sub_counter d) @ mac k (subevent_wire d @ le_bytes 8 (sub_counter d))"
    by auto
  from pawr_reliable.subevent_receive [OF assms(1,15) d assms(2,3,7-13)] e1 assms(17,18) show ?thesis
    by auto
qed

definition demo_subevent :: subevent_data_t where
  "demo_subevent = \<lparr>register_data = [\<lparr>subevent = 1, rsp_slot = 2\<rparr>], ack_data = [\<lparr>ack_id = 300\<rparr>, \<lparr>ack_id = 0\<rparr>],
     sub_counter = 40, register_data_count = 1, ack_data_count = 2\<rparr>"

definition demo_subevent_result :: subevent_data_t where
  "demo_subevent_result = \<lparr>register_data = [\<lparr>subevent = 0, rsp_slot = 0\<rparr>], ack_data = replicate 2 \<lparr>ack_id = 0\<rparr>,
     sub_counter = 0, register_data_count = 1, ack_data_count = 2\<rparr>"

theorem subevent_message_roundtrip_witness:
  "\<exists>b' p' m' q' res' m''.
    sign_message demo (subevent_data_with_reg_serialize demo demo_subevent (net_buf_simple_reset demo (buf_of (replicate 251 0))))
      1 demo_keys = (TRANSFER_NO_ERROR, b', p') \<and>
    verify_message demo (buf_of (nb_data b')) 1 7 demo_keys = (TRANSFER_NO_ERROR, m', 40, q') \<and>
    subevent_data_with_reg_deserialize demo demo_subevent_result m' = (TRANSFER_NO_ERROR, res', m'') \<and>
    ack_data res' = [\<lparr>ack_id = 300\<rparr>, \<lparr>ack_id = 0\<rparr>]"
proof -
  obtain e1 b' p' where s: "sign_message demo (subevent_data_with_reg_serialize demo demo_subevent
      (net_buf_simple_reset demo (buf_of (replicate 251 0)))) 1 demo_keys = (e1, b', p')"
    by (metis prod.exhaust)
  obtain e2 m' c' q' where v: "verify_message demo (buf_of (nb_data b')) 1 7 demo_keys = (e2, m', c', q')"
    by (metis prod.exhaust)
  obtain e3 res' m'' where d: "subevent_data_with_reg_deserialize demo demo_subevent_result m' = (e3, res', m'')"
    by (metis prod.exhaust)
  have "e1 = TRANSFER_NO_ERROR \<and> e2 = TRANSFER_NO_ERROR \<and> e3 = TRANSFER_NO_ERROR \<and> c' = sub_counter demo_subevent \<and>
    register_data res' = register_data demo_subevent \<and> ack_data res' = ack_data demo_subevent"
    by (rule subevent_message_roundtrip [OF demo_reliable _ _ _ _ _ _ _ _ _ _ _ _ s _ _ v d,
          where a = "sign_attributes 1" and a' = "sign_attributes 1" and k = "demo_key 7"])
       (simp_all add: demo_subevent_def demo_subevent_result_def subevent_wire_def HASH_LEN_def)
  with s v d show ?thesis
    by (auto simp: demo_subevent_def)
qed

text \<open>C12: a response (sender, data counter, data, message counter) that is serialised, signed and
  carried over unchanged is read back whole by the advertiser's two passes: the parse of the
  message without its last 40 bytes gives the response, and the verification of the whole
  message accepts it and yields its counter.\<close>

theorem response_message_roundtrip:
  assumes "pawr_reliable pf key_of mac"
    and "unat (data_len d) = length (rsp_data d)"
    and "length (response_wire d) + 8 + HASH_LEN \<le> length (nb_buf b)"
    and "key_of p kid = Some (a, k)" and "signing_key a" and "key_of q kid' = Some (a', k)" and "signing_key a'"
    and "c \<le> resp_counter d"
    and "sign_message pf (response_data_serialize pf d (net_buf_simple_reset pf b)) kid p = (e1, b', p')"
    and "nb_wf m" and "nb_data m = nb_data b'"
    and "response_data_deserialize pf res (nb_chop m (HASH_LEN + SIZEOF_U64)) = (e2, res', m1)"
    and "verify_message pf m kid' c q = (e3, m2, c', q')"
  shows "e1 = TRANSFER_NO_ERROR \<and> e2 = TRANSFER_NO_ERROR \<and> e3 = TRANSFER_NO_ERROR \<and> c' = resp_counter d \<and>
    rsp_metadata res' = rsp_metadata d \<and> rsp_data res' = rsp_data d \<and> data_len res' = data_len d"
proof -
  let ?body = "response_wire d @ le_bytes 8 (resp_counter d)"
  from pawr_reliable.response_send [OF assms(1,3-5)] assms(9,11)
  have e1: "e1 = TRANSFER_NO_ERROR" and w: "nb_data m = response_wire d @ le_bytes 8 (resp_counter d) @ mac k ?body"
    by auto
  have pl: "pawr_platform pf key_of mac" using assms(1) by (rule pawr_reliable.axioms)
  have ml: "length (mac k ?body) = 32"
    using pl by (auto simp: pawr_platform_def intro: psa_key_store.mac_length)
  have nbp: "zephyr_net_buf pf" using pl by (simp add: pawr_platform_def)
  have "HASH_LEN + SIZEOF_U64 = length (le_bytes 8 (resp_counter d) @ mac k ?body)"
    using ml by (simp add: HASH_LEN_def SIZEOF_U64_def)
  note ch = nb_last_suffix [OF assms(10) w this]
  have "\<exists>m1. response_data_deserialize pf res (nb_chop m (HASH_LEN + SIZEOF_U64)) =
    (TRANSFER_NO_ERROR, res\<lparr>rsp_metadata := rsp_metadata d, rsp_data := take (unat (data_len d)) (rsp_data d),
         data_len := data_len d\<rparr>, m1)"
    by (rule zephyr_net_buf.response_data_deserialize_wire [OF nbp ch(3,2)]) (simp add: assms(2))
  moreover have "\<exists>m2 q'. verify_message pf m kid' c q = (TRANSFER_NO_ERROR, m2, resp_counter d, q')"
    using pawr_reliable.verify_accepts [OF assms(1,10) w assms(6,7,8)] by blast
  ultimately show ?thesis
    using e1 assms(2,12,13) by auto
qed

definition demo_response :: response_data_t where
  "demo_response = \<lparr>rsp_metadata = \<lparr>sender_id = 1, rsp_counter = 12\<rparr>, rsp_data = [4, 5, 6], data_len = 3, resp_counter = 40\<rparr>"

definition no_response :: response_data_t where
  "no_response = \<lparr>rsp_metadata = \<lparr>sender_id = 0, rsp_counter = 0\<rparr>, rsp_data = [], data_len = 0, resp_counter = 0\<rparr>"

theorem response_message_roundtrip_witness:
  "\<exists>b' p' m1 res' m2 q'.
    sign_message demo (response_data_serialize demo demo_response (net_buf_simple_reset demo (buf_of (replicate 251 0))))
      3 demo_keys = (TRANSFER_NO_ERROR, b', p') \<and>
    response_data_deserialize demo no_response (nb_chop (buf_of (nb_data b')) (HASH_LEN + SIZEOF_U64))
      = (TRANSFER_NO_ERROR, res', m1) \<and>
    verify_message demo (buf_of (nb_data b')) 3 40 demo_keys = (TRANSFER_NO_ERROR, m2, 40, q') \<and>
    sender_id (rsp_metadata res') = 1 \<and> rsp_data res' = [4, 5, 6]"
proof -
  obtain e1 b' p' where s: "sign_message demo (response_data_serialize demo demo_response
      (net_buf_simple_reset demo (buf_of (replicate 251 0)))) 3 demo_keys = (e1, b', p')"
    by (metis prod.exhaust)
  obtain e2 res' m1 where d: "response_data_deserialize demo no_response
      (nb_chop (buf_of (nb_data b')) (HASH_LEN + SIZEOF_U64)) = (e2, res', m1)"
    by (metis prod.exhaust)
  obtain e3 m2 c' q' where v: "verify_message demo (buf_of (nb_data b')) 3 40 demo_keys = (e3, m2, c', q')"
    by (metis prod.exhaust)
  have "e1 = TRANSFER_NO_ERROR \<and> e2 = TRANSFER_NO_ERROR \<and> e3 = TRANSFER_NO_ERROR \<and> c' = resp_counter demo_response \<and>
    rsp_metadata res' = rsp_metadata demo_response \<and> rsp_data res' = rsp_data demo_response \<and>
    data_len res' = data_len demo_response"
    by (rule response_message_roundtrip [OF demo_reliable _ _ _ _ _ _ _ s _ _ d v,
          where a = "sign_attributes 3" and a' = "sign_attributes 3" and k = "demo_key 9"])
       (simp_all add: demo_response_def response_wire_def HASH_LEN_def)
  with s d v show ?thesis
    by (auto simp: demo_response_def)
qed

text \<open>C13: an advertisement (register slots and counter) that is serialised, signed, carried over
  unchanged and verified with a local counter that is not ahead arrives as it was sent.\<close>

theorem advertisement_message_roundtrip:
  assumes "pawr_reliable pf key_of mac"
    and "length (reg_data d) = unat (num_reg_slots (selection_info d))"
    and "length (adv_wire d) + 8 + HASH_LEN \<le> length (nb_buf b)"
    and "key_of p kid = Some (a, k)" and "signing_key a" and "key_of q kid' = Some (a', k)" and "signing_key a'"
    and "c \<le> adv_counter d"
    and "sign_message pf (advertisement_data_serialize pf d (net_buf_simple_reset pf b)) kid p = (e1, b', p')"
    and "nb_wf m" and "nb_data m = nb_data b'"
    and "verify_message pf m kid' c q = (e2, m', c', q')"
    and "advertisement_data_deserialize pf res m' = (e3, res', m'')"
  shows "e1 = TRANSFER_NO_ERROR \<and> e2 = TRANSFER_NO_ERROR \<and> e3 = TRANSFER_NO_ERROR \<and> c' = adv_counter d \<and>
    selection_info res' = selection_info d \<and> reg_data res' = reg_data d"
proof -
  have "unat (num_reg_slots (selection_info d)) \<le> length (reg_data d)" using assms(2) by simp
  note s = pawr_reliable.advertisement_send [OF assms(1) this assms(3-5)]
  from s assms(9,11) have e1: "e1 = TRANSFER_NO_ERROR" and d: "nb_data m =
      adv_wire d @ le_bytes 8 (adv_counter d) @ mac k (adv_wire d @ le_bytes 8 (adv_counter d))"
    by auto
  from pawr_reliable.advertisement_receive [OF assms(1,10) d assms(2,6-8), of res] e1 assms(12,13) show ?thesis
    by auto
qed

definition demo_adv :: advertisement_data_t where
  "demo_adv = \<lparr>reg_data = [\<lparr>subevent = 0, rsp_slot = 5\<rparr>, \<lparr>subevent = 0, rsp_slot = 6\<rparr>],
     selection_info = \<lparr>num_reg_slots = 2\<rparr>, adv_counter = 40\<rparr>"

definition no_adv :: advertisement_data_t where
  "no_adv = \<lparr>reg_data = [], selection_info = \<lparr>num_reg_slots = 0\<rparr>, adv_counter = 0\<rparr>"

theorem advertisement_message_roundtrip_witness:
  "\<exists>b' p' m' q' res' m''.
    sign_message demo (advertisement_data_serialize demo demo_adv (net_buf_simple_reset demo (buf_of (replicate 251 0))))
      1 demo_keys = (TRANSFER_NO_ERROR, b', p') \<and>
    verify_message demo (buf_of (nb_data b')) 1 7 demo_keys = (TRANSFER_NO_ERROR, m', 40, q') \<and>
    advertisement_data_deserialize demo no_adv m' = (TRANSFER_NO_ERROR, res', m'') \<and>
    reg_data res' = reg_data demo_adv"
proof -
  obtain e1 b' p' where s: "sign_message demo (advertisement_data_serialize demo demo_adv
      (net_buf_simple_reset demo (buf_of (replicate 251 0)))) 1 demo_keys = (e1, b', p')"
    by (metis prod.exhaust)
  obtain e2 m' c' q' where v: "verify_message demo (buf_of (nb_data b')) 1 7 demo_keys = (e2, m', c', q')"
    by (metis prod.exhaust)
  obtain e3 res' m'' where d: "advertisement_data_deserialize demo no_adv m' = (e3, res', m'')"
    by (metis prod.exhaust)
  have "e1 = TRANSFER_NO_ERROR \<and> e2 = TRANSFER_NO_ERROR \<and> e3 = TRANSFER_NO_ERROR \<and> c' = adv_counter demo_adv \<and>
    selection_info res' = selection_info demo_adv \<and> reg_data res' = reg_data demo_adv"
    by (rule advertisement_message_roundtrip [OF demo_reliable _ _ _ _ _ _ _ s _ _ v d,
          where a = "sign_attributes 1" and a' = "sign_attributes 1" and k = "demo_key 7"])
       (simp_all add: demo_adv_def adv_wire_def HASH_LEN_def)
  with s v d show ?thesis
    by (auto simp: demo_adv_def)
qed

section \<open>Preconditions of the buffer calls\<close>

text \<open>The laws of the network buffers fix a call only inside its documented precondition. So if
  two platforms that both keep the laws give the same result on every buffer, the code makes no
  call outside it: no byte is taken that is not there.\<close>

lemma ack_round_platforms:
  "zephyr_net_buf pf \<Longrightarrow> zephyr_net_buf pf' \<Longrightarrow> nb_wf b \<Longrightarrow> 2 \<le> nb_len b \<Longrightarrow>
   ack_round pf i (res, b) = ack_round pf' i (res, b)"
  by (simp add: ack_round_def zephyr_net_buf.nb_remove_le16)

lemma ack_loop_platforms:
  assumes "zephyr_net_buf pf" and "zephyr_net_buf pf'"
  shows "nb_wf b \<Longrightarrow> 2 * n \<le> nb_len b \<Longrightarrow>
    for_down n (ack_round pf) (res, b) = for_down n (ack_round pf') (res, b)"
proof (induction n arbitrary: res b)
  case 0
  then show ?case by simp
next
  case (Suc n)
  have "ack_round pf (Suc n) (res, b) = ack_round pf' (Suc n) (res, b)"
    using ack_round_platforms [OF assms] Suc.prems by simp
  moreover have "ack_round pf' (Suc n) (res, b)
      = (res\<lparr>ack_data := (ack_data res)[n := \<lparr>ack_id = of_le (nb_last b 2)\<rparr>]\<rparr>, nb_chop b 2)"
    using assms(2) Suc.prems by (simp add: ack_round_def zephyr_net_buf.nb_remove_le16)
  ultimately show ?case
    using Suc.IH [of "nb_chop b 2"] Suc.prems by (simp add: nb_wf_chop)
qed

text \<open>C14: the deserialisers of the three messages and the verification read a message of any
  length and content, however short or malformed, inside the preconditions of every buffer call.\<close>

theorem parsing_stays_in_bounds:
  assumes "zephyr_net_buf pf" and "zephyr_net_buf pf'" and "nb_wf b"
  shows "response_data_deserialize pf rr b = response_data_deserialize pf' rr b \<and>
    advertisement_data_deserialize pf ra b = advertisement_data_deserialize pf' ra b \<and>
    subevent_data_deserialize pf rs b = subevent_data_deserialize pf' rs b \<and>
    counter_deserialize pf v b = counter_deserialize pf' v b"
proof -
  have "response_data_deserialize pf rr b = response_data_deserialize pf' rr b"
    using assms by (simp add: response_data_deserialize_def zephyr_net_buf.nb_remove_u8
      zephyr_net_buf.nb_remove_mem zephyr_net_buf.nb_remove_le16 zephyr_net_buf.nb_remove_le32 nb_wf_chop Let_def)
  moreover have "advertisement_data_deserialize pf ra b = advertisement_data_deserialize pf' ra b"
    using assms by (simp add: advertisement_data_deserialize_def zephyr_net_buf.nb_remove_u8
      zephyr_net_buf.nb_pull_mem nb_wf_chop Let_def)
  moreover have "subevent_data_deserialize pf rs b = subevent_data_deserialize pf' rs b"
    using ack_loop_platforms [OF assms(1,2,3)] by (simp add: subevent_data_deserialize_def)
  moreover have "counter_deserialize pf v b = counter_deserialize pf' v b"
    using assms by (simp add: counter_deserialize_def zephyr_net_buf.nb_remove_le64)
  ultimately show ?thesis by blast
qed

theorem parsing_stays_in_bounds_witness:
  "response_data_deserialize demo no_response (buf_of [1, 2]) =
     response_data_deserialize (store_platform (\<lambda>k m. []) (\<lambda>l c. 1) (\<lambda>l. 0) (\<lambda>m. [])) no_response (buf_of [1, 2])"
  using parsing_stays_in_bounds [OF demo_net_buf ref_net_buf.zephyr_net_buf_axioms, of "buf_of [1, 2]" no_response]
  by auto

text \<open>A response is rejected as too short exactly when its length says so: no length byte, or
  fewer bytes before it than the data it announces plus the six bytes of metadata.\<close>

lemma response_too_short_iff:
  assumes "zephyr_net_buf pf" and "nb_wf b"
  shows "fst (response_data_deserialize pf res b) = (if nb_len b = 0 \<or> nb_len b < unat (last (nb_data b)) + 7
     then TRANSFER_MESSAGE_TO_SHORT else TRANSFER_NO_ERROR)"
proof (cases "nb_len b = 0")
  case True
  then show ?thesis by (simp add: response_data_deserialize_def)
next
  case False
  have "length (nb_data b) = nb_len b" using assms(2) by simp
  with False have "nb_data b = butlast (nb_data b) @ [last (nb_data b)]"
    by (intro append_butlast_last_id [symmetric]) auto
  note l = nb_last_suffix [OF assms(2) this, of 1]
  have "net_buf_simple_remove_u8 pf b = (last (nb_data b), nb_chop b 1)"
    using zephyr_net_buf.nb_remove_u8 [OF assms] False l by simp
  with False show ?thesis
    by (auto simp: response_data_deserialize_def Let_def split: prod.splits)
qed

lemma response_too_short_iff_example:
  "fst (response_data_deserialize demo no_response (buf_of [9, 9, 9, 5])) = TRANSFER_MESSAGE_TO_SHORT"
  using response_too_short_iff [OF demo_net_buf, of "buf_of [9, 9, 9, 5]" no_response] by simp

end
