(* ===== verification/Common.thy ===== *)
theory Common
  imports Transfer_Auth
begin

text \<open>
  What the programs share beside the libraries: the key ids of \<open>include/app/lib/common.h\<close>
  with the Kconfig values they are built from, and the board helpers of
  \<open>lib/interactive/interactive.c\<close>.
\<close>

section \<open>Key ids\<close>

definition CONFIG_ADVERTISER_KEY_ID_OFFSET :: psa_key_id_t where "CONFIG_ADVERTISER_KEY_ID_OFFSET = 0"
definition CONFIG_SCANNER_MIN_KEY_ID :: psa_key_id_t where "CONFIG_SCANNER_MIN_KEY_ID = 2"
definition CONFIG_BLOCK_TIME :: int where "CONFIG_BLOCK_TIME = 10"

definition STORAGE_MASK :: psa_key_id_t where "STORAGE_MASK = 0xff0000"

definition ADVERTISER_KEY_ID :: "'p platform \<Rightarrow> psa_key_id_t" where
  "ADVERTISER_KEY_ID pf = psa_key_id_user_min pf + CONFIG_ADVERTISER_KEY_ID_OFFSET"

definition MIN_SCANNER_KEY_ID :: "'p platform \<Rightarrow> psa_key_id_t" where
  "MIN_SCANNER_KEY_ID pf = ADVERTISER_KEY_ID pf + CONFIG_SCANNER_MIN_KEY_ID"

definition COUNTER_ID :: "'p platform \<Rightarrow> psa_key_id_t" where
  "COUNTER_ID pf = or (psa_key_id_user_min pf) STORAGE_MASK"

text \<open>The key under which the advertiser looks for a scanner:
  \<open>MIN_SCANNER_KEY_ID + sender_id - 1\<close>.\<close>

definition scanner_key_id :: "'p platform \<Rightarrow> u16 \<Rightarrow> psa_key_id_t" where
  "scanner_key_id pf i = MIN_SCANNER_KEY_ID pf + ucast i - 1"

lemmas key_ids = ADVERTISER_KEY_ID_def MIN_SCANNER_KEY_ID_def COUNTER_ID_def scanner_key_id_def
  CONFIG_ADVERTISER_KEY_ID_OFFSET_def CONFIG_SCANNER_MIN_KEY_ID_def STORAGE_MASK_def

lemma unat_scanner_key_id:
  assumes "psa_key_id_user_min pf = 1"
  shows "unat (scanner_key_id pf i) = unat i + 2"
proof -
  have i: "unat i < 65536" by (rule unat_u16)
  have u: "unat (ucast i :: u32) = unat i"
    using i by (simp add: unsigned_ucast_eq take_bit_nat_eq_self)
  have "scanner_key_id pf i = ucast i + 2"
    using assms by (simp add: key_ids)
  then show ?thesis
    using i by (simp add: unat_word_ariths u)
qed

section \<open>Board helpers\<close>

text \<open>The pin numbers stand for the device tree nodes \<open>led1\<close>, \<open>led2\<close> and
  \<open>sw0\<close>.\<close>

definition led1 :: nat where "led1 = 1"
definition led2 :: nat where "led2 = 2"
definition sw0 :: nat where "sw0 = 10"

definition init_led :: "'p platform \<Rightarrow> nat \<Rightarrow> ('p, 'x) device_scheme \<Rightarrow> int \<times> ('p, 'x) device_scheme" where
  "init_led pf led d =
     (let (ready, d) = zephyr_call pf (Gpio_is_ready led) d
      in if ready = 0 then (- 1, d)
         else zephyr_call pf (Gpio_pin_configure led GPIO_OUTPUT_ACTIVE) d)"

text \<open>\<open>init_button\<close> has no \<open>return\<close> on its last path: the result is \<open>None\<close> there,
  a value the caller must not use.\<close>

definition init_button :: "'p platform \<Rightarrow> ('p, 'x) device_scheme \<Rightarrow> int option \<times> ('p, 'x) device_scheme" where
  "init_button pf d =
     (let (ready, d) = zephyr_call pf (Gpio_is_ready sw0) d
      in if ready = 0 then (Some (- 1), d)
         else
           let (ret, d) = zephyr_call pf (Gpio_pin_configure sw0 GPIO_INPUT) d
           in if ret \<noteq> 0 then (Some (- 1), d)
              else
                let (ret, d) = zephyr_call pf (Gpio_pin_interrupt_configure sw0 GPIO_INT_EDGE_TO_ACTIVE) d
                in if ret \<noteq> 0 then (Some (- 1), d)
                   else (None, zephyr_do (Gpio_add_callback sw0) d))"

text \<open>The helpers only make calls: no other part of a device changes.\<close>

lemma zephyr_call_frame [frame]:
  "zephyr_call pf c d = (r, d') \<Longrightarrow> psa_store d' = psa_store d \<and> device.more d' = device.more d"
  by (auto simp: zephyr_call_def)

lemma init_led_frame [frame]:
  "init_led pf led d = (r, d') \<Longrightarrow> psa_store d' = psa_store d \<and> device.more d' = device.more d"
  by (auto simp: init_led_def zephyr_call_def Let_def split: if_splits)

lemma init_button_frame [frame]:
  "init_button pf d = (r, d') \<Longrightarrow> psa_store d' = psa_store d \<and> device.more d' = device.more d"
  by (auto simp: init_button_def zephyr_call_def zephyr_do_def Let_def split: if_splits)

lemma init_led_log: "\<exists>l. snd (init_led pf led d) = d\<lparr>zlog := l\<rparr>"
  by (auto simp: init_led_def zephyr_call_def Let_def)

lemma init_button_log: "\<exists>l. snd (init_button pf d) = d\<lparr>zlog := l\<rparr>"
  by (auto simp: init_button_def zephyr_call_def zephyr_do_def Let_def)

end
