(* ===== verification/Free_List.thy ===== *)
theory Free_List
  imports Common
begin

text \<open>
  The advertiser's list of free response slots (\<open>advertiser/src/free_list.c\<close>): an array of
  \<open>CONFIG_MAX_FREE_SLOTS\<close> entries and a size. Each function holds the mutex throughout, so it
  is one step. The interface its callers rely on is the locale \<open>slot_stack\<close>: a bounded stack.
\<close>

section \<open>The code\<close>

definition CONFIG_MAX_FREE_SLOTS :: nat where "CONFIG_MAX_FREE_SLOTS = 20"

record free_list_t =
  fl_data :: "register_data_t list"
  fl_size :: u8

definition free_list_init :: free_list_t where
  "free_list_init = \<lparr>fl_data = replicate CONFIG_MAX_FREE_SLOTS \<lparr>subevent = 0, rsp_slot = 0\<rparr>, fl_size = 0\<rparr>"

definition free_list_append :: "register_data_t \<Rightarrow> free_list_t \<Rightarrow> int \<times> free_list_t" where
  "free_list_append d fl =
     (if unat (fl_size fl) = CONFIG_MAX_FREE_SLOTS then (- 1, fl)
      else (0, fl\<lparr>fl_data := (fl_data fl)[unat (fl_size fl) := d], fl_size := fl_size fl + 1\<rparr>))"

definition free_list_pop :: "register_data_t \<Rightarrow> free_list_t \<Rightarrow> int \<times> register_data_t \<times> free_list_t" where
  "free_list_pop ret_val fl =
     (if fl_size fl = 0 then (- 1, ret_val, fl)
      else let fl = fl\<lparr>fl_size := fl_size fl - 1\<rparr>
           in (0, fl_data fl ! unat (fl_size fl), fl))"

section \<open>The interface\<close>

locale slot_stack =
  fixes invar :: "'l \<Rightarrow> bool"
    and slots :: "'l \<Rightarrow> register_data_t list"
    and cap :: nat
    and append :: "register_data_t \<Rightarrow> 'l \<Rightarrow> int \<times> 'l"
    and pop :: "register_data_t \<Rightarrow> 'l \<Rightarrow> int \<times> register_data_t \<times> 'l"
  assumes append_ok: "invar l \<Longrightarrow> length (slots l) < cap \<Longrightarrow> append d l = (r, l') \<Longrightarrow>
      r = 0 \<and> invar l' \<and> slots l' = slots l @ [d]"
    and append_full: "invar l \<Longrightarrow> length (slots l) = cap \<Longrightarrow> append d l = (- 1, l)"
    and pop_ok: "invar l \<Longrightarrow> slots l \<noteq> [] \<Longrightarrow> pop d l = (r, x, l') \<Longrightarrow>
      r = 0 \<and> x = last (slots l) \<and> invar l' \<and> slots l' = butlast (slots l)"
    and pop_empty: "invar l \<Longrightarrow> slots l = [] \<Longrightarrow> pop d l = (- 1, d, l)"
    and bounded: "invar l \<Longrightarrow> length (slots l) \<le> cap"
begin

lemma append_invar: "invar l \<Longrightarrow> append d l = (r, l') \<Longrightarrow> invar l'"
  using append_ok append_full bounded by (metis nless_le prod.inject)

lemma pop_invar: "invar l \<Longrightarrow> pop d l = (r, x, l') \<Longrightarrow> invar l'"
  using pop_ok pop_empty by (metis prod.inject)

lemma append_slots:
  "invar l \<Longrightarrow> append d l = (r, l') \<Longrightarrow> slots l' = (if length (slots l) < cap then slots l @ [d] else slots l)"
  using append_ok append_full bounded by (metis nless_le prod.inject)

lemma append_invar_snd: "invar l \<Longrightarrow> invar (snd (append d l))"
  using append_invar by (metis prod.collapse)

text \<open>A series of appends fills the stack up to its capacity and drops the rest.\<close>

lemma append_list:
  "invar l \<Longrightarrow> invar (fold (\<lambda>d l. snd (append d l)) ds l) \<and>
     slots (fold (\<lambda>d l. snd (append d l)) ds l) = take cap (slots l @ ds)"
proof (induction ds arbitrary: l)
  case Nil
  then show ?case using bounded by simp
next
  case (Cons d ds)
  let ?l = "snd (append d l)"
  have inv: "invar ?l" using Cons.prems by (rule append_invar_snd)
  have "slots ?l = (if length (slots l) < cap then slots l @ [d] else slots l)"
    using append_slots [OF Cons.prems] by (metis prod.collapse)
  then have "take cap (slots ?l @ ds) = take cap (slots l @ d # ds)"
    using bounded [OF Cons.prems] by (auto simp: take_Cons')
  with Cons.IH [OF inv] show ?case by simp
qed

text \<open>A pop hands out only what was put in, and the last slot put in comes out first.\<close>

lemma pop_member: "invar l \<Longrightarrow> pop d l = (0, x, l') \<Longrightarrow> x \<in> set (slots l) \<and> set (slots l') \<subseteq> set (slots l)"
  using pop_ok pop_empty by (metis Pair_inject in_set_butlastD last_in_set neg_equal_0_iff_equal one_neq_zero subsetI)

lemma pop_append:
  assumes "invar l" and "append d l = (0, l')"
  shows "\<exists>l''. pop e l' = (0, d, l'') \<and> slots l'' = slots l \<and> invar l''"
proof -
  have lt: "length (slots l) < cap"
    using assms append_full bounded by (metis Pair_inject neg_equal_0_iff_equal nless_le one_neq_zero)
  with assms append_ok have l': "invar l'" "slots l' = slots l @ [d]" by blast+
  obtain r x l'' where p: "pop e l' = (r, x, l'')" by (metis prod.exhaust)
  from pop_ok [OF l'(1) _ p] l' p show ?thesis by simp
qed

end

section \<open>The free list is a bounded stack\<close>

definition free_list_inv :: "free_list_t \<Rightarrow> bool" where
  "free_list_inv fl \<longleftrightarrow> length (fl_data fl) = CONFIG_MAX_FREE_SLOTS \<and> unat (fl_size fl) \<le> CONFIG_MAX_FREE_SLOTS"

definition free_slots :: "free_list_t \<Rightarrow> register_data_t list" where
  "free_slots fl = take (unat (fl_size fl)) (fl_data fl)"

lemma free_list_init_inv [simp]: "free_list_inv free_list_init" "free_slots free_list_init = []"
  by (simp_all add: free_list_inv_def free_list_init_def free_slots_def)

interpretation fls: slot_stack free_list_inv free_slots CONFIG_MAX_FREE_SLOTS free_list_append free_list_pop
proof unfold_locales
  fix l :: free_list_t and d r l'
  assume i: "free_list_inv l"
  have len: "length (free_slots l) = unat (fl_size l)"
    using i by (simp add: free_list_inv_def free_slots_def)
  show "length (free_slots l) \<le> CONFIG_MAX_FREE_SLOTS"
    using i len by (simp add: free_list_inv_def)
  show "free_list_append d l = (- 1, l)" if "length (free_slots l) = CONFIG_MAX_FREE_SLOTS"
    using that len by (simp add: free_list_append_def)
  show "r = 0 \<and> free_list_inv l' \<and> free_slots l' = free_slots l @ [d]"
    if lt: "length (free_slots l) < CONFIG_MAX_FREE_SLOTS" and a: "free_list_append d l = (r, l')"
  proof -
    have s: "unat (fl_size l + 1) = Suc (unat (fl_size l))"
      by (rule unat_Suc_u8) (use lt len in \<open>simp add: CONFIG_MAX_FREE_SLOTS_def\<close>)
    have "r = 0" and "l' = l\<lparr>fl_data := (fl_data l)[unat (fl_size l) := d], fl_size := fl_size l + 1\<rparr>"
      using a lt len by (auto simp: free_list_append_def)
    with i lt len s show ?thesis
      by (simp add: free_list_inv_def free_slots_def take_Suc_conv_app_nth)
  qed
  show "free_list_pop d l = (- 1, d, l)" if "free_slots l = []"
  proof -
    have "unat (fl_size l) = 0" using len that by simp
    then have "fl_size l = 0" by (simp add: unat_eq_0)
    then show ?thesis by (simp add: free_list_pop_def)
  qed
  show "r = 0 \<and> x = last (free_slots l) \<and> free_list_inv l' \<and> free_slots l' = butlast (free_slots l)"
    if ne: "free_slots l \<noteq> []" and p: "free_list_pop d l = (r, x, l')" for x
  proof -
    have nz: "fl_size l \<noteq> 0" using ne by (auto simp: free_slots_def)
    note s = unat_pred [OF nz]
    have pos: "0 < unat (fl_size l)" using nz by (simp add: unat_gt_0)
    have "r = 0" "x = fl_data l ! (unat (fl_size l) - 1)" "l' = l\<lparr>fl_size := fl_size l - 1\<rparr>"
      using p nz s by (auto simp: free_list_pop_def Let_def)
    with i s pos ne show ?thesis
      by (auto simp: free_list_inv_def free_slots_def last_conv_nth butlast_take)
  qed
qed

end
