(* ===== verification/Advertiser.thy ===== *)
theory Advertiser
  imports Free_List
begin

text \<open>
  The advertiser (\<open>advertiser/src/advertiser_fsm.c\<close>): its state, the reservation of response
  slots, the two PAwR callbacks and the state functions. The Bluetooth callbacks run on the
  host's thread, the state functions on the main thread; each function between two waits is one
  step here. Logging is left out. The program is built with \<open>CONFIG_INTERACTIVE=y\<close>.
\<close>

section \<open>Constants and state\<close>

definition NUM_RSP_SLOTS :: nat where "NUM_RSP_SLOTS = 103"
definition MAX_NUM_SUBEVENTS :: nat where "MAX_NUM_SUBEVENTS = 46"
definition EVENTS_PER_BLOCK :: nat where "EVENTS_PER_BLOCK = 3"
definition TO_SEND_BUF_SIZE :: nat where "TO_SEND_BUF_SIZE = 251"
definition CONFIG_NUM_REGISTER_SLOTS :: nat where "CONFIG_NUM_REGISTER_SLOTS = 5"

text \<open>\<open>sizeof(advertisement_data_t)\<close> on the 32-bit target: a pointer, the packed byte of
  \<open>selection_info\<close>, padding to 8, and the counter.\<close>

definition SIZEOF_ADVERTISEMENT_DATA :: nat where "SIZEOF_ADVERTISEMENT_DATA = 16"

lemmas adv_sizes = NUM_RSP_SLOTS_def MAX_NUM_SUBEVENTS_def EVENTS_PER_BLOCK_def TO_SEND_BUF_SIZE_def
  CONFIG_NUM_REGISTER_SLOTS_def

record slot_data_t =
  dev_id :: u16
  inactive_for :: u8

datatype adv_fsm_state = INITIALIZE | ADVERTISING | FAULT_HANDLING | SOFT_REBOOT

record 'p advertiser = "'p device" +
  curr_state :: adv_fsm_state
  reboot_sem :: k_sem
  free_list :: free_list_t
  last_used :: register_data_t
  register_subevent_data :: "register_data_t list"
  subevent_data_params :: "bt_le_per_adv_subevent_data_params list"
  bufs :: "net_buf_simple list"
  rsp_slots :: "slot_data_t list list"
  current_rsp :: rsp_data_t
  selection_data :: subevent_sel_info_t
  adv_data :: net_buf_simple
  counter :: crypto_counter_t
  per_adv_params :: bt_le_per_adv_param
  subevent_req_counter :: u8
  rollover :: u64

definition empty_buf :: "nat \<Rightarrow> net_buf_simple" where
  "empty_buf n = \<lparr>nb_buf = replicate n 0, nb_off = 0, nb_len = 0\<rparr>"

text \<open>The static initialisers. \<open>bufs\<close> has no storage until \<open>init_bufs\<close> gives it some.\<close>

definition adv_boot :: "'p platform \<Rightarrow> 'p \<Rightarrow> 'p advertiser" where
  "adv_boot pf p = \<lparr>psa_store = p, zlog = [],
     curr_state = INITIALIZE,
     reboot_sem = \<lparr>sem_count = 0, sem_limit = 1\<rparr>,
     free_list = free_list_init,
     last_used = \<lparr>subevent = 0, rsp_slot = of_nat CONFIG_NUM_REGISTER_SLOTS\<rparr>,
     register_subevent_data = replicate CONFIG_NUM_REGISTER_SLOTS \<lparr>subevent = 0, rsp_slot = 0\<rparr>,
     subevent_data_params = replicate MAX_NUM_SUBEVENTS
        \<lparr>sdp_subevent = 0, response_slot_start = 0, response_slot_count = 0, sdp_data = []\<rparr>,
     bufs = replicate MAX_NUM_SUBEVENTS (empty_buf 0),
     rsp_slots = replicate MAX_NUM_SUBEVENTS (replicate NUM_RSP_SLOTS \<lparr>dev_id = 0, inactive_for = 0\<rparr>),
     current_rsp = \<lparr>sender_id = 0, rsp_counter = 0\<rparr>,
     selection_data = \<lparr>num_reg_slots = 0\<rparr>,
     adv_data = empty_buf (SIZEOF_ADVERTISEMENT_DATA + HASH_LEN),
     counter = \<lparr>cc_value = 0, storage_uid = COUNTER_ID pf\<rparr>,
     per_adv_params = \<lparr>interval_min = 2000, interval_max = 2000, per_adv_options = 0,
        num_subevents = of_nat MAX_NUM_SUBEVENTS, subevent_interval = 43, response_slot_delay = 1,
        response_slot_spacing = 4, num_response_slots = of_nat NUM_RSP_SLOTS\<rparr>,
     subevent_req_counter = 0,
     rollover = 0\<rparr>"

section \<open>Reserving slots\<close>

definition reserve_slot :: "'p advertiser \<Rightarrow> register_data_t \<times> 'p advertiser" where
  "reserve_slot s =
     (let (err, ret, fl) = free_list_pop \<lparr>subevent = 0, rsp_slot = 0\<rparr> (free_list s)
      in if err = 0 then (ret, s\<lparr>free_list := fl\<rparr>)
         else
           let ret = last_used s
           in if unat (rsp_slot (last_used s)) + 1 = NUM_RSP_SLOTS
              then (ret, s\<lparr>last_used := \<lparr>subevent = subevent (last_used s) + 1, rsp_slot = 0\<rparr>\<rparr>)
              else (ret, s\<lparr>last_used := (last_used s)\<lparr>rsp_slot := rsp_slot (last_used s) + 1\<rparr>\<rparr>))"

definition reserve_register_slot :: "nat \<Rightarrow> 'p advertiser \<Rightarrow> 'p advertiser" where
  "reserve_register_slot i s =
     (let (sel_slot, s) = reserve_slot s
      in s\<lparr>register_subevent_data := (register_subevent_data s)[i := sel_slot]\<rparr>)"

definition init_buf :: "'p platform \<Rightarrow> nat \<Rightarrow> 'p advertiser \<Rightarrow> 'p advertiser" where
  "init_buf pf i s = s\<lparr>bufs := (bufs s)[i := net_buf_simple_init_with_data pf (replicate TO_SEND_BUF_SIZE 0)]\<rparr>"

definition init_bufs :: "'p platform \<Rightarrow> 'p advertiser \<Rightarrow> 'p advertiser" where
  "init_bufs pf s =
     (let s = for_up CONFIG_NUM_REGISTER_SLOTS reserve_register_slot s
      in for_up MAX_NUM_SUBEVENTS (init_buf pf) s)"

section \<open>Advertising data\<close>

text \<open>\<open>BT_LE_AD_GENERAL | BT_LE_AD_NO_BREDR\<close>.\<close>

definition adv_flags :: byte where "adv_flags = 6"

definition set_adv_data :: "'p platform \<Rightarrow> 'p advertiser \<Rightarrow> int \<times> 'p advertiser" where
  "set_adv_data pf s =
     (let to_advertise = \<lparr>reg_data = register_subevent_data s, selection_info = selection_data s,
                          adv_counter = cc_value (counter s)\<rparr>;
          buf = net_buf_simple_reset pf (adv_data s);
          buf = advertisement_data_serialize pf to_advertise buf;
          (_, buf, p) = sign_message pf buf (ADVERTISER_KEY_ID pf) (psa_store s);
          s = s\<lparr>adv_data := buf, psa_store := p\<rparr>;
          ad = [\<lparr>bt_data_type = BT_DATA_FLAGS, bt_data_data = [adv_flags]\<rparr>,
                \<lparr>bt_data_type = BT_DATA_MANUFACTURER_DATA, bt_data_data = nb_data buf\<rparr>]
      in zephyr_call pf (Bt_le_ext_adv_set_data ad) s)"

section \<open>The data request callback\<close>

record bt_le_per_adv_data_request =
  req_start :: u8
  req_count :: u8

text \<open>One round of the loop over the response slots of a subevent: the slot ages, a device that
  was silent for too long loses its slot to the free list, and the ack for the slot is decided.\<close>

definition slot_tick ::
    "nat \<Rightarrow> nat \<Rightarrow> slot_data_t \<Rightarrow> free_list_t \<Rightarrow> slot_data_t \<times> free_list_t \<times> ack_data_t" where
  "slot_tick sub j sl fl =
     (let sl = sl\<lparr>inactive_for := inactive_for sl + 1\<rparr>;
          (sl, fl) =
            (if dev_id sl \<noteq> 0 \<and> unat (inactive_for sl) > 3 * EVENTS_PER_BLOCK
             then (sl\<lparr>dev_id := 0, inactive_for := 0\<rparr>,
                   snd (free_list_append \<lparr>subevent = of_nat sub, rsp_slot = of_nat j\<rparr> fl))
             else (sl, fl));
          d = (if inactive_for sl = 1 \<and> dev_id sl \<noteq> 0 then \<lparr>ack_id = dev_id sl\<rparr> else \<lparr>ack_id = 0\<rparr>)
      in (sl, fl, d))"

definition slot_round :: "nat \<Rightarrow> nat \<Rightarrow> 'p advertiser \<times> ack_data_t list \<Rightarrow> 'p advertiser \<times> ack_data_t list" where
  "slot_round sub j = (\<lambda>(s, acks).
     let (sl, fl, d) = slot_tick sub j (rsp_slots s ! sub ! j) (free_list s)
     in (s\<lparr>rsp_slots := (rsp_slots s)[sub := (rsp_slots s ! sub)[j := sl]], free_list := fl\<rparr>, acks[j := d]))"

text \<open>Subevent 0 starts a new period: one more rollover is pending, and the advertising data are
  renewed.\<close>

definition start_period :: "'p platform \<Rightarrow> nat \<Rightarrow> 'p advertiser \<Rightarrow> 'p advertiser" where
  "start_period pf sub s =
     (if sub = 0 then snd (set_adv_data pf (s\<lparr>rollover := rollover s + 1\<rparr>)) else s)"

text \<open>The message of a subevent: serialised into the \<open>i\<close>-th buffer, signed, handed over.\<close>

definition send_subevent :: "'p platform \<Rightarrow> nat \<Rightarrow> nat \<Rightarrow> ack_data_t list \<Rightarrow> 'p advertiser \<Rightarrow> 'p advertiser" where
  "send_subevent pf i sub acks s =
     (let subevent_data = \<lparr>register_data = register_subevent_data s, ack_data = acks,
            sub_counter = cc_value (counter s) + rollover s,
            register_data_count = 0, ack_data_count = NUM_RSP_SLOTS\<rparr>;
          buf = net_buf_simple_reset pf (bufs s ! i);
          buf = subevent_data_with_reg_serialize pf subevent_data buf;
          (_, buf, p) = sign_message pf buf (ADVERTISER_KEY_ID pf) (psa_store s);
          params = \<lparr>sdp_subevent = of_nat sub, response_slot_start = 0,
             response_slot_count = of_nat NUM_RSP_SLOTS, sdp_data = nb_data buf\<rparr>;
          s = s\<lparr>bufs := (bufs s)[i := buf], psa_store := p,
                subevent_data_params := (subevent_data_params s)[i := params],
                subevent_req_counter := subevent_req_counter s + 1\<rparr>
      in zephyr_do (Bt_le_per_adv_set_subevent_data params) s)"

text \<open>One round of the loop over the requested subevents.\<close>

definition request_round ::
    "'p platform \<Rightarrow> bt_le_per_adv_data_request \<Rightarrow> nat \<Rightarrow> 'p advertiser \<times> ack_data_t list \<Rightarrow>
     'p advertiser \<times> ack_data_t list" where
  "request_round pf request i = (\<lambda>(s, acks).
     let sub = (unat (req_start request) + i) mod unat (num_subevents (per_adv_params s));
         s = start_period pf sub s;
         (s, acks) = for_up NUM_RSP_SLOTS (slot_round sub) (s, acks)
     in (send_subevent pf i sub acks s, acks))"

definition request_cb :: "'p platform \<Rightarrow> bt_le_per_adv_data_request \<Rightarrow> 'p advertiser \<Rightarrow> 'p advertiser" where
  "request_cb pf request s =
     (let s = (if rollover s > 0
               then s\<lparr>counter := (counter s)\<lparr>cc_value := cc_value (counter s) + rollover s\<rparr>, rollover := 0\<rparr>
               else s);
          to_send = min (unat (req_count request)) (length (subevent_data_params s))
      in fst (for_up to_send (request_round pf request) (s, replicate NUM_RSP_SLOTS \<lparr>ack_id = 0\<rparr>)))"

section \<open>The response callback\<close>

record bt_le_per_adv_response_info =
  rsp_subevent :: u8
  rsp_response_slot :: u8
  rsp_rssi :: int

text \<open>Access to \<open>rsp_slots[sub][j]\<close>. The host reports only subevents and slots that exist; a
  read elsewhere would give a stray device id.\<close>

definition slot_at :: "'p platform \<Rightarrow> 'p advertiser \<Rightarrow> nat \<Rightarrow> nat \<Rightarrow> slot_data_t" where
  "slot_at pf s sub j =
     (if sub < length (rsp_slots s) \<and> j < length (rsp_slots s ! sub) then rsp_slots s ! sub ! j
      else \<lparr>dev_id = stray_u16 pf j, inactive_for = 0\<rparr>)"

definition set_slot :: "nat \<Rightarrow> nat \<Rightarrow> slot_data_t \<Rightarrow> 'p advertiser \<Rightarrow> 'p advertiser" where
  "set_slot sub j sl s = s\<lparr>rsp_slots := (rsp_slots s)[sub := (rsp_slots s ! sub)[j := sl]]\<rparr>"

text \<open>The loop that replaces a register slot that has just been taken, up to its \<open>break\<close>:
  \<open>n\<close> entries are left to look at.\<close>

fun replace_register_slot :: "nat \<Rightarrow> u8 \<Rightarrow> u8 \<Rightarrow> 'p advertiser \<Rightarrow> 'p advertiser" where
  "replace_register_slot 0 sub j s = s"
| "replace_register_slot (Suc n) sub j s =
     (let i = CONFIG_NUM_REGISTER_SLOTS - Suc n
      in if sub = subevent (register_subevent_data s ! i) \<and> j = rsp_slot (register_subevent_data s ! i)
         then reserve_register_slot i s
         else replace_register_slot n sub j s)"

text \<open>A response that fails the verification empties the slot and frees it; one that passes
  claims an empty slot or refreshes the sender's own slot.\<close>

definition reject_response :: "'p platform \<Rightarrow> bt_le_per_adv_response_info \<Rightarrow> 'p advertiser \<Rightarrow> 'p advertiser" where
  "reject_response pf info s =
     (let sub = unat (rsp_subevent info); j = unat (rsp_response_slot info);
          s = set_slot sub j ((slot_at pf s sub j)\<lparr>dev_id := 0\<rparr>) s;
          rd = \<lparr>subevent = rsp_subevent info, rsp_slot = rsp_response_slot info\<rparr>
      in s\<lparr>free_list := snd (free_list_append rd (free_list s))\<rparr>)"

definition accept_response :: "'p platform \<Rightarrow> bt_le_per_adv_response_info \<Rightarrow> 'p advertiser \<Rightarrow> 'p advertiser" where
  "accept_response pf info s =
     (let sub = unat (rsp_subevent info); j = unat (rsp_response_slot info);
          (_, s) = set_adv_data pf s
      in if dev_id (slot_at pf s sub j) = 0 then
           let s = set_slot sub j \<lparr>dev_id = sender_id (current_rsp s), inactive_for = 0\<rparr> s;
               s = replace_register_slot CONFIG_NUM_REGISTER_SLOTS (rsp_subevent info) (rsp_response_slot info) s
           in snd (set_adv_data pf s)
         else if dev_id (slot_at pf s sub j) = sender_id (current_rsp s) then
           set_slot sub j ((slot_at pf s sub j)\<lparr>inactive_for := 0\<rparr>) s
         else s)"

definition response_cb ::
    "'p platform \<Rightarrow> bt_le_per_adv_response_info \<Rightarrow> net_buf_simple option \<Rightarrow> 'p advertiser \<Rightarrow> 'p advertiser" where
  "response_cb pf info buf s =
     (case buf of
        None \<Rightarrow> s
      | Some b \<Rightarrow>
          let parse_state = net_buf_simple_save pf b;
              to_save = HASH_LEN + SIZEOF_U64
          in if nb_len b < to_save then s
             else
               let (_, b) = net_buf_simple_remove_mem pf b to_save;
                   (transfer_err, response, b) = response_data_deserialize pf
                      \<lparr>rsp_metadata = \<lparr>sender_id = 0, rsp_counter = 0\<rparr>, rsp_data = [], data_len = 0, resp_counter = 0\<rparr> b
               in if transfer_err \<noteq> TRANSFER_NO_ERROR then s
                  else
                    let s = s\<lparr>current_rsp := rsp_metadata response\<rparr>;
                        b = net_buf_simple_restore pf b parse_state;
                        (transfer_err, b, c, p) = verify_message pf b
                           (scanner_key_id pf (sender_id (current_rsp s))) (cc_value (counter s)) (psa_store s);
                        s = s\<lparr>counter := (counter s)\<lparr>cc_value := c\<rparr>, psa_store := p\<rparr>
                    in if transfer_err \<noteq> TRANSFER_NO_ERROR then reject_response pf info s
                       else accept_response pf info s)"

definition button_cb :: "'p platform \<Rightarrow> 'p advertiser \<Rightarrow> 'p advertiser" where
  "button_cb pf s = s\<lparr>reboot_sem := k_sem_give pf (reboot_sem s)\<rparr>"

section \<open>State functions\<close>

text \<open>A call that must succeed, and what comes after it.\<close>

definition adv_check ::
    "'p platform \<Rightarrow> zcall \<Rightarrow> ('p advertiser \<Rightarrow> adv_fsm_state \<times> 'p advertiser) \<Rightarrow> 'p advertiser \<Rightarrow>
     adv_fsm_state \<times> 'p advertiser" where
  "adv_check pf c k s =
     (let (err, s) = zephyr_call pf c s in if err \<noteq> 0 then (FAULT_HANDLING, s) else k s)"

text \<open>The part of \<open>init\<close> that brings up Bluetooth, call by call.\<close>

definition adv_start :: "'p platform \<Rightarrow> 'p advertiser \<Rightarrow> adv_fsm_state \<times> 'p advertiser" where
  "adv_start pf =
     adv_check pf Bt_enable (adv_check pf Bt_le_ext_adv_create (\<lambda>s.
       let s = s\<lparr>per_adv_params := (per_adv_params s)\<lparr>num_subevents := of_nat MAX_NUM_SUBEVENTS\<rparr>\<rparr>
       in adv_check pf (Bt_le_per_adv_set_param (per_adv_params s)) (\<lambda>s.
            let s = s\<lparr>selection_data := \<lparr>num_reg_slots = of_nat CONFIG_NUM_REGISTER_SLOTS\<rparr>\<rparr>;
                (err, s) = set_adv_data pf s
            in if err \<noteq> 0 then (FAULT_HANDLING, s)
               else adv_check pf Bt_le_per_adv_start
                      (adv_check pf Bt_le_ext_adv_start (\<lambda>s. (ADVERTISING, s))) s) s))"

definition adv_init :: "'p platform \<Rightarrow> 'p advertiser \<Rightarrow> adv_fsm_state \<times> 'p advertiser" where
  "adv_init pf s =
     (let s = zephyr_do (K_sleep 5000) s;
          (_, s) = init_led pf led1 s;
          (_, s) = init_button pf s;
          s = init_bufs pf s;
          (psa_err, p) = crypto_init pf (psa_store s);
          s = s\<lparr>psa_store := p\<rparr>
      in if psa_err \<noteq> PSA_SUCCESS then (FAULT_HANDLING, s)
         else
           let (psa_err, c, p) = crypto_secure_counter_init pf (counter s) (psa_store s);
               s = s\<lparr>counter := c, psa_store := p\<rparr>
           in if psa_err \<noteq> PSA_SUCCESS then (FAULT_HANDLING, s) else adv_start pf s)"

text \<open>One take of the reboot semaphore in \<open>advertising\<close>: \<open>None\<close> is a timeout after ten
  seconds, on which the loop goes round.\<close>

definition adv_advertising :: "'p platform \<Rightarrow> 'p advertiser \<Rightarrow> (adv_fsm_state \<times> 'p advertiser) option" where
  "adv_advertising pf s =
     (case k_sem_take_now pf (reboot_sem s) of
        None \<Rightarrow> None
      | Some sem \<Rightarrow> Some (SOFT_REBOOT, s\<lparr>reboot_sem := sem\<rparr>))"

text \<open>\<open>fault_handling\<close> and \<open>soft_reboot\<close> commit the counter and reboot; neither returns.\<close>

definition adv_commit_and_reboot :: "'p platform \<Rightarrow> 'p advertiser \<Rightarrow> 'p advertiser" where
  "adv_commit_and_reboot pf s =
     (let (_, p) = crypto_secure_counter_commit pf (counter s) (psa_store s)
      in zephyr_do Sys_reboot (s\<lparr>psa_store := p\<rparr>))"

definition adv_fault_handling :: "'p platform \<Rightarrow> 'p advertiser \<Rightarrow> 'p advertiser" where
  "adv_fault_handling pf s = adv_commit_and_reboot pf s"

definition adv_soft_reboot :: "'p platform \<Rightarrow> 'p advertiser \<Rightarrow> 'p advertiser" where
  "adv_soft_reboot pf s = adv_commit_and_reboot pf s"

definition adv_state_str :: "adv_fsm_state \<Rightarrow> string" where
  "adv_state_str st =
     (case st of INITIALIZE \<Rightarrow> ''INITIALIZE'' | ADVERTISING \<Rightarrow> ''ADVERTISING''
      | SOFT_REBOOT \<Rightarrow> ''SOFT_REBOOT'' | _ \<Rightarrow> ''INVALID_STATE'')"

text \<open>One round of \<open>loop\<close>: run the current state and move to the state it returns. It is
  \<open>None\<close> where the state function has not returned, because it still waits or because the
  device reboots.\<close>

definition adv_run_state :: "'p platform \<Rightarrow> 'p advertiser \<Rightarrow> (adv_fsm_state \<times> 'p advertiser) option" where
  "adv_run_state pf s =
     (case curr_state s of
        INITIALIZE \<Rightarrow> Some (adv_init pf s)
      | ADVERTISING \<Rightarrow> adv_advertising pf s
      | FAULT_HANDLING \<Rightarrow> None
      | SOFT_REBOOT \<Rightarrow> None)"

definition adv_loop_round :: "'p platform \<Rightarrow> 'p advertiser \<Rightarrow> 'p advertiser option" where
  "adv_loop_round pf s = map_option (\<lambda>(st, s). s\<lparr>curr_state := st\<rparr>) (adv_run_state pf s)"

end
