(* ===== verification/Advertiser_Slots.thy ===== *)
theory Advertiser_Slots
  imports Advertiser
begin

text \<open>
  The life of a response slot. The abstract slot is free or held by a device that has been silent
  for some rounds; \<open>slot_tick\<close> is shown to implement its clock, and the loop over a whole
  subevent to be the clock applied to every slot of the row.
\<close>

section \<open>The abstract slot\<close>

datatype slot_view = Free | Held u16 nat

definition view :: "slot_data_t \<Rightarrow> slot_view" where
  "view sl = (if dev_id sl = 0 then Free else Held (dev_id sl) (unat (inactive_for sl)))"

definition MAX_SILENT :: nat where "MAX_SILENT = 3 * EVENTS_PER_BLOCK"

fun age :: "slot_view \<Rightarrow> slot_view" where
  "age Free = Free"
| "age (Held d n) = (if n < MAX_SILENT then Held d (Suc n) else Free)"

fun expires :: "slot_view \<Rightarrow> bool" where
  "expires Free = False"
| "expires (Held d n) = (MAX_SILENT \<le> n)"

fun ack_of :: "slot_view \<Rightarrow> u16" where
  "ack_of Free = 0"
| "ack_of (Held d n) = (if n = 0 then d else 0)"

text \<open>Between two requests a held slot has been silent for at most \<open>MAX_SILENT\<close> rounds; the
  counter of a free slot is not used and may wrap.\<close>

definition slot_ok :: "slot_data_t \<Rightarrow> bool" where
  "slot_ok sl \<longleftrightarrow> dev_id sl = 0 \<or> unat (inactive_for sl) \<le> MAX_SILENT"

lemma MAX_SILENT_9: "MAX_SILENT = 9"
  by (simp add: MAX_SILENT_def EVENTS_PER_BLOCK_def)

lemma slot_tick_refines:
  assumes "slot_ok sl" and "slot_tick sub j sl fl = (sl', fl', d)"
  shows "view sl' = age (view sl)" and "ack_id d = ack_of (view sl)" and "slot_ok sl'"
    and "fl' = (if expires (view sl)
                then snd (free_list_append \<lparr>subevent = of_nat sub, rsp_slot = of_nat j\<rparr> fl) else fl)"
proof -
  have inc: "dev_id sl = 0 \<or> unat (inactive_for sl + 1) = Suc (unat (inactive_for sl))"
    using assms(1) unat_Suc_u8 [of "inactive_for sl"] by (auto simp: slot_ok_def MAX_SILENT_9)
  have z: "inactive_for sl = 0 \<longleftrightarrow> unat (inactive_for sl) = 0"
    by (simp add: unat_eq_0)
  show "view sl' = age (view sl)" "ack_id d = ack_of (view sl)" "slot_ok sl'"
    "fl' = (if expires (view sl)
            then snd (free_list_append \<lparr>subevent = of_nat sub, rsp_slot = of_nat j\<rparr> fl) else fl)"
    using assms inc z
    by (auto simp: slot_tick_def slot_ok_def view_def MAX_SILENT_9 EVENTS_PER_BLOCK_def Let_def split: if_splits)
qed

section \<open>A row of slots\<close>

text \<open>The loop over a row, on the row, the free list and the acks alone.\<close>

definition row_round ::
    "nat \<Rightarrow> nat \<Rightarrow> slot_data_t list \<times> free_list_t \<times> ack_data_t list \<Rightarrow> slot_data_t list \<times> free_list_t \<times> ack_data_t list" where
  "row_round sub j = (\<lambda>(row, fl, acks).
     let (sl, fl, d) = slot_tick sub j (row ! j) fl in (row[j := sl], fl, acks[j := d]))"

lemma slot_loop_row:
  assumes "sub < length (rsp_slots s)"
  shows "for_up n (slot_round sub) (s, acks) =
    (case for_up n (row_round sub) (rsp_slots s ! sub, free_list s, acks) of
       (row, fl, acks) \<Rightarrow> (s\<lparr>rsp_slots := (rsp_slots s)[sub := row], free_list := fl\<rparr>, acks))"
proof (induction n)
  case 0
  then show ?case by simp
next
  case (Suc n)
  then show ?case
    using assms by (simp add: slot_round_def row_round_def Let_def split: prod.splits)
qed

lemma row_round_eq:
  "slot_tick sub j (row ! j) fl = (sl, fl', d) \<Longrightarrow> row_round sub j (row, fl, acks) = (row[j := sl], fl', acks[j := d])"
  by (simp add: row_round_def)

text \<open>The slots of the first \<open>n\<close> entries of a row that expire, in order.\<close>

definition expired :: "nat \<Rightarrow> slot_data_t list \<Rightarrow> nat \<Rightarrow> register_data_t list" where
  "expired sub row n = map (\<lambda>j. \<lparr>subevent = of_nat sub, rsp_slot = of_nat j\<rparr>)
     (filter (\<lambda>j. expires (view (row ! j))) [0..<n])"

text \<open>What the loop leaves after \<open>n\<close> slots: the first \<open>n\<close> have aged, the first
  \<open>n\<close> acks are decided, the expired slots are in the free list, the rest is untouched.\<close>

lemma row_loop:
  assumes "\<forall>sl \<in> set row. slot_ok sl" and "n \<le> length row" and "n \<le> length acks"
    and "for_up n (row_round sub) (row, fl, acks) = (row', fl', acks')"
  shows "length row' = length row \<and> length acks' = length acks \<and>
    fl' = fold (\<lambda>d fl. snd (free_list_append d fl)) (expired sub row n) fl \<and>
    (\<forall>sl \<in> set row'. slot_ok sl) \<and>
    map view row' = map age (map view (take n row)) @ map view (drop n row) \<and>
    map ack_id acks' = map ack_of (map view (take n row)) @ map ack_id (drop n acks)"
  using assms(2-4)
proof (induction n arbitrary: row' fl' acks')
  case 0
  then show ?case using assms(1) by (simp add: expired_def)
next
  case (Suc n)
  obtain r f a where p: "for_up n (row_round sub) (row, fl, acks) = (r, f, a)"
    by (metis prod.exhaust)
  with Suc have IH: "length r = length row" "length a = length acks"
    "f = fold (\<lambda>d fl. snd (free_list_append d fl)) (expired sub row n) fl" "\<forall>sl \<in> set r. slot_ok sl"
    "map view r = map age (map view (take n row)) @ map view (drop n row)"
    "map ack_id a = map ack_of (map view (take n row)) @ map ack_id (drop n acks)"
    by auto
  obtain sl fl'' d where t: "slot_tick sub n (r ! n) f = (sl, fl'', d)"
    by (metis prod.exhaust)
  have n: "n < length row" "n < length acks" using Suc.prems by simp_all
  have "slot_ok (r ! n)" using IH(1,4) n by simp
  note tick = slot_tick_refines [OF this t]
  have vn: "view (r ! n) = view (row ! n)"
    using arg_cong [OF IH(5), of "\<lambda>xs. xs ! n"] IH(1) n by (simp add: nth_append)
  have res: "row' = r[n := sl]" "fl' = fl''" "acks' = a[n := d]"
    using Suc.prems(3) p row_round_eq [OF t, of a] by simp_all
  have "map view (r[n := sl]) = map age (map view (take (Suc n) row)) @ map view (drop (Suc n) row)"
    using IH n tick(1) vn
    by (simp add: map_update take_Suc_conv_app_nth list_update_append flip: Cons_nth_drop_Suc)
  moreover have "map ack_id (a[n := d]) = map ack_of (map view (take (Suc n) row)) @ map ack_id (drop (Suc n) acks)"
    using IH n tick(2) vn
    by (simp add: map_update take_Suc_conv_app_nth list_update_append flip: Cons_nth_drop_Suc)
  moreover have "\<forall>sl \<in> set (r[n := sl]). slot_ok sl"
    using IH(4) tick(3) set_update_subset_insert [of r n sl] by blast
  moreover have "fl'' = fold (\<lambda>d fl. snd (free_list_append d fl)) (expired sub row (Suc n)) fl"
    using tick(4) IH(3) vn by (simp add: expired_def)
  ultimately show ?case
    using res IH by simp
qed

end
