(* ===== verification/Advertiser_Inv.thy ===== *)
theory Advertiser_Inv
  imports Advertiser_Slots
begin

text \<open>
  The invariant of the advertiser's state and what each operation does to each field. The first
  section is about slot reservation, the second about the advertising data, the third about one
  round of the data request, the last two about the whole request and the response.
\<close>

section \<open>The invariant\<close>

definition slot_ix :: "register_data_t \<Rightarrow> bool" where
  "slot_ix d \<longleftrightarrow> unat (rsp_slot d) < NUM_RSP_SLOTS"

definition rows_ok :: "slot_data_t list list \<Rightarrow> bool" where
  "rows_ok rows \<longleftrightarrow> length rows = MAX_NUM_SUBEVENTS \<and>
     (\<forall>row \<in> set rows. length row = NUM_RSP_SLOTS \<and> (\<forall>sl \<in> set row. slot_ok sl))"

definition bufs_ok :: "net_buf_simple list \<Rightarrow> bool" where
  "bufs_ok bs \<longleftrightarrow> length bs = MAX_NUM_SUBEVENTS \<and> (\<forall>b \<in> set bs. length (nb_buf b) = TO_SEND_BUF_SIZE)"

definition adv_inv :: "'p advertiser \<Rightarrow> bool" where
  "adv_inv s \<longleftrightarrow> rows_ok (rsp_slots s) \<and> free_list_inv (free_list s) \<and>
     (\<forall>d \<in> set (free_slots (free_list s)). slot_ix d) \<and> slot_ix (last_used s) \<and>
     length (register_subevent_data s) = CONFIG_NUM_REGISTER_SLOTS \<and>
     (\<forall>d \<in> set (register_subevent_data s). slot_ix d) \<and>
     length (subevent_data_params s) = MAX_NUM_SUBEVENTS \<and>
     num_subevents (per_adv_params s) = of_nat MAX_NUM_SUBEVENTS"

lemma adv_inv_boot: "adv_inv (adv_boot pf p)"
  by (auto simp: adv_inv_def adv_boot_def rows_ok_def slot_ok_def slot_ix_def adv_sizes)

text \<open>The invariant reads eight fields; an operation that leaves them alone keeps it.\<close>

lemma adv_inv_cong:
  assumes "rsp_slots s' = rsp_slots s" and "free_list s' = free_list s" and "last_used s' = last_used s"
    and "register_subevent_data s' = register_subevent_data s"
    and "subevent_data_params s' = subevent_data_params s" and "per_adv_params s' = per_adv_params s"
  shows "adv_inv s' = adv_inv s"
  using assms by (simp add: adv_inv_def)

section \<open>Reserving slots\<close>

text \<open>A reservation comes off the free list if that is not empty, and is the next fresh slot
  otherwise; it changes only these two.\<close>

definition next_slot :: "register_data_t \<Rightarrow> register_data_t" where
  "next_slot d = (if unat (rsp_slot d) + 1 = NUM_RSP_SLOTS then \<lparr>subevent = subevent d + 1, rsp_slot = 0\<rparr>
                  else d\<lparr>rsp_slot := rsp_slot d + 1\<rparr>)"

lemma reserve_slot_empty:
  "free_list_inv (free_list s) \<Longrightarrow> free_slots (free_list s) = [] \<Longrightarrow>
   reserve_slot s = (last_used s, s\<lparr>last_used := next_slot (last_used s)\<rparr>)"
  by (simp add: reserve_slot_def fls.pop_empty next_slot_def Let_def)

lemma reserve_slot_free:
  assumes "free_list_inv (free_list s)" and "free_slots (free_list s) \<noteq> []"
  shows "\<exists>fl. reserve_slot s = (last (free_slots (free_list s)), s\<lparr>free_list := fl\<rparr>) \<and>
    free_list_inv fl \<and> free_slots fl = butlast (free_slots (free_list s))"
proof -
  obtain r x fl where "free_list_pop \<lparr>subevent = 0, rsp_slot = 0\<rparr> (free_list s) = (r, x, fl)"
    by (metis prod.exhaust)
  with fls.pop_ok [OF assms this] show ?thesis
    by (auto simp: reserve_slot_def)
qed

lemma slot_ix_next: "slot_ix d \<Longrightarrow> slot_ix (next_slot d)"
  using unat_Suc_u8 [of "rsp_slot d"] by (auto simp: slot_ix_def next_slot_def NUM_RSP_SLOTS_def)

lemma reserve_slot_inv:
  assumes "adv_inv s" and "reserve_slot s = (r, s')"
  shows "adv_inv s' \<and> slot_ix r \<and> (\<exists>fl lu. s' = s\<lparr>free_list := fl, last_used := lu\<rparr>)"
proof (cases "free_slots (free_list s) = []")
  case True
  have i: "free_list_inv (free_list s)" using assms(1) by (simp add: adv_inv_def)
  have s': "s' = s\<lparr>free_list := free_list s, last_used := next_slot (last_used s)\<rparr>" and r: "r = last_used s"
    using reserve_slot_empty [OF i True] assms(2) by simp_all
  have "adv_inv s'" and "slot_ix r"
    using assms(1) slot_ix_next [of "last_used s"] by (simp_all add: adv_inv_def s' r)
  with s' show ?thesis by blast
next
  case False
  have i: "free_list_inv (free_list s)" using assms(1) by (simp add: adv_inv_def)
  from reserve_slot_free [OF i False] assms(2) obtain fl where
    fl: "r = last (free_slots (free_list s))" "s' = s\<lparr>free_list := fl, last_used := last_used s\<rparr>"
    "free_list_inv fl" "free_slots fl = butlast (free_slots (free_list s))"
    by auto
  have "slot_ix r"
    using assms(1) False fl(1) by (simp add: adv_inv_def)
  moreover have "adv_inv s'"
    using assms(1) fl by (auto simp: adv_inv_def dest: in_set_butlastD)
  ultimately show ?thesis
    using fl(2) by blast
qed

section \<open>The advertising data\<close>

lemma set_adv_data_frame:
  "\<exists>buf p c. set_adv_data pf s = (zephyr_ret pf (zlog s) (Bt_le_ext_adv_set_data c),
      s\<lparr>adv_data := buf, psa_store := p, zlog := zlog s @ [Bt_le_ext_adv_set_data c]\<rparr>)"
  by (simp add: set_adv_data_def zephyr_call_def Let_def split: prod.splits) blast

lemma set_adv_data_inv [simp]: "adv_inv (snd (set_adv_data pf s)) = adv_inv s"
proof -
  obtain buf p c where "set_adv_data pf s = (zephyr_ret pf (zlog s) (Bt_le_ext_adv_set_data c),
      s\<lparr>adv_data := buf, psa_store := p, zlog := zlog s @ [Bt_le_ext_adv_set_data c]\<rparr>)"
    using set_adv_data_frame [of pf s] by blast
  then show ?thesis by (simp add: adv_inv_def)
qed

lemma set_adv_data_fields [simp]:
  "rsp_slots (snd (set_adv_data pf s)) = rsp_slots s"
  "free_list (snd (set_adv_data pf s)) = free_list s"
  "last_used (snd (set_adv_data pf s)) = last_used s"
  "register_subevent_data (snd (set_adv_data pf s)) = register_subevent_data s"
  "subevent_data_params (snd (set_adv_data pf s)) = subevent_data_params s"
  "per_adv_params (snd (set_adv_data pf s)) = per_adv_params s"
  "bufs (snd (set_adv_data pf s)) = bufs s"
  "counter (snd (set_adv_data pf s)) = counter s"
  "rollover (snd (set_adv_data pf s)) = rollover s"
  "curr_state (snd (set_adv_data pf s)) = curr_state s"
  "reboot_sem (snd (set_adv_data pf s)) = reboot_sem s"
  "current_rsp (snd (set_adv_data pf s)) = current_rsp s"
  "selection_data (snd (set_adv_data pf s)) = selection_data s"
  using set_adv_data_frame [of pf s] by auto

context pawr_platform
begin

lemma set_adv_data_keys: "key_of (psa_store (snd (set_adv_data pf s))) = key_of (psa_store s)"
  unfolding set_adv_data_def Let_def
  by (simp add: split_beta zephyr_do_def sign_keys)

end

section \<open>One round of the data request\<close>

definition sub_ix :: "bt_le_per_adv_data_request \<Rightarrow> nat \<Rightarrow> nat" where
  "sub_ix request i = (unat (req_start request) + i) mod MAX_NUM_SUBEVENTS"

definition row_acks :: "slot_data_t list \<Rightarrow> ack_data_t list" where
  "row_acks row = map (\<lambda>sl. \<lparr>ack_id = ack_of (view sl)\<rparr>) row"

lemma sub_ix_less: "sub_ix request i < MAX_NUM_SUBEVENTS"
  by (simp add: sub_ix_def MAX_NUM_SUBEVENTS_def)

lemma add_mod_inj:
  fixes a i k n :: nat
  assumes "(a + i) mod n = (a + k) mod n" and "i < n" and "k < n"
  shows "i = k"
proof -
  from assms(1) obtain q r where "i + n * q = k + n * r"
    by (auto simp: nat_mod_eq_iff)
  then have "i mod n = k mod n"
    by (metis mod_mult_self2)
  with assms(2,3) show ?thesis by simp
qed

lemma sub_ix_inj:
  "sub_ix request i = sub_ix request k \<Longrightarrow> i < MAX_NUM_SUBEVENTS \<Longrightarrow> k < MAX_NUM_SUBEVENTS \<Longrightarrow> i = k"
  unfolding sub_ix_def by (rule add_mod_inj)

lemma length_row_acks [simp]: "length (row_acks row) = length row"
  by (simp add: row_acks_def)

lemma acks_by_id: "map ack_id as = map ack_of (map view row) \<Longrightarrow> as = row_acks row"
proof -
  assume a: "map ack_id as = map ack_of (map view row)"
  have "map (\<lambda>i. \<lparr>ack_id = i\<rparr>) (map ack_id as) = as"
    by (simp add: comp_def map_idI)
  with a show ?thesis
    by (simp add: row_acks_def comp_def)
qed

text \<open>A whole row: the slots age, the acks are the row's, and expired slots are freed.\<close>

lemma whole_row:
  assumes "rows_ok rows" and "sub < MAX_NUM_SUBEVENTS" and "length acks = NUM_RSP_SLOTS"
    and "for_up NUM_RSP_SLOTS (row_round sub) (rows ! sub, fl, acks) = (row', fl', acks')"
  shows "length row' = NUM_RSP_SLOTS" and "\<forall>sl \<in> set row'. slot_ok sl"
    and "map view row' = map age (map view (rows ! sub))" and "acks' = row_acks (rows ! sub)"
    and "fl' = fold (\<lambda>d fl. snd (free_list_append d fl)) (expired sub (rows ! sub) NUM_RSP_SLOTS) fl"
proof -
  have m: "rows ! sub \<in> set rows" using assms(1,2) by (simp add: rows_ok_def)
  with assms(1) have r: "length (rows ! sub) = NUM_RSP_SLOTS" "\<forall>sl \<in> set (rows ! sub). slot_ok sl"
    by (auto simp: rows_ok_def)
  from row_loop [OF r(2) _ _ assms(4)] r assms(3)
  show "length row' = NUM_RSP_SLOTS" "\<forall>sl \<in> set row'. slot_ok sl"
    "map view row' = map age (map view (rows ! sub))"
    "fl' = fold (\<lambda>d fl. snd (free_list_append d fl)) (expired sub (rows ! sub) NUM_RSP_SLOTS) fl"
    "acks' = row_acks (rows ! sub)"
    by (simp_all add: acks_by_id)
qed

lemma expired_slot_ix:
  "n \<le> NUM_RSP_SLOTS \<Longrightarrow> d \<in> set (expired sub row n) \<Longrightarrow> slot_ix d"
  by (auto simp: expired_def slot_ix_def NUM_RSP_SLOTS_def unat_of_nat)

lemma rows_ok_row: "rows_ok rows \<Longrightarrow> sub < MAX_NUM_SUBEVENTS \<Longrightarrow> length (rows ! sub) = NUM_RSP_SLOTS"
  by (simp add: rows_ok_def)

lemma rows_ok_update:
  "rows_ok rows \<Longrightarrow> length row = NUM_RSP_SLOTS \<Longrightarrow> \<forall>sl \<in> set row. slot_ok sl \<Longrightarrow> rows_ok (rows[sub := row])"
  by (auto simp: rows_ok_def dest!: set_update_subset_insert [THEN subsetD])

text \<open>The loop over the slots of a subevent, on the whole state.\<close>

lemma slot_loop_ok:
  assumes inv: "adv_inv s" and sub: "sub < MAX_NUM_SUBEVENTS" and acks: "length acks = NUM_RSP_SLOTS"
    and loop: "for_up NUM_RSP_SLOTS (slot_round sub) (s, acks) = (s', acks')"
  obtains row fl where "s' = s\<lparr>rsp_slots := (rsp_slots s)[sub := row], free_list := fl\<rparr>" and "adv_inv s'"
    and "map view row = map age (map view (rsp_slots s ! sub))" and "acks' = row_acks (rsp_slots s ! sub)"
    and "free_slots fl = take CONFIG_MAX_FREE_SLOTS
           (free_slots (free_list s) @ expired sub (rsp_slots s ! sub) NUM_RSP_SLOTS)"
proof -
  from inv have rows: "rows_ok (rsp_slots s)" and fl: "free_list_inv (free_list s)" by (simp_all add: adv_inv_def)
  then have l: "sub < length (rsp_slots s)" using sub by (simp add: rows_ok_def)
  obtain row fl' ak where r: "for_up NUM_RSP_SLOTS (row_round sub) (rsp_slots s ! sub, free_list s, acks) = (row, fl', ak)"
    by (metis prod.exhaust)
  with slot_loop_row [OF l, of NUM_RSP_SLOTS acks] loop
  have s': "s' = s\<lparr>rsp_slots := (rsp_slots s)[sub := row], free_list := fl'\<rparr>" and ak: "acks' = ak"
    by simp_all
  note row = whole_row [OF rows sub acks r]
  let ?E = "expired sub (rsp_slots s ! sub) NUM_RSP_SLOTS"
  from fls.append_list [OF fl, of ?E] row(5)
  have fl': "free_list_inv fl'" "free_slots fl' = take CONFIG_MAX_FREE_SLOTS (free_slots (free_list s) @ ?E)"
    by simp_all
  have "\<forall>d \<in> set (free_slots fl'). slot_ix d"
    using inv expired_slot_ix [of NUM_RSP_SLOTS _ sub] unfolding fl'(2) adv_inv_def
    by (auto dest!: in_set_takeD)
  moreover have "rows_ok ((rsp_slots s)[sub := row])"
    using rows row(1,2) by (rule rows_ok_update)
  ultimately have "adv_inv s'"
    using inv fl'(1) by (simp add: adv_inv_def s')
  then show thesis
    using that [OF s'] row(3,4) ak fl'(2) by simp
qed

section \<open>Every operation keeps the invariant\<close>

lemma start_period_inv [simp]: "adv_inv (start_period pf sub s) = adv_inv s"
  by (simp add: start_period_def) (simp add: adv_inv_def)

lemma send_subevent_fields:
  "\<exists>b p d. send_subevent pf i sub acks s = s\<lparr>bufs := (bufs s)[i := b], psa_store := p,
     subevent_data_params := (subevent_data_params s)[i := d],
     subevent_req_counter := subevent_req_counter s + 1, zlog := zlog s @ [Bt_le_per_adv_set_subevent_data d]\<rparr>"
proof -
  obtain e b p where sign: "sign_message pf (subevent_data_with_reg_serialize pf
      \<lparr>register_data = register_subevent_data s, ack_data = acks, sub_counter = cc_value (counter s) + rollover s,
       register_data_count = 0, ack_data_count = NUM_RSP_SLOTS\<rparr> (net_buf_simple_reset pf (bufs s ! i)))
      (ADVERTISER_KEY_ID pf) (psa_store s) = (e, b, p)"
    by (metis prod.exhaust)
  let ?d = "\<lparr>sdp_subevent = of_nat sub, response_slot_start = 0, response_slot_count = of_nat NUM_RSP_SLOTS, sdp_data = nb_data b\<rparr>"
  have "send_subevent pf i sub acks s = s\<lparr>bufs := (bufs s)[i := b], psa_store := p,
     subevent_data_params := (subevent_data_params s)[i := ?d],
     subevent_req_counter := subevent_req_counter s + 1, zlog := zlog s @ [Bt_le_per_adv_set_subevent_data ?d]\<rparr>"
    by (simp add: send_subevent_def sign zephyr_do_def Let_def)
  then show ?thesis by blast
qed

lemma send_subevent_inv: "adv_inv s \<Longrightarrow> adv_inv (send_subevent pf i sub acks s)"
proof -
  assume "adv_inv s"
  moreover obtain b p d where "send_subevent pf i sub acks s = s\<lparr>bufs := (bufs s)[i := b], psa_store := p,
     subevent_data_params := (subevent_data_params s)[i := d],
     subevent_req_counter := subevent_req_counter s + 1, zlog := zlog s @ [Bt_le_per_adv_set_subevent_data d]\<rparr>"
    using send_subevent_fields [of pf i sub acks s] by auto
  ultimately show ?thesis by (simp add: adv_inv_def)
qed

lemma request_round_inv:
  assumes inv: "adv_inv s" and acks: "length acks = NUM_RSP_SLOTS" and r: "request_round pf request i (s, acks) = (s', acks')"
  shows "adv_inv s' \<and> length acks' = NUM_RSP_SLOTS"
proof -
  let ?sub = "sub_ix request i"
  have sub: "(unat (req_start request) + i) mod unat (num_subevents (per_adv_params s)) = ?sub"
    using inv by (simp add: adv_inv_def sub_ix_def MAX_NUM_SUBEVENTS_def)
  obtain s2 ak where loop: "for_up NUM_RSP_SLOTS (slot_round ?sub) (start_period pf ?sub s, acks) = (s2, ak)"
    by (metis prod.exhaust)
  with r have s': "s' = send_subevent pf i ?sub acks' s2" and ak: "acks' = ak"
    by (auto simp: request_round_def sub Let_def)
  have inv1: "adv_inv (start_period pf ?sub s)" using inv by simp
  then have "length (rsp_slots (start_period pf ?sub s) ! ?sub) = NUM_RSP_SLOTS"
    using rows_ok_row [OF _ sub_ix_less] by (simp add: adv_inv_def)
  with slot_loop_ok [OF inv1 sub_ix_less acks loop] have "adv_inv s2 \<and> length acks' = NUM_RSP_SLOTS"
    by (metis ak length_row_acks)
  then show ?thesis by (simp add: s' send_subevent_inv)
qed

lemma request_cb_inv: "adv_inv s \<Longrightarrow> adv_inv (request_cb pf request s)"
proof -
  assume inv: "adv_inv s"
  define s0 where "s0 = (if rollover s > 0
    then s\<lparr>counter := (counter s)\<lparr>cc_value := cc_value (counter s) + rollover s\<rparr>, rollover := 0\<rparr> else s)"
  then have s0: "adv_inv s0" using inv by (simp add: adv_inv_def)
  have "adv_inv (fst (for_up m (request_round pf request) (s0, replicate NUM_RSP_SLOTS \<lparr>ack_id = 0\<rparr>))) \<and>
    length (snd (for_up m (request_round pf request) (s0, replicate NUM_RSP_SLOTS \<lparr>ack_id = 0\<rparr>))) = NUM_RSP_SLOTS" for m
  proof (induction m)
    case 0
    then show ?case using s0 by simp
  next
    case (Suc m)
    then show ?case
      using request_round_inv by (metis for_up.simps(2) prod.collapse)
  qed
  then show ?thesis
    by (simp add: request_cb_def flip: s0_def)
qed

lemma set_slot_inv:
  assumes inv: "adv_inv s" and ok: "slot_ok sl" and sub: "sub < MAX_NUM_SUBEVENTS"
  shows "adv_inv (set_slot sub j sl s)"
proof -
  have rows: "rows_ok (rsp_slots s)" using inv by (simp add: adv_inv_def)
  then have m: "rsp_slots s ! sub \<in> set (rsp_slots s)" using sub by (simp add: rows_ok_def)
  with rows have row: "length (rsp_slots s ! sub) = NUM_RSP_SLOTS" "\<forall>sl \<in> set (rsp_slots s ! sub). slot_ok sl"
    by (auto simp: rows_ok_def)
  then have "\<forall>x \<in> set ((rsp_slots s ! sub)[j := sl]). slot_ok x"
    using ok set_update_subset_insert by fastforce
  with rows row(1) inv show ?thesis
    by (simp add: adv_inv_def set_slot_def rows_ok_update)
qed

lemma replace_register_slot_eq:
  "n \<le> CONFIG_NUM_REGISTER_SLOTS \<Longrightarrow> replace_register_slot n sub j s =
     (case filter (\<lambda>i. register_subevent_data s ! i = \<lparr>subevent = sub, rsp_slot = j\<rparr>)
             [CONFIG_NUM_REGISTER_SLOTS - n..<CONFIG_NUM_REGISTER_SLOTS] of
        [] \<Rightarrow> s
      | i # _ \<Rightarrow> reserve_register_slot i s)"
proof (induction n)
  case 0
  then show ?case by simp
next
  case (Suc n)
  let ?i = "CONFIG_NUM_REGISTER_SLOTS - Suc n"
  have "[?i..<CONFIG_NUM_REGISTER_SLOTS] = ?i # [CONFIG_NUM_REGISTER_SLOTS - n..<CONFIG_NUM_REGISTER_SLOTS]"
    using Suc.prems by (simp add: upt_conv_Cons Suc_diff_Suc)
  moreover have "(sub = subevent d \<and> j = rsp_slot d) = (d = \<lparr>subevent = sub, rsp_slot = j\<rparr>)" for d :: register_data_t
    by (cases d) auto
  ultimately show ?case
    using Suc by (simp add: Let_def)
qed

lemma reserve_into_inv:
  assumes "adv_inv s" and "reserve_slot s = (r, s')"
  shows "adv_inv (s'\<lparr>register_subevent_data := (register_subevent_data s')[i := r]\<rparr>)"
  using reserve_slot_inv [OF assms] by (auto simp: adv_inv_def dest!: set_update_subset_insert [THEN subsetD])

lemma reserve_register_slot_inv: "adv_inv s \<Longrightarrow> adv_inv (reserve_register_slot i s)"
  using reserve_into_inv [of s] by (auto simp: reserve_register_slot_def split: prod.split)

lemma replace_inv: "adv_inv s \<Longrightarrow> adv_inv (replace_register_slot CONFIG_NUM_REGISTER_SLOTS sub j s)"
  by (simp add: replace_register_slot_eq reserve_register_slot_inv split: list.split)

lemma slot_at_ok:
  assumes "adv_inv s" and "sub < MAX_NUM_SUBEVENTS" and "j < NUM_RSP_SLOTS"
  shows "slot_at pf s sub j = rsp_slots s ! sub ! j" and "slot_ok (slot_at pf s sub j)"
proof -
  have l: "sub < length (rsp_slots s)" "rsp_slots s ! sub \<in> set (rsp_slots s)"
    using assms by (simp_all add: adv_inv_def rows_ok_def)
  then have "length (rsp_slots s ! sub) = NUM_RSP_SLOTS" "\<forall>sl \<in> set (rsp_slots s ! sub). slot_ok sl"
    using assms(1) by (auto simp: adv_inv_def rows_ok_def)
  with l assms(3) show "slot_at pf s sub j = rsp_slots s ! sub ! j" and "slot_ok (slot_at pf s sub j)"
    by (simp_all add: slot_at_def)
qed

text \<open>The host names only slots that exist.\<close>

definition info_ok :: "bt_le_per_adv_response_info \<Rightarrow> bool" where
  "info_ok info \<longleftrightarrow> unat (rsp_subevent info) < MAX_NUM_SUBEVENTS \<and> unat (rsp_response_slot info) < NUM_RSP_SLOTS"

lemma reject_inv: "adv_inv s \<Longrightarrow> info_ok info \<Longrightarrow> adv_inv (reject_response pf info s)"
proof -
  assume inv: "adv_inv s" and info: "info_ok info"
  let ?sl = "(slot_at pf s (unat (rsp_subevent info)) (unat (rsp_response_slot info)))\<lparr>dev_id := 0\<rparr>"
  let ?s = "set_slot (unat (rsp_subevent info)) (unat (rsp_response_slot info)) ?sl s"
  let ?d = "\<lparr>subevent = rsp_subevent info, rsp_slot = rsp_response_slot info\<rparr>"
  have s: "adv_inv ?s"
    using info by (intro set_slot_inv inv) (simp_all add: slot_ok_def info_ok_def)
  then have fl: "free_list_inv (free_list ?s)" by (simp add: adv_inv_def)
  from fls.append_list [OF fl, of "[?d]"]
  have "free_list_inv (snd (free_list_append ?d (free_list ?s)))"
    "free_slots (snd (free_list_append ?d (free_list ?s))) = take CONFIG_MAX_FREE_SLOTS (free_slots (free_list ?s) @ [?d])"
    by simp_all
  moreover have "slot_ix ?d" using info by (simp add: slot_ix_def info_ok_def)
  ultimately show ?thesis
    using s by (auto simp: adv_inv_def reject_response_def Let_def dest!: in_set_takeD)
qed

lemma accept_inv: "adv_inv s \<Longrightarrow> info_ok info \<Longrightarrow> adv_inv (accept_response pf info s)"
proof -
  assume inv: "adv_inv s" and info: "info_ok info"
  let ?sub = "unat (rsp_subevent info)" and ?j = "unat (rsp_response_slot info)"
  have s: "adv_inv (snd (set_adv_data pf s))" using inv by simp
  have set: "adv_inv (set_slot ?sub ?j sl (snd (set_adv_data pf s)))" if "slot_ok sl" for sl
    using info by (intro set_slot_inv s that) (simp add: info_ok_def)
  have new: "slot_ok \<lparr>dev_id = d, inactive_for = 0\<rparr>" "slot_ok (sl\<lparr>inactive_for := 0\<rparr>)" for d sl
    by (simp_all add: slot_ok_def)
  show ?thesis
    unfolding accept_response_def Let_def split_beta
    using set [OF new(1)] set [OF new(2)] s by (simp add: replace_inv)
qed

lemma response_cb_inv: "adv_inv s \<Longrightarrow> info_ok info \<Longrightarrow> adv_inv (response_cb pf info buf s)"
proof (cases buf)
  case (Some b)
  assume inv: "adv_inv s" and info: "info_ok info"
  have "adv_inv (s\<lparr>current_rsp := m, counter := c, psa_store := p\<rparr>)" for m c p
    using inv by (simp add: adv_inv_def)
  with inv info show ?thesis
    unfolding response_cb_def Some option.case Let_def split_beta
    by (simp add: reject_inv accept_inv)
qed (simp add: response_cb_def)

end
