(* ===== verification/Advertiser_Spec.thy ===== *)
theory Advertiser_Spec
  imports Advertiser_Inv
begin

text \<open>
  What the advertiser promises, on an abstract state: the slots as \<open>slot_view\<close>s, the free
  slots as a list, the register slots, the next fresh slot, the message counter, and the messages
  sent. The two callbacks are functions on this state, and the relation \<open>adv_sim\<close> is shown to
  be a simulation: the callbacks of the program implement them, bytes and signatures included.
\<close>

section \<open>The abstract advertiser\<close>

record adv_abs =
  a_slots :: "slot_view list list"
  a_free :: "register_data_t list"
  a_regs :: "register_data_t list"
  a_next :: register_data_t
  a_counter :: u64
  a_pending :: u64
  a_sent :: "(nat \<times> u16 list \<times> u64) list"

definition slot_id :: "nat \<Rightarrow> nat \<Rightarrow> register_data_t" where
  "slot_id sub j = \<lparr>subevent = of_nat sub, rsp_slot = of_nat j\<rparr>"

definition abs_expired :: "nat \<Rightarrow> slot_view list \<Rightarrow> register_data_t list" where
  "abs_expired sub row = map (slot_id sub) (filter (\<lambda>j. expires (row ! j)) [0..<length row])"

text \<open>One subevent of a data request: the pending counter moves on at subevent 0, the slots age,
  the expired ones are freed as far as the free list has room, and the acks are sent with the
  counter.\<close>

definition abs_subevent :: "nat \<Rightarrow> adv_abs \<Rightarrow> adv_abs" where
  "abs_subevent sub a =
     (let row = a_slots a ! sub; pending = a_pending a + (if sub = 0 then 1 else 0)
      in a\<lparr>a_slots := (a_slots a)[sub := map age row],
           a_free := take CONFIG_MAX_FREE_SLOTS (a_free a @ abs_expired sub row),
           a_pending := pending,
           a_sent := a_sent a @ [(sub, map ack_of row, a_counter a + pending)]\<rparr>)"

definition abs_request :: "bt_le_per_adv_data_request \<Rightarrow> adv_abs \<Rightarrow> adv_abs" where
  "abs_request request a =
     fold (\<lambda>i. abs_subevent (sub_ix request i)) [0..<min (unat (req_count request)) MAX_NUM_SUBEVENTS]
       (a\<lparr>a_counter := a_counter a + a_pending a, a_pending := 0\<rparr>)"

definition abs_reserve :: "adv_abs \<Rightarrow> register_data_t \<times> adv_abs" where
  "abs_reserve a =
     (if a_free a = [] then (a_next a, a\<lparr>a_next := next_slot (a_next a)\<rparr>)
      else (last (a_free a), a\<lparr>a_free := butlast (a_free a)\<rparr>))"

text \<open>A register slot that has been taken is replaced by a reserved one.\<close>

definition abs_replace :: "register_data_t \<Rightarrow> adv_abs \<Rightarrow> adv_abs" where
  "abs_replace d a =
     (case filter (\<lambda>i. a_regs a ! i = d) [0..<length (a_regs a)] of
        [] \<Rightarrow> a
      | i # _ \<Rightarrow> let (r, a) = abs_reserve a in a\<lparr>a_regs := (a_regs a)[i := r]\<rparr>)"

text \<open>A response: what its bytes say, and what that does to the slot it came in.\<close>

datatype verdict = Ignored | Rejected | Verified u16 u64

definition abs_set :: "nat \<Rightarrow> nat \<Rightarrow> slot_view \<Rightarrow> adv_abs \<Rightarrow> adv_abs" where
  "abs_set sub j v a = a\<lparr>a_slots := (a_slots a)[sub := (a_slots a ! sub)[j := v]]\<rparr>"

definition hold :: "u16 \<Rightarrow> slot_view" where
  "hold d = (if d = 0 then Free else Held d 0)"

fun abs_response :: "nat \<Rightarrow> nat \<Rightarrow> verdict \<Rightarrow> adv_abs \<Rightarrow> adv_abs" where
  "abs_response sub j Ignored a = a"
| "abs_response sub j Rejected a =
     abs_set sub j Free (a\<lparr>a_free := take CONFIG_MAX_FREE_SLOTS (a_free a @ [slot_id sub j])\<rparr>)"
| "abs_response sub j (Verified d c) a =
     (let a = a\<lparr>a_counter := c\<rparr>
      in case a_slots a ! sub ! j of
           Free \<Rightarrow> abs_replace (slot_id sub j) (abs_set sub j (hold d) a)
         | Held d' n \<Rightarrow> if d' = d then abs_set sub j (Held d 0) a else a)"

section \<open>The messages on the air\<close>

definition subevent_body :: "u16 list \<Rightarrow> u64 \<Rightarrow> byte list" where
  "subevent_body acks c = concat (map (le_bytes 2) acks) @ le_bytes 8 c"

definition subevent_msg ::
    "(byte list \<Rightarrow> byte list) \<Rightarrow> nat \<times> u16 list \<times> u64 \<Rightarrow> bt_le_per_adv_subevent_data_params" where
  "subevent_msg tag = (\<lambda>(sub, acks, c).
     \<lparr>sdp_subevent = of_nat sub, response_slot_start = 0, response_slot_count = of_nat NUM_RSP_SLOTS,
      sdp_data = subevent_body acks c @ tag (subevent_body acks c)\<rparr>)"

fun subevents_sent :: "zcall list \<Rightarrow> bt_le_per_adv_subevent_data_params list" where
  "subevents_sent [] = []"
| "subevents_sent (Bt_le_per_adv_set_subevent_data p # cs) = p # subevents_sent cs"
| "subevents_sent (_ # cs) = subevents_sent cs"

lemma subevents_sent_append [simp]: "subevents_sent (xs @ ys) = subevents_sent xs @ subevents_sent ys"
  by (induction xs rule: subevents_sent.induct) auto

section \<open>The simulation relation\<close>

definition adv_sim ::
    "('p \<Rightarrow> psa_key_id_t \<Rightarrow> stored_key option) \<Rightarrow> (psa_key_id_t \<Rightarrow> stored_key option) \<Rightarrow>
     (byte list \<Rightarrow> byte list) \<Rightarrow> 'p advertiser \<Rightarrow> adv_abs \<Rightarrow> bool" where
  "adv_sim key_of keys tag s a \<longleftrightarrow>
     adv_inv s \<and> bufs_ok (bufs s) \<and> key_of (psa_store s) = keys \<and>
     a_slots a = map (map view) (rsp_slots s) \<and> a_free a = free_slots (free_list s) \<and>
     a_regs a = register_subevent_data s \<and> a_next a = last_used s \<and>
     a_counter a = cc_value (counter s) \<and> a_pending a = rollover s \<and>
     subevents_sent (zlog s) = map (subevent_msg tag) (a_sent a)"

lemma adv_simD:
  assumes "adv_sim key_of keys tag s a"
  shows "adv_inv s" and "bufs_ok (bufs s)" and "key_of (psa_store s) = keys"
  using assms by (simp_all add: adv_sim_def)

section \<open>A data request\<close>

lemma set_adv_data_log:
  "subevents_sent (zlog (snd (set_adv_data pf s))) = subevents_sent (zlog s)"
proof -
  obtain buf p c where "set_adv_data pf s = (zephyr_ret pf (zlog s) (Bt_le_ext_adv_set_data c),
      s\<lparr>adv_data := buf, psa_store := p, zlog := zlog s @ [Bt_le_ext_adv_set_data c]\<rparr>)"
    using set_adv_data_frame [of pf s] by blast
  then show ?thesis by simp
qed

context pawr_platform
begin

lemma set_adv_data_sim:
  "adv_sim key_of keys tag s a \<Longrightarrow> adv_sim key_of keys tag (snd (set_adv_data pf s)) a"
  by (simp add: adv_sim_def set_adv_data_log set_adv_data_keys)

lemma start_period_sim:
  "adv_sim key_of keys tag s a \<Longrightarrow>
   adv_sim key_of keys tag (start_period pf sub s) (a\<lparr>a_pending := a_pending a + (if sub = 0 then 1 else 0)\<rparr>)"
  using set_adv_data_sim [of keys tag "s\<lparr>rollover := rollover s + 1\<rparr>" "a\<lparr>a_pending := a_pending a + 1\<rparr>"]
  by (simp add: start_period_def adv_sim_def adv_inv_def)

end

lemma expired_abs: "expired sub row (length row) = abs_expired sub (map view row)"
  unfolding expired_def abs_expired_def by (intro map_cong filter_cong) (auto simp: slot_id_def)

text \<open>The loop over the slots of a subevent.\<close>

lemma slot_loop_sim:
  assumes sim: "adv_sim key_of keys tag s a" and sub: "sub < MAX_NUM_SUBEVENTS"
    and acks: "length acks = NUM_RSP_SLOTS"
    and loop: "for_up NUM_RSP_SLOTS (slot_round sub) (s, acks) = (s', acks')"
  shows "adv_sim key_of keys tag s'
      (a\<lparr>a_slots := (a_slots a)[sub := map age (a_slots a ! sub)],
         a_free := take CONFIG_MAX_FREE_SLOTS (a_free a @ abs_expired sub (a_slots a ! sub))\<rparr>)"
    and "map ack_id acks' = map ack_of (a_slots a ! sub)" and "length acks' = NUM_RSP_SLOTS"
proof -
  have inv: "adv_inv s" using sim by (rule adv_simD)
  have len: "length (rsp_slots s ! sub) = NUM_RSP_SLOTS" and l: "sub < length (rsp_slots s)"
    using inv sub by (simp_all add: adv_inv_def rows_ok_def)
  from slot_loop_ok [OF inv sub acks loop] obtain row fl where
    s': "s' = s\<lparr>rsp_slots := (rsp_slots s)[sub := row], free_list := fl\<rparr>" "adv_inv s'"
    and row: "map view row = map age (map view (rsp_slots s ! sub))" and ak: "acks' = row_acks (rsp_slots s ! sub)"
    and fl: "free_slots fl = take CONFIG_MAX_FREE_SLOTS
           (free_slots (free_list s) @ expired sub (rsp_slots s ! sub) NUM_RSP_SLOTS)"
    by blast
  have e: "expired sub (rsp_slots s ! sub) NUM_RSP_SLOTS = abs_expired sub (map view (rsp_slots s ! sub))"
    using expired_abs [of sub "rsp_slots s ! sub"] len by simp
  have v: "a_slots a ! sub = map view (rsp_slots s ! sub)"
    using sim l by (simp add: adv_sim_def)
  show "adv_sim key_of keys tag s'
      (a\<lparr>a_slots := (a_slots a)[sub := map age (a_slots a ! sub)],
         a_free := take CONFIG_MAX_FREE_SLOTS (a_free a @ abs_expired sub (a_slots a ! sub))\<rparr>)"
    using sim s' row fl e v by (simp add: adv_sim_def map_update)
  show "map ack_id acks' = map ack_of (a_slots a ! sub)"
    using v ak by (simp add: row_acks_def)
  show "length acks' = NUM_RSP_SLOTS"
    using ak len by simp
qed

text \<open>The message of a subevent fits its buffer: 206 bytes of acks, the counter and the MAC.\<close>

lemma concat_acks: "acks_wire as = concat (map (le_bytes 2) (map ack_id as))"
  by (simp add: acks_wire_def comp_def)

lemma length_subevent_body [simp]: "length (subevent_body acks c) = 2 * length acks + 8"
  by (induction acks) (auto simp: subevent_body_def)

context pawr_reliable
begin

lemma subevent_bytes:
  assumes "length acks = NUM_RSP_SLOTS" and "length (nb_buf b) = TO_SEND_BUF_SIZE"
    and "key_of p kid = Some (ka, k)" and "signing_key ka"
    and d: "d = \<lparr>register_data = rs, ack_data = acks, sub_counter = c, register_data_count = 0, ack_data_count = NUM_RSP_SLOTS\<rparr>"
  shows "\<exists>b' p'. sign_message pf (subevent_data_with_reg_serialize pf d (net_buf_simple_reset pf b)) kid p
      = (TRANSFER_NO_ERROR, b', p') \<and> key_of p' = key_of p \<and> length (nb_buf b') = TO_SEND_BUF_SIZE \<and>
    nb_data b' = subevent_body (map ack_id acks) c @ mac k (subevent_body (map ack_id acks) c)"
proof -
  let ?b = "net_buf_simple_reset pf b" and ?body = "subevent_body (map ack_id acks) c"
  have wire: "subevent_wire d @ le_bytes 8 (sub_counter d) = ?body"
    using assms(1) by (simp add: d subevent_wire_def subevent_body_def concat_acks regs_wire_def)
  have len: "length ?body = 214"
    using assms(1) by (simp add: NUM_RSP_SLOTS_def)
  have room: "nb_wf ?b" "nb_tailroom ?b = 251"
    using assms(2) by (simp_all add: TO_SEND_BUF_SIZE_def)
  have lw: "length (subevent_wire d) + 8 = 214"
    using arg_cong [OF wire, of length] len by simp
  have ser: "subevent_data_with_reg_serialize pf d ?b = nb_append ?b ?body"
    using subevent_data_with_reg_serialize_eq [OF room(1), of d] lw room(2) assms(1) wire
    by (simp add: d)
  let ?m = "nb_append ?b ?body"
  have m: "nb_wf ?m" "nb_data ?m = ?body" "nb_tailroom ?m = 37" "length (nb_buf ?m) = TO_SEND_BUF_SIZE"
    using room len assms(2) by (simp_all add: nb)
  obtain p' where s: "sign_message pf ?m kid p = (TRANSFER_NO_ERROR, nb_append ?m (mac k (nb_data ?m)), p')"
    and k: "key_of p' = key_of p"
    using sign_signs [OF m(1) _ assms(3,4)] m(3) by (auto simp: HASH_LEN_def)
  have t: "length (mac k ?body) \<le> nb_tailroom ?m"
    using m(3) by (simp add: mac_length)
  show ?thesis
    using s k m t nb_data_append [OF m(1), of "mac k ?body"] nb_size_append [OF m(1), of "mac k ?body"]
    by (simp add: ser)
qed

lemma send_subevent_sim:
  assumes sim: "adv_sim key_of keys (mac k) s a" and key: "keys (ADVERTISER_KEY_ID pf) = Some (ka, k)" "signing_key ka"
    and acks: "length acks = NUM_RSP_SLOTS" and i: "i < MAX_NUM_SUBEVENTS"
  shows "adv_sim key_of keys (mac k) (send_subevent pf i sub acks s)
    (a\<lparr>a_sent := a_sent a @ [(sub, map ack_id acks, a_counter a + a_pending a)]\<rparr>)"
proof -
  have b: "length (nb_buf (bufs s ! i)) = TO_SEND_BUF_SIZE" and l: "length (bufs s) = MAX_NUM_SUBEVENTS"
    using adv_simD(2) [OF sim] i by (simp_all add: bufs_ok_def)
  have key': "key_of (psa_store s) (ADVERTISER_KEY_ID pf) = Some (ka, k)"
    using adv_simD(3) [OF sim] key by simp
  let ?c = "cc_value (counter s) + rollover s"
  let ?d = "\<lparr>register_data = register_subevent_data s, ack_data = acks, sub_counter = ?c,
            register_data_count = 0, ack_data_count = NUM_RSP_SLOTS\<rparr>"
  from subevent_bytes [OF acks b key' key(2) refl, of "register_subevent_data s" ?c] obtain b' p' where
    sign: "sign_message pf (subevent_data_with_reg_serialize pf ?d (net_buf_simple_reset pf (bufs s ! i)))
       (ADVERTISER_KEY_ID pf) (psa_store s) = (TRANSFER_NO_ERROR, b', p')"
    and b': "key_of p' = key_of (psa_store s)" "length (nb_buf b') = TO_SEND_BUF_SIZE"
      "nb_data b' = subevent_body (map ack_id acks) ?c @ mac k (subevent_body (map ack_id acks) ?c)"
    by blast
  let ?p = "subevent_msg (mac k) (sub, map ack_id acks, ?c)"
  have eq: "send_subevent pf i sub acks s = zephyr_do (Bt_le_per_adv_set_subevent_data ?p)
     (s\<lparr>bufs := (bufs s)[i := b'], psa_store := p', subevent_data_params := (subevent_data_params s)[i := ?p],
        subevent_req_counter := subevent_req_counter s + 1\<rparr>)"
    by (simp add: send_subevent_def sign b'(3) subevent_msg_def Let_def)
  have "bufs_ok ((bufs s)[i := b'])"
    using adv_simD(2) [OF sim] b'(2) by (auto simp: bufs_ok_def dest!: set_update_subset_insert [THEN subsetD])
  with sim b'(1) show ?thesis
    by (simp add: eq adv_sim_def adv_inv_def zephyr_do_def)
qed

lemma request_round_sim:
  assumes sim: "adv_sim key_of keys (mac k) s a" and key: "keys (ADVERTISER_KEY_ID pf) = Some (ka, k)" "signing_key ka"
    and acks: "length acks = NUM_RSP_SLOTS" and i: "i < MAX_NUM_SUBEVENTS"
    and r: "request_round pf request i (s, acks) = (s', acks')"
  shows "adv_sim key_of keys (mac k) s' (abs_subevent (sub_ix request i) a)" and "length acks' = NUM_RSP_SLOTS"
proof -
  let ?sub = "sub_ix request i"
  let ?a1 = "a\<lparr>a_pending := a_pending a + (if ?sub = 0 then 1 else 0)\<rparr>"
  have sub: "(unat (req_start request) + i) mod unat (num_subevents (per_adv_params s)) = ?sub"
    using adv_simD(1) [OF sim] by (simp add: adv_inv_def sub_ix_def MAX_NUM_SUBEVENTS_def)
  note s1 = start_period_sim [OF sim, of ?sub]
  obtain s2 where loop: "for_up NUM_RSP_SLOTS (slot_round ?sub) (start_period pf ?sub s, acks) = (s2, acks')"
    and s': "s' = send_subevent pf i ?sub acks' s2"
    using r by (auto simp: request_round_def sub Let_def split: prod.splits)
  note s2 = slot_loop_sim [OF s1 sub_ix_less acks loop]
  show "length acks' = NUM_RSP_SLOTS" by (rule s2(3))
  let ?a2 = "?a1\<lparr>a_slots := (a_slots ?a1)[?sub := map age (a_slots ?a1 ! ?sub)],
    a_free := take CONFIG_MAX_FREE_SLOTS (a_free ?a1 @ abs_expired ?sub (a_slots ?a1 ! ?sub))\<rparr>"
  have "abs_subevent ?sub a = ?a2\<lparr>a_sent := a_sent ?a2 @ [(?sub, map ack_id acks', a_counter ?a2 + a_pending ?a2)]\<rparr>"
    by (rule adv_abs.equality) (simp_all add: abs_subevent_def s2(2) Let_def)
  with send_subevent_sim [OF s2(1) key s2(3) i, of ?sub]
  show "adv_sim key_of keys (mac k) s' (abs_subevent ?sub a)"
    by (simp only: s')
qed

lemma request_cb_sim:
  assumes sim: "adv_sim key_of keys (mac k) s a" and key: "keys (ADVERTISER_KEY_ID pf) = Some (ka, k)" "signing_key ka"
  shows "adv_sim key_of keys (mac k) (request_cb pf request s) (abs_request request a)"
proof -
  let ?n = "min (unat (req_count request)) MAX_NUM_SUBEVENTS"
  define s0 where "s0 = (if rollover s > 0
    then s\<lparr>counter := (counter s)\<lparr>cc_value := cc_value (counter s) + rollover s\<rparr>, rollover := 0\<rparr> else s)"
  let ?a0 = "a\<lparr>a_counter := a_counter a + a_pending a, a_pending := 0\<rparr>"
  have s0: "adv_sim key_of keys (mac k) s0 ?a0"
    using sim by (cases "rollover s = 0") (simp_all add: adv_sim_def adv_inv_def s0_def word_gt_0)
  have n: "min (unat (req_count request)) (length (subevent_data_params s0)) = ?n"
    using adv_simD(1) [OF s0] by (simp add: adv_inv_def)
  have "adv_sim key_of keys (mac k) (fst (for_up m (request_round pf request) (s0, replicate NUM_RSP_SLOTS \<lparr>ack_id = 0\<rparr>)))
      (fold (\<lambda>i. abs_subevent (sub_ix request i)) [0..<m] ?a0) \<and>
    length (snd (for_up m (request_round pf request) (s0, replicate NUM_RSP_SLOTS \<lparr>ack_id = 0\<rparr>))) = NUM_RSP_SLOTS"
    if "m \<le> MAX_NUM_SUBEVENTS" for m
    using that
  proof (induction m)
    case 0
    then show ?case using s0 by simp
  next
    case (Suc m)
    then obtain t ak where l: "for_up m (request_round pf request) (s0, replicate NUM_RSP_SLOTS \<lparr>ack_id = 0\<rparr>) = (t, ak)"
      and IH: "adv_sim key_of keys (mac k) t (fold (\<lambda>i. abs_subevent (sub_ix request i)) [0..<m] ?a0)"
        "length ak = NUM_RSP_SLOTS"
      by (metis Suc_leD fst_conv snd_conv prod.exhaust)
    obtain t' ak' where r: "request_round pf request m (t, ak) = (t', ak')"
      by (metis prod.exhaust)
    from request_round_sim [OF IH(1) key IH(2) _ r] Suc.prems show ?case
      by (simp add: l r)
  qed
  from this [of ?n] show ?thesis
    by (simp add: request_cb_def abs_request_def n flip: s0_def)
qed

end

end
