(* ===== verification/Advertiser_Response.thy ===== *)
theory Advertiser_Response
  imports Advertiser_Spec
begin

text \<open>
  The response callback implements \<open>abs_response\<close>, with the verdict that \<open>judge\<close>
  reads off the bytes of the message: it knows the keys and the counter, and no buffers.
\<close>

section \<open>The verdict on the bytes of a response\<close>

text \<open>The sender in the metadata of a response: the six bytes before the data, whose length is
  the last byte.\<close>

definition response_sender :: "byte list \<Rightarrow> u16 option" where
  "response_sender m =
     (if m = [] \<or> length m < unat (last m) + 7 then None
      else Some (of_le (take 2 (drop (length m - unat (last m) - 7) m))))"

definition key_mac ::
    "(byte list \<Rightarrow> byte list \<Rightarrow> byte list) \<Rightarrow> (psa_key_id_t \<Rightarrow> stored_key option) \<Rightarrow> psa_key_id_t \<Rightarrow>
     byte list \<Rightarrow> byte list option" where
  "key_mac mac keys kid m =
     (case keys kid of None \<Rightarrow> None | Some (a, k) \<Rightarrow> if signing_key a then Some (mac k m) else None)"

text \<open>A key that two devices share: stored on both sides as a signing key with the same bytes.\<close>

definition key_is :: "(psa_key_id_t \<Rightarrow> stored_key option) \<Rightarrow> psa_key_id_t \<Rightarrow> byte list \<Rightarrow> bool" where
  "key_is keys kid k \<longleftrightarrow> (\<exists>a. keys kid = Some (a, k) \<and> signing_key a)"

lemma key_mac_key: "key_is keys kid k \<Longrightarrow> key_mac mac keys kid m = Some (mac k m)"
  by (auto simp: key_is_def key_mac_def)

definition judge ::
    "'p platform \<Rightarrow> (byte list \<Rightarrow> byte list \<Rightarrow> byte list) \<Rightarrow> (psa_key_id_t \<Rightarrow> stored_key option) \<Rightarrow>
     u64 \<Rightarrow> byte list \<Rightarrow> verdict" where
  "judge pf mac keys c m =
     (if length m < HASH_LEN + 8 then Ignored
      else case response_sender (take (length m - (HASH_LEN + 8)) m) of
             None \<Rightarrow> Ignored
           | Some d \<Rightarrow>
               let (e, _, c') = verify_spec (key_mac mac keys (scanner_key_id pf d)) m c
               in if e = TRANSFER_NO_ERROR then Verified d c' else Rejected)"

context zephyr_net_buf
begin

lemma response_deserialize_bytes:
  assumes wf: "nb_wf b" and d: "response_data_deserialize pf res b = (e, r, b')"
  shows "case response_sender (nb_data b) of None \<Rightarrow> e = TRANSFER_MESSAGE_TO_SHORT
    | Some i \<Rightarrow> e = TRANSFER_NO_ERROR \<and> sender_id (rsp_metadata r) = i"
    and "nb_buf b' = nb_buf b"
proof -
  let ?m = "nb_data b" and ?n = "unat (last (nb_data b))"
  have len: "length ?m = nb_len b" using wf by simp
  have last1: "of_le (nb_last b 1) = last ?m" if "nb_len b \<noteq> 0"
  proof -
    have "?m \<noteq> []" using that len by auto
    then have "drop (nb_len b - 1) ?m = [last ?m]"
      by (metis append_butlast_last_id append_eq_conv_conj len length_butlast)
    then show ?thesis using that by (simp add: nb_last_eq)
  qed
  have two: "drop (l - 2) (take l ?m) = take 2 (drop (l - 2) ?m)" if "2 \<le> l" for l
    using that by (simp add: drop_take)
  show "case response_sender (nb_data b) of None \<Rightarrow> e = TRANSFER_MESSAGE_TO_SHORT
    | Some i \<Rightarrow> e = TRANSFER_NO_ERROR \<and> sender_id (rsp_metadata r) = i" and "nb_buf b' = nb_buf b"
  proof (atomize (full), cases "nb_len b = 0 \<or> nb_len b < ?n + 7")
    case True
    then have "response_sender ?m = None"
      using len by (auto simp: response_sender_def)
    with d wf True last1 show "(case response_sender ?m of None \<Rightarrow> e = TRANSFER_MESSAGE_TO_SHORT
      | Some i \<Rightarrow> e = TRANSFER_NO_ERROR \<and> sender_id (rsp_metadata r) = i) \<and> nb_buf b' = nb_buf b"
      by (auto simp: response_data_deserialize_def nb_remove_u8 Let_def split: if_splits)
  next
    case False
    let ?l = "nb_len b - ?n - 5"
    have l: "2 \<le> ?l" "?l - 2 = nb_len b - ?n - 7" using False by auto
    have s: "response_sender ?m = Some (of_le (take 2 (drop (?l - 2) ?m)))"
      using False len l by (auto simp: response_sender_def)
    have "nb_last (nb_chop b (?n + 5)) 2 = take 2 (drop (?l - 2) ?m)"
      using False two [of ?l] l by (simp add: nb_last_eq nb_data_chop)
    with s d wf False last1 show "(case response_sender ?m of None \<Rightarrow> e = TRANSFER_MESSAGE_TO_SHORT
      | Some i \<Rightarrow> e = TRANSFER_NO_ERROR \<and> sender_id (rsp_metadata r) = i) \<and> nb_buf b' = nb_buf b"
      by (auto simp: response_data_deserialize_def nb_removes nb_wf_chop Let_def add.commute split: if_splits)
  qed
qed

end

text \<open>The MAC that PSA computes is the one of the stored key.\<close>

lemma mac_of_key_mac:
  assumes "pawr_reliable pf key_of mac"
  shows "mac_of pf kid p = key_mac mac (key_of p) kid"
proof
  fix m
  show "mac_of pf kid p m = key_mac mac (key_of p) kid m"
  proof (cases "mac_of pf kid p m")
    case None
    then show ?thesis
      using pawr_reliable.mac_of_key [OF assms, of p kid _ _ m]
      by (force simp: key_mac_def split: option.split)
  next
    case (Some t)
    from pawr_platform.mac_of_Some [OF pawr_reliable.axioms(1) [OF assms] this] Some show ?thesis
      by (auto simp: key_mac_def)
  qed
qed

section \<open>Reserving and replacing slots\<close>

lemma reserve_slot_sim:
  assumes sim: "adv_sim key_of keys tag s a" and r: "reserve_slot s = (r, s')"
  shows "fst (abs_reserve a) = r" and "adv_sim key_of keys tag s' (snd (abs_reserve a))"
proof -
  have inv: "adv_inv s" using sim by (rule adv_simD)
  then have fl: "free_list_inv (free_list s)" by (simp add: adv_inv_def)
  from reserve_slot_inv [OF inv r] have inv': "adv_inv s'" by simp
  have "fst (abs_reserve a) = r \<and> adv_sim key_of keys tag s' (snd (abs_reserve a))"
  proof (cases "free_slots (free_list s) = []")
    case True
    with reserve_slot_empty [OF fl True] r have "r = last_used s" "s' = s\<lparr>last_used := next_slot (last_used s)\<rparr>"
      by simp_all
    with sim True inv' show ?thesis by (simp add: adv_sim_def abs_reserve_def)
  next
    case False
    from reserve_slot_free [OF fl False] r obtain fl' where
      "r = last (free_slots (free_list s))" "s' = s\<lparr>free_list := fl'\<rparr>"
      "free_slots fl' = butlast (free_slots (free_list s))"
      by auto
    with sim False inv' show ?thesis by (simp add: adv_sim_def abs_reserve_def)
  qed
  then show "fst (abs_reserve a) = r" and "adv_sim key_of keys tag s' (snd (abs_reserve a))" by simp_all
qed

lemma replace_sim:
  assumes sim: "adv_sim key_of keys tag s a"
  shows "adv_sim key_of keys tag (replace_register_slot CONFIG_NUM_REGISTER_SLOTS sub j s)
     (abs_replace \<lparr>subevent = sub, rsp_slot = j\<rparr> a)"
proof -
  have inv: "adv_inv s" using sim by (rule adv_simD)
  have regs: "a_regs a = register_subevent_data s" "length (register_subevent_data s) = CONFIG_NUM_REGISTER_SLOTS"
    using sim inv by (simp_all add: adv_sim_def adv_inv_def)
  obtain r s' where r: "reserve_slot s = (r, s')" by (metis prod.exhaust)
  obtain a' where a': "abs_reserve a = (r, a')"
    using reserve_slot_sim(1) [OF sim r] by (metis prod.collapse)
  have sim': "adv_sim key_of keys tag s' a'"
    using reserve_slot_sim(2) [OF sim r] a' by simp
  have upd: "adv_sim key_of keys tag (s'\<lparr>register_subevent_data := (register_subevent_data s')[i := r]\<rparr>)
      (a'\<lparr>a_regs := (a_regs a')[i := r]\<rparr>)" for i
    using sim' reserve_into_inv [OF inv r] by (simp add: adv_sim_def)
  show ?thesis
    using sim upd unfolding abs_replace_def regs replace_register_slot_eq [OF order.refl]
    by (simp add: reserve_register_slot_def r a' split: list.split)
qed

lemma set_slot_sim:
  assumes sim: "adv_sim key_of keys tag s a" and ok: "slot_ok sl"
    and ix: "sub < MAX_NUM_SUBEVENTS" "j < NUM_RSP_SLOTS"
  shows "adv_sim key_of keys tag (set_slot sub j sl s) (abs_set sub j (view sl) a)"
proof -
  have "sub < length (rsp_slots s)"
    using adv_simD(1) [OF sim] ix by (simp add: adv_inv_def rows_ok_def)
  with sim set_slot_inv [OF adv_simD(1) [OF sim] ok ix(1), of j] show ?thesis
    by (simp add: adv_sim_def set_slot_def abs_set_def map_update)
qed

section \<open>The response callback\<close>

lemma slot_id_info: "slot_id (unat a) (unat b) = \<lparr>subevent = a, rsp_slot = b\<rparr>"
  by (simp add: slot_id_def)

lemma reject_sim:
  assumes sim: "adv_sim key_of keys tag s a"
    and ix: "unat (rsp_subevent info) < MAX_NUM_SUBEVENTS" "unat (rsp_response_slot info) < NUM_RSP_SLOTS"
  shows "adv_sim key_of keys tag (reject_response pf info s)
    (abs_response (unat (rsp_subevent info)) (unat (rsp_response_slot info)) Rejected a)"
proof -
  let ?sub = "unat (rsp_subevent info)" and ?j = "unat (rsp_response_slot info)"
  let ?sl = "(slot_at pf s ?sub ?j)\<lparr>dev_id := 0\<rparr>"
  have ok: "slot_ok ?sl" and v: "view ?sl = Free" by (simp_all add: slot_ok_def view_def)
  let ?s = "set_slot ?sub ?j ?sl s" and ?d = "\<lparr>subevent = rsp_subevent info, rsp_slot = rsp_response_slot info\<rparr>"
  have s: "adv_sim key_of keys tag ?s (abs_set ?sub ?j Free a)"
    using set_slot_sim [OF sim ok ix] v by simp
  then have fl: "free_list_inv (free_list ?s)" by (simp add: adv_sim_def adv_inv_def)
  from fls.append_list [OF fl, of "[?d]"]
  have fl': "free_list_inv (snd (free_list_append ?d (free_list ?s)))"
    "free_slots (snd (free_list_append ?d (free_list ?s))) = take CONFIG_MAX_FREE_SLOTS (free_slots (free_list ?s) @ [?d])"
    by simp_all
  have d: "slot_ix ?d" using ix by (simp add: slot_ix_def)
  have "adv_inv (?s\<lparr>free_list := snd (free_list_append ?d (free_list ?s))\<rparr>)"
    using adv_simD(1) [OF s] fl' d by (auto simp: adv_inv_def dest!: in_set_takeD)
  with s fl'(2) show ?thesis
    by (simp add: adv_sim_def reject_response_def slot_id_info abs_set_def Let_def)
qed

context pawr_reliable
begin

lemma accept_sim:
  assumes sim: "adv_sim key_of keys tag s a" and d: "sender_id (current_rsp s) = d"
    and ix: "unat (rsp_subevent info) < MAX_NUM_SUBEVENTS" "unat (rsp_response_slot info) < NUM_RSP_SLOTS"
  shows "adv_sim key_of keys tag (accept_response pf info s)
    (abs_response (unat (rsp_subevent info)) (unat (rsp_response_slot info)) (Verified d (a_counter a)) a)"
proof -
  let ?sub = "unat (rsp_subevent info)" and ?j = "unat (rsp_response_slot info)"
  let ?s = "snd (set_adv_data pf s)"
  have s: "adv_sim key_of keys tag ?s a" using sim by (rule set_adv_data_sim)
  note at = slot_at_ok [OF adv_simD(1) [OF s] ix, of pf]
  have l: "?sub < length (rsp_slots ?s)" "?j < length (rsp_slots ?s ! ?sub)"
    using adv_simD(1) [OF s] ix by (simp_all add: adv_inv_def rows_ok_def)
  then have v: "a_slots a ! ?sub ! ?j = view (slot_at pf ?s ?sub ?j)"
    using s at(1) by (simp add: adv_sim_def)
  have same: "a\<lparr>a_counter := a_counter a\<rparr> = a" by simp
  have d': "sender_id (current_rsp ?s) = d" using d by simp
  show ?thesis
  proof (cases "dev_id (slot_at pf ?s ?sub ?j) = 0")
    case True
    have ok: "slot_ok \<lparr>dev_id = d, inactive_for = 0\<rparr>" and h: "view \<lparr>dev_id = d, inactive_for = 0\<rparr> = hold d"
      by (simp_all add: slot_ok_def view_def hold_def)
    from set_adv_data_sim [OF replace_sim [OF set_slot_sim [OF s ok ix]]] True v h
    show ?thesis
      by (simp add: accept_response_def d d' slot_id_info view_def Let_def same split_beta)
  next
    case False
    let ?sl = "(slot_at pf ?s ?sub ?j)\<lparr>inactive_for := 0\<rparr>"
    have ok: "slot_ok ?sl" and h: "view ?sl = Held (dev_id (slot_at pf ?s ?sub ?j)) 0"
      using False by (simp_all add: slot_ok_def view_def)
    from set_slot_sim [OF s ok ix] s False v h show ?thesis
      by (auto simp add: accept_response_def d d' view_def Let_def same split_beta)
  qed
qed

end

lemma response_cb_verified:
  assumes "zephyr_net_buf pf" and "nb_wf b" and "HASH_LEN + 8 \<le> nb_len b"
    and "response_sender (take (nb_len b - (HASH_LEN + 8)) (nb_data b)) = Some d"
  shows "\<exists>m. sender_id m = d \<and> response_cb pf info (Some b) s =
     (let s = s\<lparr>current_rsp := m\<rparr>;
          (e, _, c, p) = verify_message pf b (scanner_key_id pf d) (cc_value (counter s)) (psa_store s);
          s = s\<lparr>counter := (counter s)\<lparr>cc_value := c\<rparr>, psa_store := p\<rparr>
      in if e \<noteq> TRANSFER_NO_ERROR then reject_response pf info s else accept_response pf info s)"
proof -
  let ?b = "nb_chop b (HASH_LEN + 8)"
  obtain e r b1 where d: "response_data_deserialize pf
      \<lparr>rsp_metadata = \<lparr>sender_id = 0, rsp_counter = 0\<rparr>, rsp_data = [], data_len = 0, resp_counter = 0\<rparr> ?b = (e, r, b1)"
    by (metis prod.exhaust)
  from zephyr_net_buf.response_deserialize_bytes [OF assms(1) _ d] assms(2,4)
  have r: "e = TRANSFER_NO_ERROR" "sender_id (rsp_metadata r) = d" "nb_buf b1 = nb_buf b"
    by (simp_all add: nb_wf_chop nb_data_chop)
  have "net_buf_simple_restore pf b1 (net_buf_simple_save pf b) = b"
    using r(3) assms(1) by (simp add: zephyr_net_buf.nb_restore zephyr_net_buf.nb_save)
  with d r assms show ?thesis
    by (intro exI [of _ "rsp_metadata r"])
       (simp add: response_cb_def SIZEOF_U64_def zephyr_net_buf.nb_remove_mem not_less
         Let_def split_beta)
qed

lemma response_cb_ignored:
  assumes "zephyr_net_buf pf" and "nb_wf b"
    and "nb_len b < HASH_LEN + 8 \<or> response_sender (take (nb_len b - (HASH_LEN + 8)) (nb_data b)) = None"
  shows "response_cb pf info (Some b) s = s"
proof (cases "nb_len b < HASH_LEN + 8")
  case True
  then show ?thesis by (simp add: response_cb_def SIZEOF_U64_def)
next
  case False
  let ?b = "nb_chop b (HASH_LEN + 8)"
  obtain e r b1 where d: "response_data_deserialize pf
      \<lparr>rsp_metadata = \<lparr>sender_id = 0, rsp_counter = 0\<rparr>, rsp_data = [], data_len = 0, resp_counter = 0\<rparr> ?b = (e, r, b1)"
    by (metis prod.exhaust)
  from zephyr_net_buf.response_deserialize_bytes(1) [OF assms(1) _ d] assms(2,3) False
  have "e = TRANSFER_MESSAGE_TO_SHORT"
    by (simp add: nb_wf_chop nb_data_chop)
  with d False assms(1,2) show ?thesis
    by (simp add: response_cb_def SIZEOF_U64_def zephyr_net_buf.nb_remove_mem Let_def)
qed

context pawr_reliable
begin

lemma response_cb_sim:
  assumes sim: "adv_sim key_of keys tag s a" and wf: "nb_wf b"
    and ix: "unat (rsp_subevent info) < MAX_NUM_SUBEVENTS" "unat (rsp_response_slot info) < NUM_RSP_SLOTS"
  shows "adv_sim key_of keys tag (response_cb pf info (Some b) s)
    (abs_response (unat (rsp_subevent info)) (unat (rsp_response_slot info))
      (judge pf mac keys (a_counter a) (nb_data b)) a)"
proof (cases "nb_len b < HASH_LEN + 8 \<or> response_sender (take (nb_len b - (HASH_LEN + 8)) (nb_data b)) = None")
  case True
  then have "judge pf mac keys (a_counter a) (nb_data b) = Ignored"
    using wf by (auto simp: judge_def)
  with response_cb_ignored [OF zephyr_net_buf_axioms wf True] sim show ?thesis by simp
next
  case False
  then obtain d where d: "response_sender (take (nb_len b - (HASH_LEN + 8)) (nb_data b)) = Some d" by auto
  from False have len: "HASH_LEN + 8 \<le> nb_len b" by simp
  from response_cb_verified [OF zephyr_net_buf_axioms wf len d, of info s] obtain m where
    m: "sender_id m = d" and eq: "response_cb pf info (Some b) s =
     (let s = s\<lparr>current_rsp := m\<rparr>;
          (e, _, c, p) = verify_message pf b (scanner_key_id pf d) (cc_value (counter s)) (psa_store s);
          s = s\<lparr>counter := (counter s)\<lparr>cc_value := c\<rparr>, psa_store := p\<rparr>
      in if e \<noteq> TRANSFER_NO_ERROR then reject_response pf info s else accept_response pf info s)"
    by blast
  obtain e b2 c p where v: "verify_message pf b (scanner_key_id pf d) (cc_value (counter s)) (psa_store s) = (e, b2, c, p)"
    by (metis prod.exhaust)
  from verify_refines [OF wf, of "scanner_key_id pf d" "cc_value (counter s)" "psa_store s"] v sim
  have spec: "verify_spec (key_mac mac keys (scanner_key_id pf d)) (nb_data b) (a_counter a) = (e, nb_data b2, c)"
    and p: "key_of p = keys"
    by (auto simp: adv_sim_def mac_of_key_mac [OF pawr_reliable_axioms])
  have j: "judge pf mac keys (a_counter a) (nb_data b) = (if e = TRANSFER_NO_ERROR then Verified d c else Rejected)"
    using wf len d spec by (simp add: judge_def)
  let ?s = "s\<lparr>current_rsp := m, counter := (counter s)\<lparr>cc_value := c\<rparr>, psa_store := p\<rparr>"
  have s: "adv_sim key_of keys tag ?s (a\<lparr>a_counter := c\<rparr>)"
    using sim p by (simp add: adv_sim_def adv_inv_def)
  show ?thesis
  proof (cases "e = TRANSFER_NO_ERROR")
    case True
    from accept_sim [OF s _ ix, of d] m show ?thesis
      by (simp add: eq v j True Let_def)
  next
    case False
    then have "a_counter a = c"
      using verify_counter(2) [OF wf v] sim by (simp add: adv_sim_def)
    then have "a\<lparr>a_counter := c\<rparr> = a" by simp
    with reject_sim [OF s ix, of pf] False show ?thesis
      by (simp add: eq v j)
  qed
qed

end

end
