(* ===== verification/Advertiser_Run.thy ===== *)
theory Advertiser_Run
  imports Advertiser_Response
begin

text \<open>
  The advertiser as a transition system: the main thread runs one state function at a time, the
  Bluetooth host and the button call back between its steps, a reboot starts over with what is
  left in the PSA store. The invariant holds in every reachable state, whatever the platform
  answers; no law of the platform is used for it.
\<close>

section \<open>Initialisation\<close>

lemma adv_inv_log [simp]: "adv_inv (s\<lparr>zlog := l\<rparr>) = adv_inv s"
  by (simp add: adv_inv_def)

lemma adv_inv_do [simp]: "adv_inv (zephyr_do c s) = adv_inv s"
  by (simp add: zephyr_do_def)

lemma init_led_inv [simp]: "adv_inv (snd (init_led pf led s)) = adv_inv s"
  using init_led_log [of pf led s] by auto

lemma init_button_inv [simp]: "adv_inv (snd (init_button pf s)) = adv_inv s"
  using init_button_log [of pf s] by auto

lemma init_bufs_inv: "adv_inv s \<Longrightarrow> adv_inv (init_bufs pf s)"
proof -
  assume "adv_inv s"
  then have "adv_inv (for_up n reserve_register_slot s)" for n
    by (induction n) (simp_all add: reserve_register_slot_inv)
  moreover have "adv_inv (for_up n (init_buf pf) s) = adv_inv s" for n and s :: "'a advertiser"
    by (rule for_up_keeps) (simp add: init_buf_def adv_inv_def)
  ultimately show ?thesis
    by (simp add: init_bufs_def Let_def)
qed

lemma adv_check_inv:
  assumes "\<And>s. adv_inv s \<Longrightarrow> adv_inv (snd (k s))" and "adv_inv s"
  shows "adv_inv (snd (adv_check pf c k s))"
  using assms by (simp add: adv_check_def zephyr_call_def Let_def)

lemma adv_init_inv:
  assumes "adv_inv s"
  shows "adv_inv (snd (adv_init pf s))"
proof -
  let ?s = "init_bufs pf (snd (init_button pf (snd (init_led pf led1 (zephyr_do (K_sleep 5000) s)))))"
  have s: "adv_inv ?s" using assms by (intro init_bufs_inv) simp
  have upd: "adv_inv (s\<lparr>psa_store := p\<rparr>) = adv_inv s" "adv_inv (s\<lparr>counter := c\<rparr>) = adv_inv s"
    "adv_inv (s\<lparr>selection_data := d\<rparr>) = adv_inv s"
    "adv_inv s \<Longrightarrow> adv_inv (s\<lparr>per_adv_params := (per_adv_params s)\<lparr>num_subevents := of_nat MAX_NUM_SUBEVENTS\<rparr>\<rparr>)"
    for s :: "'a advertiser" and p c d
    by (simp_all add: adv_inv_def)
  show ?thesis
    unfolding adv_init_def adv_start_def Let_def split_beta
    using s by (auto simp: upd intro!: adv_check_inv)
qed

lemma adv_init_states: "fst (adv_init pf s) \<in> {ADVERTISING, FAULT_HANDLING}"
  by (simp add: adv_init_def adv_start_def adv_check_def split_beta Let_def)

section \<open>The transition system\<close>

inductive adv_step :: "'p platform \<Rightarrow> 'p advertiser \<Rightarrow> 'p advertiser \<Rightarrow> bool" for pf :: "'p platform" where
  adv_main: "adv_loop_round pf s = Some s' \<Longrightarrow> adv_step pf s s'"
| adv_request: "curr_state s \<noteq> INITIALIZE \<Longrightarrow> adv_step pf s (request_cb pf request s)"
| adv_response: "curr_state s \<noteq> INITIALIZE \<Longrightarrow> info_ok info \<Longrightarrow> adv_step pf s (response_cb pf info buf s)"
| adv_button: "adv_step pf s (button_cb pf s)"
| adv_fault: "curr_state s = FAULT_HANDLING \<Longrightarrow> adv_step pf s (adv_boot pf (psa_store (adv_fault_handling pf s)))"
| adv_reboot: "curr_state s = SOFT_REBOOT \<Longrightarrow> adv_step pf s (adv_boot pf (psa_store (adv_soft_reboot pf s)))"

inductive adv_reach :: "'p platform \<Rightarrow> 'p \<Rightarrow> 'p advertiser \<Rightarrow> bool" for pf :: "'p platform" and p0 :: 'p where
  reach_boot: "adv_reach pf p0 (adv_boot pf p0)"
| reach_step: "adv_reach pf p0 s \<Longrightarrow> adv_step pf s s' \<Longrightarrow> adv_reach pf p0 s'"

inductive_cases adv_stepE: "adv_step pf s s'"

lemma adv_loop_round_cases:
  assumes "adv_loop_round pf s = Some s'"
  obtains (init) "curr_state s = INITIALIZE"
      "s' = (snd (adv_init pf s))\<lparr>curr_state := fst (adv_init pf s)\<rparr>"
  | (advertising) sem where "curr_state s = ADVERTISING" "k_sem_take_now pf (reboot_sem s) = Some sem"
      "s' = s\<lparr>reboot_sem := sem, curr_state := SOFT_REBOOT\<rparr>"
  using assms
  by (cases "curr_state s")
     (auto simp: adv_loop_round_def adv_run_state_def adv_advertising_def split_beta split: option.splits)

lemma adv_step_inv: "adv_step pf s s' \<Longrightarrow> adv_inv s \<Longrightarrow> adv_inv s'"
proof (induction rule: adv_step.induct)
  case (adv_main s s')
  from adv_main(1) show ?case
  proof (cases rule: adv_loop_round_cases)
    case init
    with adv_init_inv [OF adv_main(2), of pf] show ?thesis by (simp add: adv_inv_def)
  next
    case advertising
    with adv_main(2) show ?thesis by (simp add: adv_inv_def)
  qed
next
  case (adv_button s)
  then show ?case by (simp add: adv_inv_def button_cb_def)
qed (simp_all add: request_cb_inv response_cb_inv adv_inv_boot)

section \<open>The life of one slot under requests\<close>

definition covers :: "bt_le_per_adv_data_request \<Rightarrow> nat \<Rightarrow> bool" where
  "covers request sub \<longleftrightarrow> (\<exists>i < min (unat (req_count request)) MAX_NUM_SUBEVENTS. sub_ix request i = sub)"

lemma start_period_fields [simp]:
  "rsp_slots (start_period pf sub s) = rsp_slots s"
  "counter (start_period pf sub s) = counter s"
  "rollover (start_period pf sub s) = rollover s + (if sub = 0 then 1 else 0)"
  "curr_state (start_period pf sub s) = curr_state s"
  by (simp_all add: start_period_def)

lemma send_subevent_simps [simp]:
  "rsp_slots (send_subevent pf i sub acks s) = rsp_slots s"
  "counter (send_subevent pf i sub acks s) = counter s"
  "rollover (send_subevent pf i sub acks s) = rollover s"
  "curr_state (send_subevent pf i sub acks s) = curr_state s"
  using send_subevent_fields [of pf i sub acks s] by auto

lemma request_round_row:
  assumes inv: "adv_inv s" and acks: "length acks = NUM_RSP_SLOTS" and r: "request_round pf request i (s, acks) = (s', acks')"
  shows "\<exists>row. rsp_slots s' = (rsp_slots s)[sub_ix request i := row] \<and>
     map view row = map age (map view (rsp_slots s ! sub_ix request i)) \<and>
     counter s' = counter s \<and> rollover s' = rollover s + (if sub_ix request i = 0 then 1 else 0)"
proof -
  let ?sub = "sub_ix request i"
  have sub: "(unat (req_start request) + i) mod unat (num_subevents (per_adv_params s)) = ?sub"
    using inv by (simp add: adv_inv_def sub_ix_def MAX_NUM_SUBEVENTS_def)
  obtain s2 ak where loop: "for_up NUM_RSP_SLOTS (slot_round ?sub) (start_period pf ?sub s, acks) = (s2, ak)"
    by (metis prod.exhaust)
  with r have s': "s' = send_subevent pf i ?sub acks' s2"
    by (auto simp: request_round_def sub Let_def)
  have inv1: "adv_inv (start_period pf ?sub s)" using inv by simp
  from slot_loop_ok [OF inv1 sub_ix_less acks loop] obtain row fl where
    "s2 = (start_period pf ?sub s)\<lparr>rsp_slots := (rsp_slots (start_period pf ?sub s))[?sub := row], free_list := fl\<rparr>"
    "map view row = map age (map view (rsp_slots s ! ?sub))"
    by (metis start_period_fields(1))
  then show ?thesis
    by (intro exI [of _ row]) (simp add: s')
qed

text \<open>The number of rounds of a request that start a new period.\<close>

definition periods :: "bt_le_per_adv_data_request \<Rightarrow> nat \<Rightarrow> nat" where
  "periods request n = length (filter (\<lambda>i. sub_ix request i = 0) [0..<n])"

lemma request_loop_rows:
  assumes inv: "adv_inv s" and acks: "length acks = NUM_RSP_SLOTS" and n: "n \<le> MAX_NUM_SUBEVENTS"
    and l: "for_up n (request_round pf request) (s, acks) = (s', acks')"
  shows "adv_inv s' \<and> length acks' = NUM_RSP_SLOTS \<and> counter s' = counter s \<and>
    rollover s' = rollover s + of_nat (periods request n) \<and>
    (\<forall>sub < MAX_NUM_SUBEVENTS. map view (rsp_slots s' ! sub) =
       (if \<exists>i < n. sub_ix request i = sub then map age (map view (rsp_slots s ! sub)) else map view (rsp_slots s ! sub)))"
  using n l
proof (induction n arbitrary: s' acks')
  case 0
  then show ?case using inv acks by (simp add: periods_def)
next
  case (Suc n)
  obtain t ak where t: "for_up n (request_round pf request) (s, acks) = (t, ak)" by (metis prod.exhaust)
  note IH = Suc.IH [OF _ t]
  have r: "request_round pf request n (t, ak) = (s', acks')" using Suc.prems t by simp
  from IH Suc.prems have t': "adv_inv t" "length ak = NUM_RSP_SLOTS" by simp_all
  from request_round_row [OF this r] obtain row where
    row: "rsp_slots s' = (rsp_slots t)[sub_ix request n := row]"
      "map view row = map age (map view (rsp_slots t ! sub_ix request n))"
      "counter s' = counter t" "rollover s' = rollover t + (if sub_ix request n = 0 then 1 else 0)"
    by blast
  have fresh: "\<not> (\<exists>i < n. sub_ix request i = sub_ix request n)"
    using sub_ix_inj [of request _ n] Suc.prems(1) by force
  have len: "length (rsp_slots t) = MAX_NUM_SUBEVENTS"
    using t'(1) by (simp add: adv_inv_def rows_ok_def)
  have "map view (rsp_slots s' ! sub) =
     (if \<exists>i < Suc n. sub_ix request i = sub then map age (map view (rsp_slots s ! sub)) else map view (rsp_slots s ! sub))"
    if sub: "sub < MAX_NUM_SUBEVENTS" for sub
  proof (cases "sub_ix request n = sub")
    case True
    then show ?thesis
      using IH Suc.prems(1) row(1,2) fresh sub len by auto
  next
    case False
    then have "(\<exists>i < Suc n. sub_ix request i = sub) = (\<exists>i < n. sub_ix request i = sub)"
      by (auto simp: less_Suc_eq)
    then show ?thesis
      using IH Suc.prems(1) row(1) False sub by simp
  qed
  then show ?case
    using request_round_inv [OF t' r] row(3,4) IH Suc.prems(1) by (simp add: periods_def)
qed

text \<open>A request ages the slots of the subevents it covers, and moves the counter.\<close>

lemma request_cb_effect:
  assumes inv: "adv_inv s"
  shows "sub < MAX_NUM_SUBEVENTS \<Longrightarrow> map view (rsp_slots (request_cb pf request s) ! sub) =
      (if covers request sub then map age (map view (rsp_slots s ! sub)) else map view (rsp_slots s ! sub))"
    and "cc_value (counter (request_cb pf request s)) = cc_value (counter s) + rollover s"
    and "rollover (request_cb pf request s) = of_nat (periods request (min (unat (req_count request)) MAX_NUM_SUBEVENTS))"
proof -
  let ?n = "min (unat (req_count request)) MAX_NUM_SUBEVENTS"
  define s0 where "s0 = (if rollover s > 0
    then s\<lparr>counter := (counter s)\<lparr>cc_value := cc_value (counter s) + rollover s\<rparr>, rollover := 0\<rparr> else s)"
  have s0: "adv_inv s0" "rsp_slots s0 = rsp_slots s" "cc_value (counter s0) = cc_value (counter s) + rollover s" "rollover s0 = 0"
    using inv by (cases "rollover s = 0"; simp add: adv_inv_def s0_def word_gt_0)+
  obtain s' acks' where l: "for_up ?n (request_round pf request) (s0, replicate NUM_RSP_SLOTS \<lparr>ack_id = 0\<rparr>) = (s', acks')"
    by (metis prod.exhaust)
  have "length (subevent_data_params s0) = MAX_NUM_SUBEVENTS"
    using s0(1) by (simp add: adv_inv_def)
  with l have s': "request_cb pf request s = s'"
    by (simp add: request_cb_def flip: s0_def)
  from request_loop_rows [OF s0(1) _ _ l] s0 show
    "sub < MAX_NUM_SUBEVENTS \<Longrightarrow> map view (rsp_slots (request_cb pf request s) ! sub) =
      (if covers request sub then map age (map view (rsp_slots s ! sub)) else map view (rsp_slots s ! sub))"
    "cc_value (counter (request_cb pf request s)) = cc_value (counter s) + rollover s"
    "rollover (request_cb pf request s) = of_nat (periods request ?n)"
    by (auto simp add: s' covers_def)
qed

lemma request_cb_slot:
  assumes inv: "adv_inv s" and sub: "sub < MAX_NUM_SUBEVENTS" and j: "j < NUM_RSP_SLOTS"
  shows "view (rsp_slots (request_cb pf request s) ! sub ! j) =
    (if covers request sub then age (view (rsp_slots s ! sub ! j)) else view (rsp_slots s ! sub ! j))"
proof -
  let ?s = "request_cb pf request s"
  have len: "length (rsp_slots s ! sub) = NUM_RSP_SLOTS" "length (rsp_slots ?s ! sub) = NUM_RSP_SLOTS"
    using inv request_cb_inv [OF inv, of pf request] rows_ok_row [OF _ sub] by (simp_all add: adv_inv_def)
  from arg_cong [OF request_cb_effect(1) [OF inv sub, of pf request], of "\<lambda>r. r ! j"] len j show ?thesis
    by (auto split: if_splits)
qed

lemma age_Held: "n + m \<le> MAX_SILENT \<Longrightarrow> (age ^^ n) (Held d m) = Held d (n + m)"
  by (induction n) auto

lemma age_Free [simp]: "(age ^^ n) Free = Free"
  by (induction n) auto

text \<open>However long it was held, no slot survives ten rounds of silence.\<close>

lemma age_expires: "MAX_SILENT < n \<Longrightarrow> (age ^^ n) v = Free"
proof (cases v)
  case (Held d m)
  assume n: "MAX_SILENT < n"
  show ?thesis
  proof (cases "m \<le> MAX_SILENT")
    case True
    define k where "k = MAX_SILENT - m"
    have "(age ^^ Suc k) v = Free"
      using True age_Held [of k m d] Held by (simp add: k_def)
    moreover have "n = (n - Suc k) + Suc k" using n by (simp add: k_def)
    ultimately show ?thesis
      by (metis age_Free funpow_add comp_apply)
  next
    case False
    then have "age v = Free" using Held by simp
    moreover have "n = Suc (n - 1)" using n by simp
    ultimately show ?thesis
      by (metis age_Free funpow_Suc_right comp_apply)
  qed
qed simp

lemma requests_age:
  "adv_inv s \<Longrightarrow> sub < MAX_NUM_SUBEVENTS \<Longrightarrow> j < NUM_RSP_SLOTS \<Longrightarrow>
   view (rsp_slots (fold (request_cb pf) rs s) ! sub ! j)
     = (age ^^ length (filter (\<lambda>r. covers r sub) rs)) (view (rsp_slots s ! sub ! j))"
proof (induction rs arbitrary: s)
  case (Cons r rs)
  then show ?case
    using Cons.IH [OF request_cb_inv [OF Cons.prems(1)] Cons.prems(2,3), of pf r]
    by (simp add: request_cb_slot funpow_swap1)
qed simp

end
