(* ===== verification/Slot_Allocation.thy ===== *)
theory Slot_Allocation
  imports Advertiser_Run "HOL-Library.Product_Lexorder"
begin

text \<open>
  Which slots the advertiser may hand out. Slots are ordered by subevent and number, and what has
  been handed out lies below the next fresh slot. As long as responses come only in slots that are
  not on the free list and are not rejected, no slot is held, free and advertised at the same time;
  the abstract callbacks keep this, and with the simulation so does the program.
\<close>

section \<open>The order of the slots\<close>

instantiation register_data_t_ext :: (linorder) linorder
begin

definition less_eq_register_data_t_ext :: "'a register_data_t_scheme \<Rightarrow> 'a register_data_t_scheme \<Rightarrow> bool" where
  "less_eq_register_data_t_ext x y \<longleftrightarrow>
     (subevent x, rsp_slot x, register_data_t.more x) \<le> (subevent y, rsp_slot y, register_data_t.more y)"

definition less_register_data_t_ext :: "'a register_data_t_scheme \<Rightarrow> 'a register_data_t_scheme \<Rightarrow> bool" where
  "less_register_data_t_ext x y \<longleftrightarrow>
     (subevent x, rsp_slot x, register_data_t.more x) < (subevent y, rsp_slot y, register_data_t.more y)"

instance
proof
  fix x y z :: "'a register_data_t_scheme"
  show "x < y \<longleftrightarrow> x \<le> y \<and> \<not> y \<le> x"
    unfolding less_eq_register_data_t_ext_def less_register_data_t_ext_def by (rule less_le_not_le)
  show "x \<le> x" by (simp add: less_eq_register_data_t_ext_def)
  show "x \<le> z" if "x \<le> y" "y \<le> z"
    using that unfolding less_eq_register_data_t_ext_def by (rule order_trans)
  show "x = y" if "x \<le> y" "y \<le> x"
    using order_antisym [OF that [unfolded less_eq_register_data_t_ext_def]] by simp
  show "x \<le> y \<or> y \<le> x"
    unfolding less_eq_register_data_t_ext_def by (rule linear)
qed

end

lemma slot_less_iff: "d < e \<longleftrightarrow> subevent d < subevent e \<or> subevent d = subevent e \<and> rsp_slot d < rsp_slot e"
  for d e :: register_data_t
  by (auto simp: less_register_data_t_ext_def)

text \<open>The number of a slot, counting through the subevents.\<close>

definition slot_number :: "register_data_t \<Rightarrow> nat" where
  "slot_number d = NUM_RSP_SLOTS * unat (subevent d) + unat (rsp_slot d)"

lemma slot_number_next:
  assumes "slot_ix d" and "slot_number d + 1 < NUM_RSP_SLOTS * 256"
  shows "slot_number (next_slot d) = slot_number d + 1"
proof (cases "unat (rsp_slot d) + 1 = NUM_RSP_SLOTS")
  case True
  then have "unat (subevent d) < 255"
    using assms(2) by (simp add: slot_number_def NUM_RSP_SLOTS_def)
  with True show ?thesis
    by (simp add: slot_number_def next_slot_def unat_Suc_u8)
next
  case False
  then have "unat (rsp_slot d) < 255"
    using assms(1) by (simp add: slot_ix_def NUM_RSP_SLOTS_def)
  with False show ?thesis
    by (simp add: slot_number_def next_slot_def unat_Suc_u8)
qed

text \<open>The order is the order of the numbers.\<close>

lemma slot_number_less: "slot_ix d \<Longrightarrow> slot_ix e \<Longrightarrow> d < e \<longleftrightarrow> slot_number d < slot_number e"
  by (auto simp: slot_less_iff slot_number_def slot_ix_def NUM_RSP_SLOTS_def word_less_nat_alt word_unat_eq_iff)

lemma next_slot_greater: "slot_ix d \<Longrightarrow> slot_number d + 1 < NUM_RSP_SLOTS * 256 \<Longrightarrow> d < next_slot d"
  by (simp add: slot_number_less slot_ix_next slot_number_next)

lemma slot_id_inj:
  "slot_id sub j = slot_id sub' j' \<longleftrightarrow> sub = sub' \<and> j = j'"
  if "sub < MAX_NUM_SUBEVENTS" "sub' < MAX_NUM_SUBEVENTS" "j < NUM_RSP_SLOTS" "j' < NUM_RSP_SLOTS"
proof -
  have "of_nat m = (of_nat n :: u8) \<longleftrightarrow> m = n" if "m < 256" "n < 256" for m n
    using that by (simp add: word_unat_eq_iff unat_of_nat)
  with that show ?thesis by (simp add: slot_id_def adv_sizes)
qed

section \<open>The invariant of the allocation\<close>

definition held_slots :: "adv_abs \<Rightarrow> register_data_t set" where
  "held_slots a = {slot_id sub j |sub j. sub < MAX_NUM_SUBEVENTS \<and> j < NUM_RSP_SLOTS \<and> a_slots a ! sub ! j \<noteq> Free}"

definition slots_shape :: "adv_abs \<Rightarrow> bool" where
  "slots_shape a \<longleftrightarrow> length (a_slots a) = MAX_NUM_SUBEVENTS \<and> (\<forall>sub < MAX_NUM_SUBEVENTS. length (a_slots a ! sub) = NUM_RSP_SLOTS)"

text \<open>Free and advertised slots are distinct, none of them is held, and all slots that were ever
  handed out lie below the next fresh one.\<close>

definition alloc_ok :: "adv_abs \<Rightarrow> bool" where
  "alloc_ok a \<longleftrightarrow> slots_shape a \<and> distinct (a_free a @ a_regs a) \<and>
     held_slots a \<inter> set (a_free a @ a_regs a) = {} \<and> slot_ix (a_next a) \<and>
     (\<forall>d \<in> held_slots a \<union> set (a_free a @ a_regs a). slot_ix d \<and> d < a_next a)"

lemma slot_ix_id [simp]: "j < NUM_RSP_SLOTS \<Longrightarrow> slot_ix (slot_id sub j)"
  by (simp add: slot_ix_def slot_id_def unat_of_nat NUM_RSP_SLOTS_def)

lemma held_iff:
  "sub < MAX_NUM_SUBEVENTS \<Longrightarrow> j < NUM_RSP_SLOTS \<Longrightarrow> slot_id sub j \<in> held_slots a \<longleftrightarrow> a_slots a ! sub ! j \<noteq> Free"
  by (auto simp: held_slots_def slot_id_inj)

text \<open>What does not touch the lists and empties slots at most keeps the invariant.\<close>

lemma alloc_ok_mono:
  assumes "alloc_ok a" and "slots_shape b" and "held_slots b \<subseteq> held_slots a" and "a_regs b = a_regs a" and "a_next b = a_next a"
    and "distinct (a_free b)" and "set (a_free b) \<subseteq> set (a_free a) \<union> (held_slots a - held_slots b)"
  shows "alloc_ok b"
  using assms unfolding alloc_ok_def by (auto simp: disjoint_iff)

subsection \<open>Requests\<close>

lemma abs_expired_held:
  assumes "sub < MAX_NUM_SUBEVENTS" and "length (a_slots a ! sub) = NUM_RSP_SLOTS"
  shows "distinct (abs_expired sub (a_slots a ! sub))"
    and "set (abs_expired sub (a_slots a ! sub)) \<subseteq> {d \<in> held_slots a. \<exists>j < NUM_RSP_SLOTS. d = slot_id sub j \<and> expires (a_slots a ! sub ! j)}"
proof -
  have "inj_on (slot_id sub) {..<NUM_RSP_SLOTS}"
    using assms(1) by (auto simp: inj_on_def slot_id_inj)
  then show "distinct (abs_expired sub (a_slots a ! sub))"
    unfolding abs_expired_def assms(2) by (auto simp: distinct_map elim: inj_on_subset)
  show "set (abs_expired sub (a_slots a ! sub)) \<subseteq> {d \<in> held_slots a. \<exists>j < NUM_RSP_SLOTS. d = slot_id sub j \<and> expires (a_slots a ! sub ! j)}"
    using assms(1) by (force simp: abs_expired_def assms(2) held_iff)
qed

lemma age_not_Free: "age v \<noteq> Free \<Longrightarrow> v \<noteq> Free \<and> \<not> expires v"
  by (cases v) (auto split: if_splits)

lemma abs_subevent_alloc:
  assumes ok: "alloc_ok a" and sub: "sub < MAX_NUM_SUBEVENTS"
  shows "alloc_ok (abs_subevent sub a)"
proof (rule alloc_ok_mono [OF ok])
  let ?b = "abs_subevent sub a" and ?E = "abs_expired sub (a_slots a ! sub)"
  have shape: "length (a_slots a) = MAX_NUM_SUBEVENTS" "\<And>i. i < MAX_NUM_SUBEVENTS \<Longrightarrow> length (a_slots a ! i) = NUM_RSP_SLOTS"
    using ok by (auto simp: alloc_ok_def slots_shape_def)
  have rows: "a_slots ?b ! i = (if i = sub then map age (a_slots a ! i) else a_slots a ! i)" if "i < MAX_NUM_SUBEVENTS" for i
    using sub shape(1) that by (simp add: abs_subevent_def Let_def)
  have at: "a_slots ?b ! i ! j = (if i = sub then age (a_slots a ! i ! j) else a_slots a ! i ! j)"
    if "i < MAX_NUM_SUBEVENTS" "j < NUM_RSP_SLOTS" for i j
    using that shape(2) by (simp add: rows)
  show "slots_shape ?b"
    using shape rows by (auto simp: slots_shape_def abs_subevent_def Let_def nth_list_update)
  show "a_regs ?b = a_regs a" "a_next ?b = a_next a" by (simp_all add: abs_subevent_def Let_def)
  show held: "held_slots ?b \<subseteq> held_slots a"
    using age_not_Free by (fastforce simp: held_slots_def at split: if_splits)
  have free: "a_free ?b = take CONFIG_MAX_FREE_SLOTS (a_free a @ ?E)" by (simp add: abs_subevent_def Let_def)
  note E = abs_expired_held [OF sub shape(2) [OF sub]]
  have "slot_id sub j \<notin> held_slots ?b" if "j < NUM_RSP_SLOTS" "expires (a_slots a ! sub ! j)" for j
    using age_not_Free [of "a_slots a ! sub ! j"] that by (auto simp: held_iff [OF sub that(1)] at [OF sub that(1)])
  with E(2) have E': "set ?E \<subseteq> held_slots a - held_slots ?b" by blast
  have "distinct (a_free a @ ?E)"
    using ok E(1) E' by (auto simp: alloc_ok_def)
  then show "distinct (a_free ?b)" unfolding free by (rule distinct_take)
  show "set (a_free ?b) \<subseteq> set (a_free a) \<union> (held_slots a - held_slots ?b)"
    using E' unfolding free by (auto dest!: in_set_takeD)
qed

lemma abs_request_alloc:
  assumes "alloc_ok a"
  shows "alloc_ok (abs_request request a) \<and> a_next (abs_request request a) = a_next a"
proof -
  let ?a = "a\<lparr>a_counter := a_counter a + a_pending a, a_pending := 0\<rparr>"
  have ok: "alloc_ok ?a" using assms by (simp add: alloc_ok_def held_slots_def slots_shape_def)
  have "alloc_ok (fold (\<lambda>i. abs_subevent (sub_ix request i)) is b) \<and> a_next (fold (\<lambda>i. abs_subevent (sub_ix request i)) is b) = a_next b"
    if "alloc_ok b" for "is" b
    using that
    by (induction "is" arbitrary: b) (simp_all add: abs_subevent_alloc sub_ix_less, simp add: abs_subevent_def Let_def)
  from this [OF ok] show ?thesis by (simp add: abs_request_def)
qed

subsection \<open>Reservations\<close>

lemma abs_reserve_alloc:
  assumes r: "abs_reserve a = (r, b)" and dist: "distinct (a_free a @ a_regs a)" and ix: "slot_ix (a_next a)"
    and below: "\<forall>d \<in> set (a_free a @ a_regs a). slot_ix d \<and> d < a_next a" and room: "slot_number (a_next a) + 1 < NUM_RSP_SLOTS * 256"
  shows "a_slots b = a_slots a" and "a_regs b = a_regs a" and "set (a_free b) \<subseteq> set (a_free a)" and "distinct (a_free b)"
    and "r \<notin> set (a_free b)" and "r \<notin> set (a_regs a)" and "slot_ix r" and "r < a_next b" and "a_next a \<le> a_next b"
    and "slot_ix (a_next b)" and "slot_number (a_next b) \<le> slot_number (a_next a) + 1"
    and "r \<in> set (a_free a) \<or> r = a_next a"
proof -
  have all: "a_slots b = a_slots a \<and> a_regs b = a_regs a \<and> set (a_free b) \<subseteq> set (a_free a) \<and> distinct (a_free b) \<and>
    r \<notin> set (a_free b) \<and> r \<notin> set (a_regs a) \<and> slot_ix r \<and> r < a_next b \<and> a_next a \<le> a_next b \<and>
    slot_ix (a_next b) \<and> slot_number (a_next b) \<le> slot_number (a_next a) + 1 \<and> (r \<in> set (a_free a) \<or> r = a_next a)"
  proof (cases "a_free a = []")
  case True
  with r have "r = a_next a" "b = a\<lparr>a_next := next_slot (a_next a)\<rparr>" by (auto simp: abs_reserve_def)
  with True below ix next_slot_greater [OF ix room] slot_ix_next [OF ix] slot_number_next [OF ix room]
  show ?thesis
    by auto
next
  case False
  with r have rb: "r = last (a_free a)" "b = a\<lparr>a_free := butlast (a_free a)\<rparr>" by (simp_all add: abs_reserve_def)
  from False rb(1) have free: "a_free a = butlast (a_free a) @ [r]" by simp
  with dist have "distinct (butlast (a_free a) @ [r])" "r \<in> set (a_free a)" "set (a_free a) \<inter> set (a_regs a) = {}"
    by (metis distinct_append, metis in_set_conv_decomp, auto)
  with rb below ix show ?thesis
    by (auto dest: in_set_butlastD)
  qed
  then show "a_slots b = a_slots a" and "a_regs b = a_regs a" and "set (a_free b) \<subseteq> set (a_free a)" and "distinct (a_free b)"
    and "r \<notin> set (a_free b)" and "r \<notin> set (a_regs a)" and "slot_ix r" and "r < a_next b" and "a_next a \<le> a_next b"
    and "slot_ix (a_next b)" and "slot_number (a_next b) \<le> slot_number (a_next a) + 1"
    and "r \<in> set (a_free a) \<or> r = a_next a"
    by blast+
qed

text \<open>The register slot that has just been taken is the only one that may be held.\<close>

lemma abs_replace_alloc:
  assumes shape: "slots_shape a" and dist: "distinct (a_free a @ a_regs a)" and ix: "slot_ix (a_next a)"
    and held: "held_slots a \<inter> set (a_free a @ a_regs a) \<subseteq> {x}" and x: "x \<in> set (a_regs a)"
    and below: "\<forall>d \<in> held_slots a \<union> set (a_free a @ a_regs a). slot_ix d \<and> d < a_next a"
    and room: "slot_number (a_next a) + 1 < NUM_RSP_SLOTS * 256"
  shows "alloc_ok (abs_replace x a) \<and> slot_number (a_next (abs_replace x a)) \<le> slot_number (a_next a) + 1"
proof -
  obtain i rest where f: "filter (\<lambda>i. a_regs a ! i = x) [0..<length (a_regs a)] = i # rest"
    using x by (cases "filter (\<lambda>i. a_regs a ! i = x) [0..<length (a_regs a)]") (auto simp: filter_empty_conv in_set_conv_nth)
  then have "i \<in> set (filter (\<lambda>i. a_regs a ! i = x) [0..<length (a_regs a)])" by simp
  then have i: "i < length (a_regs a)" "a_regs a ! i = x" by auto
  obtain r b where r: "abs_reserve a = (r, b)" by (metis prod.exhaust)
  have below': "\<forall>d \<in> set (a_free a @ a_regs a). slot_ix d \<and> d < a_next a" using below by blast
  note res = abs_reserve_alloc [OF r dist ix below' room]
  have regs: "set ((a_regs a)[i := r]) = insert r (set (a_regs a) - {x})"
    using dist i set_update_distinct [of "a_regs a" i r] by simp
  have rep: "abs_replace x a = b\<lparr>a_regs := (a_regs a)[i := r]\<rparr>"
    by (simp add: abs_replace_def f r res(2))
  have heldb: "held_slots (abs_replace x a) = held_slots a"
    by (simp add: held_slots_def rep res(1))
  have "r \<notin> held_slots a"
    using res(12) held below x dist by auto
  moreover have "distinct ((a_regs a)[i := r])"
    using dist i res(6) by (intro distinct_list_update) auto
  moreover have "x \<notin> set (a_free a)" using dist x by auto
  ultimately have "alloc_ok (abs_replace x a)"
    unfolding alloc_ok_def heldb
    using shape dist held below res i regs by (auto simp: rep slots_shape_def disjoint_iff intro: less_le_trans)
  with res(11) show ?thesis by (simp add: rep)
qed

subsection \<open>Responses\<close>

text \<open>A response is expected when it comes in a slot that is held or advertised.\<close>

definition expected :: "nat \<Rightarrow> nat \<Rightarrow> adv_abs \<Rightarrow> bool" where
  "expected sub j a \<longleftrightarrow> a_slots a ! sub ! j \<noteq> Free \<or> slot_id sub j \<in> set (a_regs a)"

lemma held_abs_set:
  assumes "slots_shape a" and "sub < MAX_NUM_SUBEVENTS" and "j < NUM_RSP_SLOTS"
  shows "held_slots (abs_set sub j v a) = (if v = Free then held_slots a - {slot_id sub j} else insert (slot_id sub j) (held_slots a))"
    and "slots_shape (abs_set sub j v a)"
proof -
  have at: "a_slots (abs_set sub j v a) ! i ! l = (if i = sub \<and> l = j then v else a_slots a ! i ! l)"
    if "i < MAX_NUM_SUBEVENTS" "l < NUM_RSP_SLOTS" for i l
    using assms that by (auto simp: abs_set_def slots_shape_def nth_list_update)
  show "held_slots (abs_set sub j v a) = (if v = Free then held_slots a - {slot_id sub j} else insert (slot_id sub j) (held_slots a))"
    using assms(2,3) by (auto simp: held_slots_def at slot_id_inj split: if_splits) (metis at)+
  show "slots_shape (abs_set sub j v a)"
    using assms by (auto simp: slots_shape_def abs_set_def nth_list_update)
qed

lemma abs_set_fields:
  "a_free (abs_set sub j v a) = a_free a" "a_regs (abs_set sub j v a) = a_regs a" "a_next (abs_set sub j v a) = a_next a"
  by (simp_all add: abs_set_def)

lemma abs_response_alloc:
  assumes ok: "alloc_ok a" and sub: "sub < MAX_NUM_SUBEVENTS" and j: "j < NUM_RSP_SLOTS" and v: "v \<noteq> Rejected"
    and exp: "v = Ignored \<or> expected sub j a" and room: "a_slots a ! sub ! j = Free \<Longrightarrow> slot_number (a_next a) + 1 < NUM_RSP_SLOTS * 256"
  shows "alloc_ok (abs_response sub j v a) \<and>
    slot_number (a_next (abs_response sub j v a)) \<le> slot_number (a_next a) + (if a_slots a ! sub ! j = Free then 1 else 0)"
proof (cases v)
  case (Verified d c)
  let ?a = "a\<lparr>a_counter := c\<rparr>" and ?x = "slot_id sub j"
  have ok': "alloc_ok ?a" using ok by (simp add: alloc_ok_def held_slots_def slots_shape_def)
  then have shape: "slots_shape ?a" by (simp add: alloc_ok_def)
  have at: "?x \<in> held_slots ?a \<longleftrightarrow> a_slots a ! sub ! j \<noteq> Free" using held_iff [OF sub j, of ?a] by simp
  show ?thesis
  proof (cases "a_slots a ! sub ! j")
    case Free
    let ?b = "abs_set sub j (hold d) ?a"
    have x: "?x \<in> set (a_regs ?b)" using exp Verified Free by (simp add: expected_def abs_set_fields)
    have held: "held_slots ?b \<subseteq> insert ?x (held_slots ?a)"
      using held_abs_set(1) [OF shape sub j, of "hold d"] by auto
    have "held_slots ?b \<inter> set (a_free ?b @ a_regs ?b) \<subseteq> {?x}"
      and "\<forall>e \<in> held_slots ?b \<union> set (a_free ?b @ a_regs ?b). slot_ix e \<and> e < a_next ?b"
      using held ok' x by (auto simp: alloc_ok_def abs_set_fields)
    with abs_replace_alloc [of ?b ?x] held_abs_set(2) [OF shape sub j] ok' x room [OF Free]
    have "alloc_ok (abs_replace ?x ?b) \<and> slot_number (a_next (abs_replace ?x ?b)) \<le> slot_number (a_next ?b) + 1"
      by (simp add: alloc_ok_def abs_set_fields)
    with Verified Free show ?thesis by (simp add: abs_set_fields)
  next
    case (Held d' n)
    have "held_slots (abs_set sub j (Held d 0) ?a) = held_slots ?a"
      using held_abs_set(1) [OF shape sub j] at Held by auto
    with ok' held_abs_set(2) [OF shape sub j] have "alloc_ok (abs_set sub j (Held d 0) ?a)"
      by (simp add: alloc_ok_def abs_set_fields)
    with ok' Verified Held show ?thesis by (simp add: Let_def abs_set_fields)
  qed
qed (use ok v in simp_all)

section \<open>Runs of the program\<close>

text \<open>What the host calls back with, and the run of a list of such events.\<close>

datatype adv_event = Data_request bt_le_per_adv_data_request | Response bt_le_per_adv_response_info "byte list"

fun run_event :: "'p platform \<Rightarrow> adv_event \<Rightarrow> 'p advertiser \<Rightarrow> 'p advertiser" where
  "run_event pf (Data_request request) s = request_cb pf request s"
| "run_event pf (Response info m) s = response_cb pf info (Some (buf_of m)) s"

text \<open>A response claims a slot when nobody holds it.\<close>

fun claims :: "adv_event \<Rightarrow> 'p advertiser \<Rightarrow> bool" where
  "claims (Data_request request) s \<longleftrightarrow> False"
| "claims (Response info m) s \<longleftrightarrow> dev_id (rsp_slots s ! unat (rsp_subevent info) ! unat (rsp_response_slot info)) = 0"

fun claims_in :: "'p platform \<Rightarrow> adv_event list \<Rightarrow> 'p advertiser \<Rightarrow> nat" where
  "claims_in pf [] s = 0"
| "claims_in pf (e # es) s = (if claims e s then 1 else 0) + claims_in pf es (run_event pf e s)"

lemma claims_in_le: "claims_in pf es s \<le> length es"
proof (induction es arbitrary: s)
  case (Cons e es)
  from Cons [of "run_event pf e s"] show ?case by simp
qed simp

text \<open>No response is rejected, and each comes in a slot that is held or advertised.\<close>

fun orderly ::
    "'p platform \<Rightarrow> (byte list \<Rightarrow> byte list \<Rightarrow> byte list) \<Rightarrow> (psa_key_id_t \<Rightarrow> stored_key option) \<Rightarrow> adv_event \<Rightarrow>
     'p advertiser \<Rightarrow> bool" where
  "orderly pf mac keys (Data_request request) s \<longleftrightarrow> True"
| "orderly pf mac keys (Response info m) s \<longleftrightarrow>
     info_ok info \<and> judge pf mac keys (cc_value (counter s)) m \<noteq> Rejected \<and>
     (judge pf mac keys (cc_value (counter s)) m = Ignored \<or>
      dev_id (rsp_slots s ! unat (rsp_subevent info) ! unat (rsp_response_slot info)) \<noteq> 0 \<or>
      \<lparr>subevent = rsp_subevent info, rsp_slot = rsp_response_slot info\<rparr> \<in> set (register_subevent_data s))"

fun orderly_run ::
    "'p platform \<Rightarrow> (byte list \<Rightarrow> byte list \<Rightarrow> byte list) \<Rightarrow> (psa_key_id_t \<Rightarrow> stored_key option) \<Rightarrow> adv_event list \<Rightarrow>
     'p advertiser \<Rightarrow> bool" where
  "orderly_run pf mac keys [] s \<longleftrightarrow> True"
| "orderly_run pf mac keys (e # es) s \<longleftrightarrow> orderly pf mac keys e s \<and> orderly_run pf mac keys es (run_event pf e s)"

lemma sim_slot:
  assumes "adv_sim key_of keys tag s a" and "sub < MAX_NUM_SUBEVENTS" and "j < NUM_RSP_SLOTS"
  shows "a_slots a ! sub ! j = view (rsp_slots s ! sub ! j)"
  using assms by (simp add: adv_sim_def adv_inv_def rows_ok_def)

lemma view_Free_iff: "view sl = Free \<longleftrightarrow> dev_id sl = 0"
  by (simp add: view_def)

lemma run_event_alloc:
  assumes rel: "pawr_reliable pf key_of mac" and sim: "adv_sim key_of keys (mac ka) s a" and ka: "key_is keys (ADVERTISER_KEY_ID pf) ka"
    and ok: "alloc_ok a" and ord: "orderly pf mac keys e s"
    and room: "claims e s \<Longrightarrow> slot_number (a_next a) + 1 < NUM_RSP_SLOTS * 256"
  shows "\<exists>b. adv_sim key_of keys (mac ka) (run_event pf e s) b \<and> alloc_ok b \<and>
    slot_number (a_next b) \<le> slot_number (a_next a) + (if claims e s then 1 else 0)"
proof (cases e)
  case (Data_request request)
  from ka obtain x where "keys (ADVERTISER_KEY_ID pf) = Some (x, ka)" "signing_key x" by (auto simp: key_is_def)
  from pawr_reliable.request_cb_sim [OF rel sim this, of request] abs_request_alloc [OF ok, of request] Data_request
  show ?thesis by auto
next
  case (Response info m)
  let ?sub = "unat (rsp_subevent info)" and ?j = "unat (rsp_response_slot info)"
  have ix: "?sub < MAX_NUM_SUBEVENTS" "?j < NUM_RSP_SLOTS" using ord Response by (simp_all add: info_ok_def)
  have c: "a_counter a = cc_value (counter s)" and regs: "a_regs a = register_subevent_data s" using sim by (simp_all add: adv_sim_def)
  have id: "slot_id ?sub ?j = \<lparr>subevent = rsp_subevent info, rsp_slot = rsp_response_slot info\<rparr>" by (simp add: slot_id_def)
  let ?v = "judge pf mac keys (a_counter a) m"
  have "?v \<noteq> Rejected" and "?v = Ignored \<or> expected ?sub ?j a"
    using ord Response by (auto simp: expected_def c regs id sim_slot [OF sim ix] view_Free_iff)
  moreover have claims: "claims e s \<longleftrightarrow> a_slots a ! ?sub ! ?j = Free"
    by (simp add: Response sim_slot [OF sim ix] view_Free_iff)
  ultimately have "alloc_ok (abs_response ?sub ?j ?v a) \<and>
      slot_number (a_next (abs_response ?sub ?j ?v a)) \<le> slot_number (a_next a) + (if claims e s then 1 else 0)"
    using abs_response_alloc [OF ok ix] room by simp
  with Response pawr_reliable.response_cb_sim [OF rel sim _ ix, of "buf_of m"]
  show ?thesis by auto
qed

lemma orderly_run_alloc:
  assumes rel: "pawr_reliable pf key_of mac" and ka: "key_is keys (ADVERTISER_KEY_ID pf) ka"
  shows "adv_sim key_of keys (mac ka) s a \<Longrightarrow> alloc_ok a \<Longrightarrow> orderly_run pf mac keys es s \<Longrightarrow>
    slot_number (a_next a) + claims_in pf es s < NUM_RSP_SLOTS * 256 \<Longrightarrow>
    \<exists>b. adv_sim key_of keys (mac ka) (fold (run_event pf) es s) b \<and> alloc_ok b \<and>
      slot_number (a_next b) \<le> slot_number (a_next a) + claims_in pf es s"
proof (induction es arbitrary: s a)
  case Nil
  then show ?case by auto
next
  case (Cons e es)
  then have "orderly pf mac keys e s" "claims e s \<Longrightarrow> slot_number (a_next a) + 1 < NUM_RSP_SLOTS * 256" by simp_all
  from run_event_alloc [OF rel Cons.prems(1) ka Cons.prems(2) this] obtain b where
    "adv_sim key_of keys (mac ka) (run_event pf e s) b" "alloc_ok b"
    "slot_number (a_next b) \<le> slot_number (a_next a) + (if claims e s then 1 else 0)"
    by blast
  with Cons.IH [of "run_event pf e s" b] Cons.prems show ?case by (fastforce split: if_splits)
qed

text \<open>On the program: free and advertised slots are distinct and not held, and the slot that the
  next reservation hands out is neither held nor advertised.\<close>

definition slots_held :: "'p advertiser \<Rightarrow> register_data_t set" where
  "slots_held s = {slot_id sub j |sub j. sub < MAX_NUM_SUBEVENTS \<and> j < NUM_RSP_SLOTS \<and> dev_id (rsp_slots s ! sub ! j) \<noteq> 0}"

definition slots_disjoint :: "'p advertiser \<Rightarrow> bool" where
  "slots_disjoint s \<longleftrightarrow> distinct (free_slots (free_list s) @ register_subevent_data s) \<and>
     slots_held s \<inter> set (free_slots (free_list s) @ register_subevent_data s) = {}"

lemma slots_held_sim: "adv_sim key_of keys tag s a \<Longrightarrow> slots_held s = held_slots a"
  by (simp add: slots_held_def held_slots_def sim_slot view_Free_iff cong: conj_cong)

lemma slots_disjoint_sim:
  assumes sim: "adv_sim key_of keys tag s a" and ok: "alloc_ok a"
  shows "slots_disjoint s" and "fst (reserve_slot s) \<notin> slots_held s \<union> set (register_subevent_data s)"
proof -
  have l: "a_free a = free_slots (free_list s)" "a_regs a = register_subevent_data s" using sim by (simp_all add: adv_sim_def)
  show "slots_disjoint s"
    using ok by (simp add: slots_disjoint_def alloc_ok_def slots_held_sim [OF sim] l)
  obtain r s' where r: "reserve_slot s = (r, s')" by (metis prod.exhaust)
  obtain b where b: "abs_reserve a = (r, b)"
    using reserve_slot_sim(1) [OF sim r] by (metis prod.collapse)
  have "r = a_next a \<or> r \<in> set (a_free a)"
    using b by (auto simp: abs_reserve_def split: if_splits)
  then have "r \<notin> held_slots a \<union> set (a_regs a)"
    using ok by (auto simp: alloc_ok_def)
  then show "fst (reserve_slot s) \<notin> slots_held s \<union> set (register_subevent_data s)"
    by (simp add: r slots_held_sim [OF sim] l)
qed

section \<open>Runs with any responses\<close>

text \<open>What has been sent was for a subevent that exists, with an ack for every slot.\<close>

definition sent_ok :: "adv_abs \<Rightarrow> bool" where
  "sent_ok a \<longleftrightarrow> (\<forall>(sub, acks, c) \<in> set (a_sent a). sub < MAX_NUM_SUBEVENTS \<and> length acks = NUM_RSP_SLOTS)"

lemma abs_subevent_sent:
  "sub < MAX_NUM_SUBEVENTS \<Longrightarrow> slots_shape a \<Longrightarrow> sent_ok a \<Longrightarrow> slots_shape (abs_subevent sub a) \<and> sent_ok (abs_subevent sub a)"
  by (auto simp: slots_shape_def sent_ok_def abs_subevent_def Let_def nth_list_update)

lemma abs_request_sent:
  assumes "slots_shape a" and "sent_ok a"
  shows "sent_ok (abs_request request a)"
proof -
  have "slots_shape b \<Longrightarrow> sent_ok b \<Longrightarrow> sent_ok (fold (\<lambda>i. abs_subevent (sub_ix request i)) is b)" for "is" b
    by (induction "is" arbitrary: b) (simp_all add: abs_subevent_sent sub_ix_less)
  moreover have "slots_shape (a\<lparr>a_counter := c, a_pending := 0\<rparr>)" "sent_ok (a\<lparr>a_counter := c, a_pending := 0\<rparr>)" for c
    using assms by (simp_all add: slots_shape_def sent_ok_def)
  ultimately show ?thesis by (simp add: abs_request_def)
qed

lemma abs_replace_sent [simp]: "a_sent (abs_replace d a) = a_sent a"
  by (auto simp: abs_replace_def abs_reserve_def split: list.split prod.split if_splits)

lemma abs_response_sent: "a_sent (abs_response sub j v a) = a_sent a"
  by (cases v) (simp_all add: abs_set_def Let_def split: slot_view.split)

lemma sent_ok_response [simp]: "sent_ok (abs_response sub j v a) = sent_ok a"
  by (simp add: sent_ok_def abs_response_sent)

fun event_ok :: "adv_event \<Rightarrow> bool" where
  "event_ok (Data_request request) \<longleftrightarrow> True"
| "event_ok (Response info m) \<longleftrightarrow> info_ok info"

lemma run_event_sim:
  assumes rel: "pawr_reliable pf key_of mac" and sim: "adv_sim key_of keys (mac ka) s a" and ka: "key_is keys (ADVERTISER_KEY_ID pf) ka"
    and e: "event_ok e" and sent: "sent_ok a"
  shows "\<exists>b. adv_sim key_of keys (mac ka) (run_event pf e s) b \<and> sent_ok b"
proof (cases e)
  case (Data_request request)
  have "slots_shape a"
    using sim by (auto simp: slots_shape_def adv_sim_def adv_inv_def rows_ok_def)
  from abs_request_sent [OF this sent] Data_request pawr_reliable.request_cb_sim [OF rel sim, of _ request] ka
  show ?thesis by (auto simp: key_is_def)
next
  case (Response info m)
  with pawr_reliable.response_cb_sim [OF rel sim, of "buf_of m" info] e sent show ?thesis
    by (auto simp: info_ok_def intro!: exI [of _ "abs_response (unat (rsp_subevent info)) (unat (rsp_response_slot info)) (judge pf mac keys (a_counter a) m) a"])
qed

lemma run_sim:
  assumes rel: "pawr_reliable pf key_of mac" and ka: "key_is keys (ADVERTISER_KEY_ID pf) ka"
  shows "adv_sim key_of keys (mac ka) s a \<Longrightarrow> sent_ok a \<Longrightarrow> \<forall>e \<in> set es. event_ok e \<Longrightarrow>
    \<exists>b. adv_sim key_of keys (mac ka) (fold (run_event pf) es s) b \<and> sent_ok b"
proof (induction es arbitrary: s a)
  case (Cons e es)
  from run_event_sim [OF rel Cons.prems(1) ka _ Cons.prems(2), of e] Cons.prems(3) obtain b where
    "adv_sim key_of keys (mac ka) (run_event pf e s) b" "sent_ok b" by auto
  with Cons show ?case by simp
qed auto

end
