(* ===== verification/Advertiser_Props.thy ===== *)
theory Advertiser_Props
  imports Slot_Allocation Transfer_Props
begin

text \<open>
  The properties of the advertiser and of its free list, and their witnesses: the refinement of
  the two callbacks, the invariant of every reachable state, the eviction of silent devices, the
  order of reservations, the counter over requests and reboots, and what goes wrong: forged
  responses, slots past the last subevent, an advertisement that does not fit its buffer.
\<close>

section \<open>A concrete advertiser\<close>

definition abs_of :: "'p advertiser \<Rightarrow> adv_abs" where
  "abs_of s = \<lparr>a_slots = map (map view) (rsp_slots s), a_free = free_slots (free_list s),
     a_regs = register_subevent_data s, a_next = last_used s, a_counter = cc_value (counter s),
     a_pending = rollover s, a_sent = []\<rparr>"

lemma adv_sim_abs_of:
  "adv_inv s \<Longrightarrow> bufs_ok (bufs s) \<Longrightarrow> subevents_sent (zlog s) = [] \<Longrightarrow>
   adv_sim key_of (key_of (psa_store s)) tag s (abs_of s)"
  by (simp add: adv_sim_def abs_of_def)

lemma reserve_slot_fields:
  assumes "reserve_slot s = (r, s')"
  shows "bufs s' = bufs s" and "zlog s' = zlog s" and "psa_store s' = psa_store s" and "counter s' = counter s"
    and "rsp_slots s' = rsp_slots s" and "rollover s' = rollover s" and "curr_state s' = curr_state s"
  using assms by (auto simp: reserve_slot_def Let_def split: prod.splits if_splits)

lemma bufs_loop:
  assumes "n \<le> length (bufs s)"
  shows "bufs (for_up n (init_buf pf) s)
    = replicate n (net_buf_simple_init_with_data pf (replicate TO_SEND_BUF_SIZE 0)) @ drop n (bufs s)"
  using assms
proof (induction n)
  case (Suc n)
  then show ?case
    by (simp add: init_buf_def list_update_append replicate_append_same Cons_nth_drop_Suc [symmetric])
qed simp

lemma reserve_loop_fields [simp]:
  "bufs (for_up n reserve_register_slot s) = bufs s"
  "zlog (for_up n reserve_register_slot s) = zlog s"
  "psa_store (for_up n reserve_register_slot s) = psa_store s"
  "counter (for_up n reserve_register_slot s) = counter s"
  by (rule for_up_keeps, simp add: reserve_register_slot_def reserve_slot_fields split: prod.split)+

lemma bufs_loop_fields [simp]:
  "zlog (for_up n (init_buf pf) s) = zlog s"
  "psa_store (for_up n (init_buf pf) s) = psa_store s"
  "counter (for_up n (init_buf pf) s) = counter s"
  "register_subevent_data (for_up n (init_buf pf) s) = register_subevent_data s"
  "free_list (for_up n (init_buf pf) s) = free_list s"
  "last_used (for_up n (init_buf pf) s) = last_used s"
  by (rule for_up_keeps, simp add: init_buf_def)+

lemma init_bufs_fields:
  "zlog (init_bufs pf s) = zlog s" "psa_store (init_bufs pf s) = psa_store s" "counter (init_bufs pf s) = counter s"
  by (simp_all add: init_bufs_def)

lemma init_bufs_rollover: "rollover (init_bufs pf (adv_boot pf p)) = 0"
proof -
  have "rollover (for_up n reserve_register_slot s) = rollover s" for n and s :: "'a advertiser"
    by (rule for_up_keeps) (simp add: reserve_register_slot_def reserve_slot_fields split: prod.split)
  moreover have "rollover (for_up n (init_buf pf) s) = rollover s" for n and s :: "'a advertiser"
    by (rule for_up_keeps) (simp add: init_buf_def)
  ultimately show ?thesis
    by (simp add: init_bufs_def) (simp add: adv_boot_def)
qed

lemma init_bufs_rsp_slots: "rsp_slots (init_bufs pf s) = rsp_slots s"
proof -
  have "rsp_slots (for_up n reserve_register_slot t) = rsp_slots t" for n and t :: "'a advertiser"
    by (rule for_up_keeps) (simp add: reserve_register_slot_def reserve_slot_fields split: prod.split)
  moreover have "rsp_slots (for_up n (init_buf pf) t) = rsp_slots t" for n and t :: "'a advertiser"
    by (rule for_up_keeps) (simp add: init_buf_def)
  ultimately show ?thesis by (simp add: init_bufs_def)
qed

lemma init_bufs_bufs_ok:
  assumes "zephyr_net_buf pf" and "length (bufs s) = MAX_NUM_SUBEVENTS"
  shows "bufs_ok (bufs (init_bufs pf s))"
  using assms
  by (auto simp: init_bufs_def bufs_ok_def bufs_loop zephyr_net_buf.nb_init_with_data)

definition demo_advertiser :: "key_map advertiser" where
  "demo_advertiser = init_bufs demo (adv_boot demo demo_keys)"

lemma demo_advertiser_ok:
  "adv_inv demo_advertiser" "bufs_ok (bufs demo_advertiser)" "zlog demo_advertiser = []"
  "psa_store demo_advertiser = demo_keys" "counter demo_advertiser = \<lparr>cc_value = 0, storage_uid = COUNTER_ID demo\<rparr>"
  using init_bufs_inv [OF adv_inv_boot] init_bufs_bufs_ok [OF demo_net_buf, of "adv_boot demo demo_keys"]
  by (simp_all add: demo_advertiser_def init_bufs_fields) (simp_all add: adv_boot_def)

lemma demo_advertiser_sim:
  "adv_sim (\<lambda>p. p) demo_keys tag demo_advertiser (abs_of demo_advertiser)"
  using adv_sim_abs_of [of demo_advertiser "\<lambda>p. p" tag] demo_advertiser_ok by simp

lemma demo_key_ids: "ADVERTISER_KEY_ID demo = 1" "scanner_key_id demo 1 = 3"
  by (simp_all add: key_ids demo_def store_platform_def)

lemma demo_keys_shared:
  "key_is demo_keys (ADVERTISER_KEY_ID demo) (demo_key 7)" "key_is demo_keys (scanner_key_id demo 1) (demo_key 9)"
  "key_is demo_keys (MIN_SCANNER_KEY_ID demo) (demo_key 9)"
proof -
  have "MIN_SCANNER_KEY_ID demo = 3" by (simp add: key_ids demo_def store_platform_def)
  then show "key_is demo_keys (ADVERTISER_KEY_ID demo) (demo_key 7)" "key_is demo_keys (scanner_key_id demo 1) (demo_key 9)"
    "key_is demo_keys (MIN_SCANNER_KEY_ID demo) (demo_key 9)"
    by (simp_all add: key_is_def demo_key_ids)
qed

section \<open>The callbacks refine the abstract advertiser\<close>

text \<open>C16: the data request callback implements \<open>abs_request\<close>, for every request and every
  state: per covered subevent the slots age, expired slots are freed as far as the free list has
  room, and one message goes out whose bytes are the acks of the row, the counter with the pending
  rollover, and the MAC of both under the advertiser's key.\<close>

theorem request_cb_refines:
  assumes "pawr_reliable pf key_of mac" and "adv_sim key_of keys (mac k) s a"
    and "keys (ADVERTISER_KEY_ID pf) = Some (ka, k)" and "signing_key ka"
  shows "adv_sim key_of keys (mac k) (request_cb pf request s) (abs_request request a)"
  using pawr_reliable.request_cb_sim [OF assms] .

theorem request_cb_refines_witness:
  "adv_sim (\<lambda>p. p) demo_keys (mac32 demo_hash (demo_key 7))
     (request_cb demo \<lparr>req_start = 44, req_count = 5\<rparr> demo_advertiser)
     (abs_request \<lparr>req_start = 44, req_count = 5\<rparr> (abs_of demo_advertiser))"
  by (rule request_cb_refines [OF demo_reliable demo_advertiser_sim, where ka = "sign_attributes 1"])
     (simp_all add: demo_key_ids)

text \<open>C17: the response callback implements \<open>abs_response\<close> with the verdict that
  \<open>judge\<close> reads off the bytes: a message that is too short or malformed changes nothing, one
  whose signature or counter is wrong empties and frees the slot, and one that passes claims an
  empty slot (and replaces it, if it was a register slot) or refreshes the sender's own.\<close>

theorem response_cb_refines:
  assumes "pawr_reliable pf key_of mac" and "adv_sim key_of keys tag s a" and "nb_wf b" and "info_ok info"
  shows "adv_sim key_of keys tag (response_cb pf info (Some b) s)
    (abs_response (unat (rsp_subevent info)) (unat (rsp_response_slot info))
      (judge pf mac keys (a_counter a) (nb_data b)) a)"
  using pawr_reliable.response_cb_sim [OF assms(1-3)] assms(4) by (simp add: info_ok_def)

definition demo_info :: bt_le_per_adv_response_info where
  "demo_info = \<lparr>rsp_subevent = 0, rsp_response_slot = 5, rsp_rssi = - 40\<rparr>"

lemma demo_info_ok: "info_ok demo_info"
  by (simp add: info_ok_def demo_info_def adv_sizes)

text \<open>A response of device 1 with an all-zero MAC.\<close>

definition forged :: "byte list" where
  "forged = [1, 0, 0, 0, 0, 0, 0] @ replicate 40 0"

lemma forged_rejected: "judge demo (mac32 demo_hash) demo_keys c forged = Rejected"
proof -
  have s: "response_sender (take (length forged - (HASH_LEN + 8)) forged) = Some 1"
    by (simp add: forged_def HASH_LEN_def response_sender_def)
  have b: "body_of forged = [1, 0, 0, 0, 0, 0, 0] @ replicate 8 0" and t: "tag_of forged = replicate 32 0"
    by (simp_all add: forged_def body_of_def tag_of_def HASH_LEN_def numeral_eq_Suc)
  have "mac32 demo_hash (demo_key 9) (body_of forged) = replicate 32 10"
    by (simp add: b mac32_def demo_hash_def demo_key_def numeral_eq_Suc)
  moreover have "replicate 32 (10 :: byte) \<noteq> replicate 32 0"
    by simp
  ultimately have "fst (verify_spec (key_mac (mac32 demo_hash) demo_keys 3) forged c) \<noteq> TRANSFER_NO_ERROR"
    by (simp add: verify_spec_def key_mac_def t Let_def)
  then show ?thesis
    using s by (simp add: judge_def demo_key_ids forged_def HASH_LEN_def split_beta)
qed

theorem response_cb_refines_witness:
  "adv_sim (\<lambda>p. p) demo_keys (\<lambda>m. []) (response_cb demo demo_info (Some (buf_of forged)) demo_advertiser)
    (abs_response 0 5 Rejected (abs_of demo_advertiser))"
  using response_cb_refines [OF demo_reliable demo_advertiser_sim _ demo_info_ok, of "buf_of forged" "\<lambda>m. []"]
  by (simp add: forged_rejected demo_info_def)

section \<open>Reachable states\<close>

text \<open>C20: in every state the advertiser can reach, through any interleaving of the main thread,
  the two Bluetooth callbacks, the button and reboots, and whatever the platform answers, the
  slot table, the free list, the register slots and the parameter array have their full size,
  every slot number is below the number of response slots, no held slot has been silent for more
  than nine rounds, and the free list is within its capacity.\<close>

theorem reachable_advertiser_inv:
  assumes "adv_reach pf p0 s"
  shows "adv_inv s"
  using assms by (induction rule: adv_reach.induct) (simp_all add: adv_inv_boot adv_step_inv)

lemma reach_init:
  "adv_reach pf p0 ((snd (adv_init pf (adv_boot pf p0)))\<lparr>curr_state := fst (adv_init pf (adv_boot pf p0))\<rparr>)"
proof -
  have "curr_state (adv_boot pf p0) = INITIALIZE"
    by (simp add: adv_boot_def)
  then have "adv_loop_round pf (adv_boot pf p0)
      = Some ((snd (adv_init pf (adv_boot pf p0)))\<lparr>curr_state := fst (adv_init pf (adv_boot pf p0))\<rparr>)"
    by (simp add: adv_loop_round_def adv_run_state_def split_beta)
  then show ?thesis
    by (rule reach_step [OF reach_boot adv_main])
qed

theorem reachable_advertiser_inv_witness:
  "adv_inv (request_cb demo \<lparr>req_start = 40, req_count = 46\<rparr>
     ((snd (adv_init demo (adv_boot demo demo_keys)))\<lparr>curr_state := fst (adv_init demo (adv_boot demo demo_keys))\<rparr>))"
  by (rule reachable_advertiser_inv, rule reach_step [OF reach_init adv_request])
     (use adv_init_states [of demo "adv_boot demo demo_keys"] in auto)

text \<open>The main loop moves only from initialisation to advertising or to the fault handler and
  from advertising to the soft reboot; the last two states never return.\<close>

lemma advertiser_state_machine:
  assumes "adv_loop_round pf s = Some s'"
  shows "(curr_state s, curr_state s') \<in> {(INITIALIZE, ADVERTISING), (INITIALIZE, FAULT_HANDLING), (ADVERTISING, SOFT_REBOOT)}"
  using assms
proof (cases rule: adv_loop_round_cases)
  case init
  then show ?thesis using adv_init_states [of pf s] by auto
qed simp

lemma advertiser_state_machine_example:
  "\<exists>s'. adv_loop_round demo (button_cb demo (demo_advertiser\<lparr>curr_state := ADVERTISING, reboot_sem := \<lparr>sem_count = 0, sem_limit = 1\<rparr>\<rparr>))
     = Some s' \<and> curr_state s' = SOFT_REBOOT"
proof -
  let ?s = "button_cb demo (demo_advertiser\<lparr>curr_state := ADVERTISING, reboot_sem := \<lparr>sem_count = 0, sem_limit = 1\<rparr>\<rparr>)"
  obtain s' where s': "adv_loop_round demo ?s = Some s'"
    using zephyr_sem.sem_take [OF demo_sem] zephyr_sem.sem_give [OF demo_sem]
    by (auto simp: adv_loop_round_def adv_run_state_def adv_advertising_def button_cb_def)
  have "curr_state ?s = ADVERTISING" by (simp add: button_cb_def)
  with advertiser_state_machine [OF s'] s' show ?thesis by auto
qed

text \<open>C21: a device that has just been heard keeps its slot through nine requests that cover its
  subevent without a response from it, and has lost it after the tenth, in any series of requests.\<close>

theorem silent_device_is_evicted:
  assumes "adv_inv s" and "sub < MAX_NUM_SUBEVENTS" and "j < NUM_RSP_SLOTS"
    and "view (rsp_slots s ! sub ! j) = Held d 0"
  shows "view (rsp_slots (fold (request_cb pf) rs s) ! sub ! j) =
    (let n = length (filter (\<lambda>r. covers r sub) rs) in if n \<le> 9 then Held d n else Free)"
proof (cases "length (filter (\<lambda>r. covers r sub) rs) \<le> 9")
  case True
  then show ?thesis
    using requests_age [OF assms(1-3), of pf rs] assms(4) age_Held [of _ 0 d] by (simp add: MAX_SILENT_9)
next
  case False
  then show ?thesis
    using requests_age [OF assms(1-3), of pf rs] age_expires by (simp add: MAX_SILENT_9)
qed

theorem silent_device_is_evicted_witness:
  "view (rsp_slots (fold (request_cb demo) (replicate 10 \<lparr>req_start = 0, req_count = 1\<rparr>)
     (set_slot 0 7 \<lparr>dev_id = 1, inactive_for = 0\<rparr> demo_advertiser)) ! 0 ! 7) = Free"
proof -
  let ?s = "set_slot 0 7 \<lparr>dev_id = 1, inactive_for = 0\<rparr> demo_advertiser"
  have inv: "adv_inv ?s"
    by (rule set_slot_inv [OF demo_advertiser_ok(1)]) (simp_all add: slot_ok_def adv_sizes)
  have "length (rsp_slots demo_advertiser) = 46" "length (rsp_slots demo_advertiser ! 0) = 103"
    using demo_advertiser_ok(1) rows_ok_row [of "rsp_slots demo_advertiser" 0]
    by (simp_all add: adv_inv_def rows_ok_def adv_sizes)
  then have v: "view (rsp_slots ?s ! 0 ! 7) = Held 1 0"
    by (simp add: set_slot_def view_def)
  have c: "covers \<lparr>req_start = 0, req_count = 1\<rparr> 0"
    by (simp add: covers_def sub_ix_def MAX_NUM_SUBEVENTS_def)
  from silent_device_is_evicted [OF inv _ _ v, of demo "replicate 10 \<lparr>req_start = 0, req_count = 1\<rparr>"] c
  show ?thesis by (simp add: adv_sizes)
qed

section \<open>Forged responses\<close>

text \<open>A response that names a device but fails the verification, which anyone can send,
  takes the slot it came in from whoever held it.\<close>

lemma forged_response_evicts:
  assumes "pawr_reliable pf key_of mac" and "adv_sim key_of keys tag s a" and "nb_wf b" and "info_ok info"
    and "judge pf mac keys (a_counter a) (nb_data b) = Rejected"
  shows "view (rsp_slots (response_cb pf info (Some b) s) ! unat (rsp_subevent info) ! unat (rsp_response_slot info)) = Free"
proof -
  let ?sub = "unat (rsp_subevent info)" and ?j = "unat (rsp_response_slot info)"
  from pawr_reliable.response_cb_sim [OF assms(1-3)] assms(4,5)
  have sim: "adv_sim key_of keys tag (response_cb pf info (Some b) s) (abs_response ?sub ?j Rejected a)"
    by (simp add: info_ok_def)
  have i: "?sub < length (rsp_slots s)" "?j < length (rsp_slots s ! ?sub)"
    "?sub < length (rsp_slots (response_cb pf info (Some b) s))"
    "?j < length (rsp_slots (response_cb pf info (Some b) s) ! ?sub)"
    using adv_simD(1) [OF assms(2)] adv_simD(1) [OF sim] assms(4) by (simp_all add: adv_inv_def rows_ok_def info_ok_def)
  have "a_slots (abs_response ?sub ?j Rejected a) ! ?sub ! ?j = Free"
    using assms(2) i by (simp add: adv_sim_def abs_set_def)
  with sim i show ?thesis by (simp add: adv_sim_def)
qed

lemma forged_response_evicts_example:
  "view (rsp_slots (response_cb demo demo_info (Some (buf_of forged)) demo_advertiser) ! 0 ! 5) = Free"
  using forged_response_evicts [OF demo_reliable demo_advertiser_sim _ demo_info_ok, of "buf_of forged"]
  by (simp add: forged_rejected demo_info_def)

lemma sim_free: "adv_sim key_of keys tag s a \<Longrightarrow> free_slots (free_list s) = a_free a"
  by (simp add: adv_sim_def)

text \<open>C23: if such a response comes in one of the advertised register slots, the slot stays
  advertised and is at the same time the next one to be handed out: two devices are sent to the
  same slot.\<close>

theorem forged_response_duplicates_slot:
  assumes "pawr_reliable pf key_of mac" and "adv_sim key_of keys tag s a" and "nb_wf b" and "info_ok info"
    and "judge pf mac keys (a_counter a) (nb_data b) = Rejected"
    and "d = \<lparr>subevent = rsp_subevent info, rsp_slot = rsp_response_slot info\<rparr>"
    and "d \<in> set (register_subevent_data s)" and "length (free_slots (free_list s)) < CONFIG_MAX_FREE_SLOTS"
  shows "d \<in> set (register_subevent_data (response_cb pf info (Some b) s)) \<and>
    fst (reserve_slot (response_cb pf info (Some b) s)) = d"
proof -
  let ?sub = "unat (rsp_subevent info)" and ?j = "unat (rsp_response_slot info)"
  let ?a = "abs_response ?sub ?j Rejected a"
  from pawr_reliable.response_cb_sim [OF assms(1-3)] assms(4,5)
  have sim: "adv_sim key_of keys tag (response_cb pf info (Some b) s) ?a"
    by (simp add: info_ok_def)
  have "a_regs ?a = register_subevent_data s" "a_free ?a = free_slots (free_list s) @ [d]"
    using assms(2,6,8) by (simp_all add: adv_sim_def abs_set_def slot_id_info)
  moreover have "fst (abs_reserve ?a) = last (a_free ?a)" if "a_free ?a \<noteq> []"
    using that by (simp add: abs_reserve_def)
  moreover have "fst (abs_reserve ?a) = fst (reserve_slot (response_cb pf info (Some b) s))"
    using reserve_slot_sim(1) [OF sim] by (metis prod.collapse)
  ultimately show ?thesis
    using sim assms(7) by (simp add: adv_sim_def)
qed

lemma next_slot_0: "5 + n < 102 \<Longrightarrow> next_slot (slot_id 0 (5 + n)) = slot_id 0 (5 + Suc n)"
proof -
  assume n: "5 + n < 102"
  then have u: "unat (of_nat (5 + n) :: u8) = 5 + n"
    by (simp only: unat_of_nat) simp
  have "of_nat (5 + n) + 1 = (of_nat (5 + Suc n) :: u8)" by simp
  with n u show ?thesis
    by (simp add: next_slot_def slot_id_def NUM_RSP_SLOTS_def del: of_nat_add)
qed

lemma register_slots_loop:
  assumes s: "free_list s = free_list_init" "last_used s = slot_id 0 5" "length (register_subevent_data s) = 5"
  shows "n \<le> 5 \<Longrightarrow> register_subevent_data (for_up n reserve_register_slot s)
      = map (slot_id 0) [5..<5 + n] @ drop n (register_subevent_data s) \<and>
    last_used (for_up n reserve_register_slot s) = slot_id 0 (5 + n) \<and>
    free_list (for_up n reserve_register_slot s) = free_list_init"
proof (induction n)
  case 0
  then show ?case using s by simp
next
  case (Suc n)
  let ?t = "for_up n reserve_register_slot s"
  from Suc have IH: "register_subevent_data ?t = map (slot_id 0) [5..<5 + n] @ drop n (register_subevent_data s)"
    "last_used ?t = slot_id 0 (5 + n)" "free_list ?t = free_list_init"
    by simp_all
  have "reserve_slot ?t = (slot_id 0 (5 + n), ?t\<lparr>last_used := slot_id 0 (5 + Suc n)\<rparr>)"
    using reserve_slot_empty [of ?t] IH(2,3) next_slot_0 [of n] Suc.prems by simp
  moreover have "(map (slot_id 0) [5..<5 + n] @ drop n (register_subevent_data s))[n := slot_id 0 (5 + n)]
    = map (slot_id 0) ([5..<5 + n] @ [5 + n]) @ drop (Suc n) (register_subevent_data s)"
    using s(3) Suc.prems by (simp add: list_update_append upd_conv_take_nth_drop)
  moreover have "[5..<5 + n] @ [5 + n] = [5..<5 + Suc n]"
    by (simp only: add_Suc_right upt_Suc_append [OF le_add1])
  ultimately show ?case
    using IH by (simp add: reserve_register_slot_def [of n])
qed

lemma init_bufs_register_slots:
  "register_subevent_data (init_bufs pf (adv_boot pf p)) = map (slot_id 0) [5..<10]"
  "last_used (init_bufs pf (adv_boot pf p)) = slot_id 0 10"
  "free_slots (free_list (init_bufs pf (adv_boot pf p))) = []"
  using register_slots_loop [of "adv_boot pf p" 5]
  by (simp_all add: init_bufs_def adv_boot_def slot_id_def CONFIG_NUM_REGISTER_SLOTS_def)

theorem forged_response_duplicates_slot_witness:
  "\<lparr>subevent = 0, rsp_slot = 5\<rparr> \<in> set (register_subevent_data (response_cb demo demo_info (Some (buf_of forged)) demo_advertiser)) \<and>
    fst (reserve_slot (response_cb demo demo_info (Some (buf_of forged)) demo_advertiser)) = \<lparr>subevent = 0, rsp_slot = 5\<rparr>"
  by (rule forged_response_duplicates_slot [OF demo_reliable demo_advertiser_sim _ demo_info_ok])
     (simp_all add: forged_rejected demo_info_def demo_advertiser_def init_bufs_register_slots slot_id_def
       CONFIG_MAX_FREE_SLOTS_def)

section \<open>Which slots are handed out\<close>

text \<open>After initialisation the register slots are the slots 5 to 9 of subevent 0, the free list
  is empty and the next slot is 10: the first five slots are never handed out.\<close>

lemma register_slots_after_boot:
  "register_subevent_data (init_bufs pf (adv_boot pf p)) =
     [\<lparr>subevent = 0, rsp_slot = 5\<rparr>, \<lparr>subevent = 0, rsp_slot = 6\<rparr>, \<lparr>subevent = 0, rsp_slot = 7\<rparr>,
      \<lparr>subevent = 0, rsp_slot = 8\<rparr>, \<lparr>subevent = 0, rsp_slot = 9\<rparr>] \<and>
   last_used (init_bufs pf (adv_boot pf p)) = \<lparr>subevent = 0, rsp_slot = 10\<rparr>"
  by (simp add: init_bufs_register_slots slot_id_def upt_conv_Cons numeral_eq_Suc)

text \<open>A series of reservations.\<close>

primrec reserve_many :: "nat \<Rightarrow> 'p advertiser \<Rightarrow> register_data_t list \<times> 'p advertiser" where
  "reserve_many 0 s = ([], s)"
| "reserve_many (Suc n) s =
     (let (rs, s) = reserve_many n s; (r, s) = reserve_slot s in (rs @ [r], s))"

lemma reserve_many_fresh:
  assumes "adv_inv s" and "free_slots (free_list s) = []"
    and "slot_number (last_used s) + n < NUM_RSP_SLOTS * 256"
  shows "\<exists>lu. snd (reserve_many n s) = s\<lparr>last_used := lu\<rparr> \<and> slot_ix lu \<and> slot_number lu = slot_number (last_used s) + n \<and>
    map slot_number (fst (reserve_many n s)) = [slot_number (last_used s)..<slot_number (last_used s) + n]"
  using assms(3)
proof (induction n)
  case 0
  then show ?case using assms(1) by (auto simp: adv_inv_def intro!: exI [of _ "last_used s"])
next
  case (Suc n)
  then obtain lu where lu: "snd (reserve_many n s) = s\<lparr>last_used := lu\<rparr>" "slot_ix lu"
    "slot_number lu = slot_number (last_used s) + n"
    "map slot_number (fst (reserve_many n s)) = [slot_number (last_used s)..<slot_number (last_used s) + n]"
    by auto
  have "free_list_inv (free_list (s\<lparr>last_used := lu\<rparr>))" "free_slots (free_list (s\<lparr>last_used := lu\<rparr>)) = []"
    using assms by (simp_all add: adv_inv_def)
  from reserve_slot_empty [OF this] have
    "reserve_slot (s\<lparr>last_used := lu\<rparr>) = (lu, s\<lparr>last_used := next_slot lu\<rparr>)" by simp
  with lu slot_number_next [OF lu(2)] slot_ix_next [OF lu(2)] Suc.prems show ?case
    by (intro exI [of _ "next_slot lu"]) (simp add: split_beta)
qed

text \<open>As long as nothing is freed, reservations hand out the slots one after the other, in the
  order of their numbers and each once, until the numbers exceed the 256 subevents of a byte.\<close>

lemma fresh_slots_in_order:
  assumes "adv_inv s" and "free_slots (free_list s) = []"
    and "slot_number (last_used s) + n < NUM_RSP_SLOTS * 256"
  shows "map slot_number (fst (reserve_many n s)) = [slot_number (last_used s)..<slot_number (last_used s) + n]"
  using reserve_many_fresh [OF assms] by blast

lemma fresh_slots_in_order_example:
  "map slot_number (fst (reserve_many 3 demo_advertiser)) = [10, 11, 12]"
proof -
  have l: "last_used demo_advertiser = slot_id 0 10" and f: "free_slots (free_list demo_advertiser) = []"
    by (simp_all add: demo_advertiser_def init_bufs_register_slots)
  have n: "slot_number (slot_id 0 10) = 10"
    by (simp add: slot_number_def slot_id_def)
  show ?thesis
    using fresh_slots_in_order [OF demo_advertiser_ok(1) f, of 3] unfolding l n
    by (simp add: NUM_RSP_SLOTS_def upt_conv_Cons)
qed

text \<open>Nothing stops at the last subevent: after 4728 reservations from boot the next slot
  handed out lies in subevent 46, which does not exist.\<close>

lemma slots_past_the_last_subevent:
  "subevent (fst (reserve_slot (snd (reserve_many 4728 (init_bufs pf (adv_boot pf p)))))) = of_nat MAX_NUM_SUBEVENTS"
proof -
  let ?s = "init_bufs pf (adv_boot pf p)"
  have inv: "adv_inv ?s" by (rule init_bufs_inv [OF adv_inv_boot])
  have l: "slot_number (last_used ?s) = 10"
    by (simp add: init_bufs_register_slots slot_number_def slot_id_def)
  have free: "free_slots (free_list ?s) = []" by (rule init_bufs_register_slots)
  have small: "slot_number (last_used ?s) + 4728 < NUM_RSP_SLOTS * 256"
    unfolding l NUM_RSP_SLOTS_def by simp
  from reserve_many_fresh [OF inv free small] obtain lu where
    lu: "snd (reserve_many 4728 ?s) = ?s\<lparr>last_used := lu\<rparr>" "slot_ix lu"
    and n: "slot_number lu = slot_number (last_used ?s) + 4728"
    by blast
  have lu3: "slot_number lu = 4738" using n unfolding l by simp
  have "free_list_inv (free_list (?s\<lparr>last_used := lu\<rparr>))" "free_slots (free_list (?s\<lparr>last_used := lu\<rparr>)) = []"
    using inv free by (simp_all add: adv_inv_def)
  from reserve_slot_empty [OF this] have "fst (reserve_slot (?s\<lparr>last_used := lu\<rparr>)) = lu" by simp
  moreover have "unat (subevent lu) = 46"
    using lu(2) lu3 by (simp add: slot_number_def slot_ix_def NUM_RSP_SLOTS_def)
  then have "subevent lu = of_nat 46"
    by (simp add: word_unat_eq_iff)
  ultimately show ?thesis
    by (simp only: lu(1) MAX_NUM_SUBEVENTS_def)
qed

section \<open>The advertising data\<close>

text \<open>The buffer of the advertising data is too small for its content: with the five register
  slots in it there is no room left for the MAC, so \<open>sign_message\<close> writes past its end.\<close>

lemma advertisement_does_not_fit:
  assumes "zephyr_net_buf pf" and "length rs = CONFIG_NUM_REGISTER_SLOTS"
    and "length (nb_buf b) = SIZEOF_ADVERTISEMENT_DATA + HASH_LEN"
  shows "nb_tailroom (advertisement_data_serialize pf \<lparr>reg_data = rs,
      selection_info = \<lparr>num_reg_slots = of_nat CONFIG_NUM_REGISTER_SLOTS\<rparr>, adv_counter = c\<rparr>
      (net_buf_simple_reset pf b)) < HASH_LEN"
proof -
  let ?d = "\<lparr>reg_data = rs, selection_info = \<lparr>num_reg_slots = of_nat CONFIG_NUM_REGISTER_SLOTS\<rparr>, adv_counter = c\<rparr>"
  let ?b = "net_buf_simple_reset pf b"
  have wf: "nb_wf ?b" "nb_tailroom ?b = 48"
    using zephyr_net_buf.nb_wf_reset [OF assms(1)] zephyr_net_buf.nb_tailroom_reset [OF assms(1)] assms(3)
    by (simp_all add: SIZEOF_ADVERTISEMENT_DATA_def HASH_LEN_def)
  have len: "length (adv_wire ?d) = 11"
    using assms(2) by (simp add: adv_wire_def CONFIG_NUM_REGISTER_SLOTS_def)
  have "advertisement_data_serialize pf ?d ?b = nb_append ?b (adv_wire ?d @ le_bytes 8 c)"
    using zephyr_net_buf.advertisement_data_serialize_eq [OF assms(1) wf(1), of ?d] wf(2) len assms(2)
    by (simp add: CONFIG_NUM_REGISTER_SLOTS_def)
  then show ?thesis
    using nb_tailroom_append [OF wf(1), of "adv_wire ?d @ le_bytes 8 c"] wf(2) len by (simp add: HASH_LEN_def)
qed

lemma advertisement_does_not_fit_example:
  "nb_tailroom (advertisement_data_serialize demo \<lparr>reg_data = replicate 5 \<lparr>subevent = 0, rsp_slot = 0\<rparr>,
      selection_info = \<lparr>num_reg_slots = of_nat CONFIG_NUM_REGISTER_SLOTS\<rparr>, adv_counter = 0\<rparr>
      (net_buf_simple_reset demo (empty_buf (SIZEOF_ADVERTISEMENT_DATA + HASH_LEN)))) < HASH_LEN"
  by (rule advertisement_does_not_fit [OF demo_net_buf]) (simp_all add: CONFIG_NUM_REGISTER_SLOTS_def empty_buf_def)

section \<open>The counter\<close>

text \<open>The counter that the next message would carry.\<close>

definition adv_time :: "'p advertiser \<Rightarrow> nat" where
  "adv_time s = unat (cc_value (counter s)) + unat (rollover s)"

lemma periods_covers:
  assumes "n \<le> MAX_NUM_SUBEVENTS"
  shows "periods request n = (if \<exists>i < n. sub_ix request i = 0 then 1 else 0)"
  using assms
proof (induction n)
  case 0
  then show ?case by (simp add: periods_def)
next
  case (Suc n)
  have "\<not> (\<exists>i < n. sub_ix request i = 0)" if "sub_ix request n = 0"
    using that sub_ix_inj [of request _ n] Suc.prems by (metis Suc_le_lessD less_trans less_irrefl)
  moreover have "(\<exists>i < Suc n. sub_ix request i = 0) \<longleftrightarrow> (\<exists>i < n. sub_ix request i = 0) \<or> sub_ix request n = 0"
    by (auto simp: less_Suc_eq)
  moreover have "periods request n = (if \<exists>i < n. sub_ix request i = 0 then 1 else 0)"
    using Suc by simp
  ultimately show ?case
    by (cases "sub_ix request n = 0") (simp_all add: periods_def)
qed

lemma set_adv_data_time [simp]: "adv_time (snd (set_adv_data pf s)) = adv_time s"
  by (simp add: adv_time_def)

lemma set_slot_fields [simp]:
  "counter (set_slot sub j sl s) = counter s" "rollover (set_slot sub j sl s) = rollover s"
  by (simp_all add: set_slot_def)

lemma replace_time [simp]: "adv_time (replace_register_slot n sub j s) = adv_time s"
proof (induction n)
  case (Suc n)
  have "adv_time (reserve_register_slot i s) = adv_time s" for i
    by (simp add: reserve_register_slot_def adv_time_def reserve_slot_fields split: prod.split)
  with Suc show ?case by (simp add: Let_def)
qed simp

lemma accept_reject_time:
  "adv_time (accept_response pf info s) = adv_time s" "adv_time (reject_response pf info s) = adv_time s"
  by (simp_all add: accept_response_def reject_response_def Let_def split_beta) (simp_all add: adv_time_def)

lemma request_time:
  assumes "adv_inv s" and "adv_time s < 2 ^ 64"
  shows "adv_time (request_cb pf request s) = adv_time s + (if covers request 0 then 1 else 0)"
proof -
  let ?n = "min (unat (req_count request)) MAX_NUM_SUBEVENTS"
  have p: "periods request ?n = (if covers request 0 then 1 else 0)"
    using periods_covers [of ?n request] by (simp add: covers_def)
  have sum: "unat (cc_value (counter s) + rollover s) = adv_time s"
    using assms(2) by (simp add: adv_time_def unat_word_ariths)
  have "unat (of_nat (periods request ?n) :: u64) = periods request ?n"
    unfolding p by simp
  with request_cb_effect(2,3) [OF assms(1), of pf request] sum p show ?thesis
    by (simp add: adv_time_def)
qed

lemma response_time:
  assumes pf: "pawr_platform pf key_of mac" and wf: "nb_wf b"
  shows "adv_time s \<le> adv_time (response_cb pf info (Some b) s)"
proof -
  have nbl: "zephyr_net_buf pf" using pf by (simp add: pawr_platform_def)
  show ?thesis
  proof (cases "nb_len b < HASH_LEN + 8 \<or> response_sender (take (nb_len b - (HASH_LEN + 8)) (nb_data b)) = None")
    case True
    then show ?thesis using response_cb_ignored [OF nbl wf True, of info s] by simp
  next
    case False
    then obtain d where d: "response_sender (take (nb_len b - (HASH_LEN + 8)) (nb_data b)) = Some d"
      and len: "HASH_LEN + 8 \<le> nb_len b" by auto
    obtain e b2 c p where v: "verify_message pf b (scanner_key_id pf d) (cc_value (counter s)) (psa_store s) = (e, b2, c, p)"
      by (metis prod.exhaust)
    from response_cb_verified [OF nbl wf len d, of info s] v obtain m where
      "response_cb pf info (Some b) s =
        (let s = s\<lparr>current_rsp := m, counter := (counter s)\<lparr>cc_value := c\<rparr>, psa_store := p\<rparr>
         in if e \<noteq> TRANSFER_NO_ERROR then reject_response pf info s else accept_response pf info s)"
      by (auto simp del: not_less)
    moreover have "cc_value (counter s) \<le> c"
      by (rule pawr_platform.verify_counter(1) [OF pf wf v])
    ultimately show ?thesis
      by (simp add: Let_def accept_reject_time) (simp add: adv_time_def word_le_nat_alt)
  qed
qed

text \<open>A data request moves the counter of the messages by one if it covers subevent 0 and
  leaves it alone otherwise; a response never lowers it.\<close>

lemma callbacks_keep_counter_monotone:
  assumes "pawr_platform pf key_of mac" and "adv_inv s" and "adv_time s < 2 ^ 64" and "\<forall>b. buf = Some b \<longrightarrow> nb_wf b"
  shows "adv_time (request_cb pf request s) = adv_time s + (if covers request 0 then 1 else 0) \<and>
    adv_time s \<le> adv_time (response_cb pf info buf s)"
  using request_time [OF assms(2,3)] response_time [OF assms(1)] assms(4)
  by (cases buf) (simp_all add: response_cb_def [of _ _ None])

lemma callbacks_keep_counter_monotone_example:
  "adv_time (request_cb demo \<lparr>req_start = 45, req_count = 2\<rparr> demo_advertiser) = 1"
proof -
  have c: "covers \<lparr>req_start = 45, req_count = 2\<rparr> 0"
    by (auto simp: covers_def sub_ix_def MAX_NUM_SUBEVENTS_def intro!: exI [of _ 1])
  have r: "rollover demo_advertiser = 0"
    by (simp add: demo_advertiser_def init_bufs_rollover)
  have t: "adv_time demo_advertiser = 0"
    by (simp add: adv_time_def r demo_advertiser_ok)
  from callbacks_keep_counter_monotone [OF demo_platform demo_advertiser_ok(1), of None "\<lparr>req_start = 45, req_count = 2\<rparr>" demo_info] c t
  show ?thesis by simp
qed

text \<open>C26: a reboot forgets the period that has just begun: after a request that covered subevent 0
  the messages carry a counter one above the one that the soft reboot commits, so the advertiser
  comes back behind what its scanners have already accepted.\<close>

theorem soft_reboot_forgets_pending:
  assumes "psa_reliable pf key_of mac" and "adv_inv s" and "covers request 0"
    and "adv_time s + 1 < 2 ^ 32" and "s' = request_cb pf request s"
    and "crypto_secure_counter_init pf \<lparr>cc_value = 0, storage_uid = storage_uid (counter s')\<rparr>
           (psa_store (adv_soft_reboot pf s')) = (st, ctx, p)"
  shows "st = PSA_SUCCESS \<and> unat (cc_value ctx) + 1 = adv_time s'"
proof -
  let ?n = "min (unat (req_count request)) MAX_NUM_SUBEVENTS"
  have r: "rollover s' = 1"
    using request_cb_effect(3) [OF assms(2), of pf request] periods_covers [of ?n request] assms(3,5)
    by (simp add: covers_def)
  have "unat (cc_value (counter s) + rollover s) = adv_time s"
    using assms(4) by (simp add: adv_time_def unat_word_ariths)
  with request_cb_effect(2) [OF assms(2), of pf request] assms(5)
  have c: "unat (cc_value (counter s')) = adv_time s" by simp
  obtain e q where q: "crypto_secure_counter_commit pf (counter s') (psa_store s') = (e, q)"
    by (metis prod.exhaust)
  then have e: "e = PSA_SUCCESS"
    using psa_reliable.commit_succeeds [OF assms(1), of "counter s'" "psa_store s'"] by auto
  have "psa_store (adv_soft_reboot pf s') = q"
    by (simp add: adv_soft_reboot_def adv_commit_and_reboot_def q)
  with psa_reliable.init_after_commit [OF assms(1) q [unfolded e]] assms(6)
  have ctx: "st = PSA_SUCCESS" "cc_value ctx = take_bit 32 (cc_value (counter s'))" by auto
  have "unat (take_bit 32 w) = unat w mod 2 ^ 32" for w :: u64
    by (simp only: unsigned_take_bit_eq take_bit_eq_mod [of 32 "unat w"])
  then have "unat (cc_value ctx) = unat (cc_value (counter s'))"
    unfolding ctx(2) using assms(4) by (simp add: c)
  then show ?thesis
    using ctx(1) r by (simp add: adv_time_def)
qed

theorem soft_reboot_forgets_pending_witness:
  "\<exists>ctx p. crypto_secure_counter_init demo \<lparr>cc_value = 0, storage_uid = storage_uid (counter (request_cb demo \<lparr>req_start = 0, req_count = 1\<rparr> demo_advertiser))\<rparr>
      (psa_store (adv_soft_reboot demo (request_cb demo \<lparr>req_start = 0, req_count = 1\<rparr> demo_advertiser))) = (PSA_SUCCESS, ctx, p) \<and>
    unat (cc_value ctx) + 1 = adv_time (request_cb demo \<lparr>req_start = 0, req_count = 1\<rparr> demo_advertiser)"
proof -
  let ?r = "\<lparr>req_start = 0, req_count = 1\<rparr>"
  obtain st ctx p where i: "crypto_secure_counter_init demo \<lparr>cc_value = 0, storage_uid = storage_uid (counter (request_cb demo ?r demo_advertiser))\<rparr>
      (psa_store (adv_soft_reboot demo (request_cb demo ?r demo_advertiser))) = (st, ctx, p)"
    by (metis prod.exhaust)
  have c: "covers ?r 0" by (simp add: covers_def sub_ix_def MAX_NUM_SUBEVENTS_def)
  have "adv_time demo_advertiser + 1 < 2 ^ 32"
    by (simp add: adv_time_def demo_advertiser_ok) (simp add: demo_advertiser_def init_bufs_rollover)
  from soft_reboot_forgets_pending [OF demo_psa_reliable demo_advertiser_ok(1) c this refl i] i show ?thesis
    by auto
qed

section \<open>Bringing up Bluetooth\<close>

text \<open>C28: the start-up makes its six Bluetooth calls in order, with 46 subevents in the parameters,
  stops at the first that fails and goes to the fault handler, and advertises only if none does.\<close>

theorem start_stops_at_first_error:
  assumes "adv_start pf s = (st, s')"
  shows "\<exists>ad. let calls = [Bt_enable, Bt_le_ext_adv_create,
        Bt_le_per_adv_set_param ((per_adv_params s)\<lparr>num_subevents := 46\<rparr>), Bt_le_ext_adv_set_data ad,
        Bt_le_per_adv_start, Bt_le_ext_adv_start]
    in (st = ADVERTISING \<and> zlog s' = zlog s @ calls) \<or>
       (st = FAULT_HANDLING \<and> (\<exists>k < length calls. zlog s' = zlog s @ take (Suc k) calls \<and>
          zephyr_ret pf (zlog s @ take k calls) (calls ! k) \<noteq> 0))"
proof -
  let ?p = "(per_adv_params s)\<lparr>num_subevents := 46\<rparr>"
  let ?s = "s\<lparr>per_adv_params := ?p, zlog := zlog s @ [Bt_enable, Bt_le_ext_adv_create, Bt_le_per_adv_set_param ?p],
     selection_data := \<lparr>num_reg_slots = 5\<rparr>\<rparr>"
  obtain buf p ad where d: "set_adv_data pf ?s = (zephyr_ret pf (zlog ?s) (Bt_le_ext_adv_set_data ad),
      ?s\<lparr>adv_data := buf, psa_store := p, zlog := zlog ?s @ [Bt_le_ext_adv_set_data ad]\<rparr>)"
    using set_adv_data_frame [of pf ?s] by blast
  define calls where "calls = [Bt_enable, Bt_le_ext_adv_create, Bt_le_per_adv_set_param ?p, Bt_le_ext_adv_set_data ad,
        Bt_le_per_adv_start, Bt_le_ext_adv_start]"
  have ex: "(\<exists>k < length calls. P k) \<longleftrightarrow> P 0 \<or> P 1 \<or> P 2 \<or> P 3 \<or> P 4 \<or> P 5" for P
    by (auto simp: calls_def less_Suc_eq numeral_eq_Suc)
  have "(st = ADVERTISING \<and> zlog s' = zlog s @ calls) \<or>
       (st = FAULT_HANDLING \<and> (\<exists>k < length calls. zlog s' = zlog s @ take (Suc k) calls \<and>
          zephyr_ret pf (zlog s @ take k calls) (calls ! k) \<noteq> 0))"
    using assms d unfolding ex
    by (auto simp: calls_def adv_start_def adv_check_def zephyr_call_def MAX_NUM_SUBEVENTS_def CONFIG_NUM_REGISTER_SLOTS_def Let_def
        split: if_splits)
  then show ?thesis
    unfolding calls_def by (intro exI [of _ ad]) (simp add: Let_def)
qed

theorem start_stops_at_first_error_witness:
  "\<exists>s' ad. adv_start demo demo_advertiser = (ADVERTISING, s') \<and> zlog s' = [Bt_enable, Bt_le_ext_adv_create,
        Bt_le_per_adv_set_param ((per_adv_params demo_advertiser)\<lparr>num_subevents := 46\<rparr>), Bt_le_ext_adv_set_data ad,
        Bt_le_per_adv_start, Bt_le_ext_adv_start]"
proof -
  obtain st s' where s: "adv_start demo demo_advertiser = (st, s')" by (metis prod.exhaust)
  have "zephyr_ret demo l c = 0" for l c by (simp add: demo_def store_platform_def)
  with start_stops_at_first_error [OF s] s demo_advertiser_ok(3) show ?thesis by (auto simp: Let_def)
qed

section \<open>The free list\<close>

text \<open>The free list is a stack of at most 20 slots: an append below the capacity succeeds and
  the next pop returns that slot and restores the list, an append at the capacity fails and
  changes nothing.\<close>

lemma free_list_append_pop:
  assumes "free_list_inv fl" and "free_list_append d fl = (r, fl')" and "free_list_pop e fl' = (r', x, fl'')"
  shows "if length (free_slots fl) < CONFIG_MAX_FREE_SLOTS
    then r = 0 \<and> r' = 0 \<and> x = d \<and> free_slots fl'' = free_slots fl \<and> free_list_inv fl''
    else r = - 1 \<and> fl' = fl"
proof (cases "length (free_slots fl) < CONFIG_MAX_FREE_SLOTS")
  case True
  with fls.append_ok [OF assms(1) _ assms(2)] have "r = 0" by simp
  with fls.pop_append [OF assms(1), of d fl' e] assms(2,3) True show ?thesis by auto
next
  case False
  with fls.append_full [OF assms(1), of d] fls.bounded [OF assms(1)] assms(2) show ?thesis by simp
qed

lemma free_list_append_pop_example:
  "\<exists>fl' fl''. free_list_append \<lparr>subevent = 2, rsp_slot = 7\<rparr> free_list_init = (0, fl') \<and>
    free_list_pop \<lparr>subevent = 0, rsp_slot = 0\<rparr> fl' = (0, \<lparr>subevent = 2, rsp_slot = 7\<rparr>, fl'') \<and> free_slots fl'' = []"
proof -
  obtain r fl' where a: "free_list_append \<lparr>subevent = 2, rsp_slot = 7\<rparr> free_list_init = (r, fl')" by (metis prod.exhaust)
  obtain r' x fl'' where p: "free_list_pop \<lparr>subevent = 0, rsp_slot = 0\<rparr> fl' = (r', x, fl'')" by (metis prod.exhaust)
  from free_list_append_pop [OF free_list_init_inv(1) a p] a p show ?thesis
    by (auto simp: CONFIG_MAX_FREE_SLOTS_def)
qed

end
