(* ===== verification/Advertiser_Start.thy ===== *)
theory Advertiser_Start
  imports Slot_Allocation Advertiser_Props
begin

text \<open>
  The state in which the advertiser is left by \<open>init\<close>, on the abstract side: all slots are free,
  the register slots are the slots 5 to 9 of subevent 0, nothing has been sent, and the counter is
  what was stored. Whether all calls of the host succeeded makes no difference for this.
\<close>

section \<open>The slots after \<open>init_bufs\<close>\<close>

lemma for_up_commute:
  assumes "\<And>i s. f i (g s) = g (f i s)"
  shows "for_up n f (g s) = g (for_up n f s)"
  by (induction n) (simp_all add: assms)

lemma init_bufs_log: "init_bufs pf (s\<lparr>zlog := l\<rparr>) = (init_bufs pf s)\<lparr>zlog := l\<rparr>"
proof -
  have "reserve_register_slot i (s\<lparr>zlog := l\<rparr>) = (reserve_register_slot i s)\<lparr>zlog := l\<rparr>" for i and s :: "'a advertiser"
    by (simp add: reserve_register_slot_def reserve_slot_def Let_def split: prod.split)
  moreover have "init_buf pf i (s\<lparr>zlog := l\<rparr>) = (init_buf pf i s)\<lparr>zlog := l\<rparr>" for i and s :: "'a advertiser"
    by (simp add: init_buf_def)
  ultimately show ?thesis
    using for_up_commute [of reserve_register_slot "\<lambda>s :: 'a advertiser. s\<lparr>zlog := l\<rparr>"] for_up_commute [of "init_buf pf" "\<lambda>s. s\<lparr>zlog := l\<rparr>"]
    by (simp add: init_bufs_def)
qed

definition start_abs :: "u64 \<Rightarrow> adv_abs" where
  "start_abs c = \<lparr>a_slots = replicate MAX_NUM_SUBEVENTS (replicate NUM_RSP_SLOTS Free), a_free = [],
     a_regs = map (slot_id 0) [5..<10], a_next = slot_id 0 10, a_counter = c, a_pending = 0, a_sent = []\<rparr>"

lemma init_bufs_sim:
  assumes "zephyr_net_buf pf" and "subevents_sent l = []"
  shows "adv_sim key_of (key_of p) tag ((init_bufs pf (adv_boot pf p))\<lparr>zlog := l\<rparr>) (start_abs 0)"
proof -
  let ?s = "init_bufs pf (adv_boot pf p)"
  have b: "length (bufs (adv_boot pf p)) = MAX_NUM_SUBEVENTS" "psa_store ?s = p" "cc_value (counter ?s) = 0"
    "map (map view) (rsp_slots ?s) = a_slots (start_abs 0)"
    by (simp_all add: init_bufs_fields init_bufs_rsp_slots) (simp_all add: adv_boot_def start_abs_def view_def)
  have "adv_inv ?s" by (rule init_bufs_inv [OF adv_inv_boot])
  with assms(2) b init_bufs_bufs_ok [OF assms(1) b(1)] show ?thesis
    by (simp add: adv_sim_def start_abs_def init_bufs_register_slots init_bufs_rollover)
qed

lemma start_abs_free: "sub < MAX_NUM_SUBEVENTS \<Longrightarrow> j < NUM_RSP_SLOTS \<Longrightarrow> a_slots (start_abs c) ! sub ! j = Free"
  by (simp add: start_abs_def)

lemma start_abs_alloc: "alloc_ok (start_abs c)"
proof -
  let ?a = "start_abs c"
  have held: "held_slots ?a = {}" and shape: "slots_shape ?a"
    by (auto simp: held_slots_def slots_shape_def start_abs_def)
  have lists: "a_free ?a = []" "a_regs ?a = map (slot_id 0) [5..<10]" "a_next ?a = slot_id 0 10"
    by (simp_all add: start_abs_def)
  have "inj_on (slot_id 0) {5..<10}"
    by (auto simp: inj_on_def slot_id_inj adv_sizes)
  then have dist: "distinct (a_regs ?a)"
    unfolding lists distinct_map set_upt by simp
  have below: "slot_ix (slot_id 0 j) \<and> slot_id 0 j < slot_id 0 10" if "j < 10" for j
    using that slot_ix_id [of j 0]
    by (simp add: slot_less_iff NUM_RSP_SLOTS_def) (simp add: slot_id_def word_less_nat_alt unat_of_nat)
  have "\<forall>d \<in> set (a_regs ?a). slot_ix d \<and> d < a_next ?a"
    unfolding lists set_map set_upt using below by auto
  moreover have "slot_ix (a_next ?a)"
    unfolding lists by (rule slot_ix_id) (simp add: NUM_RSP_SLOTS_def)
  ultimately show ?thesis
    using dist by (simp add: alloc_ok_def held shape lists(1))
qed

lemma start_abs_sent: "sent_ok (start_abs c)"
  by (simp add: sent_ok_def start_abs_def)

section \<open>\<open>init\<close>\<close>

text \<open>The state after \<open>init\<close>, on a device that boots with the store \<open>p\<close>.\<close>

definition started :: "'p platform \<Rightarrow> 'p \<Rightarrow> 'p advertiser" where
  "started pf p = snd (adv_init pf (adv_boot pf p))"

lemma init_helpers_log:
  "subevents_sent (zlog (snd (init_led pf led s))) = subevents_sent (zlog s)"
  "subevents_sent (zlog (snd (init_button pf s))) = subevents_sent (zlog s)"
  by (auto simp: init_led_def init_button_def zephyr_call_def zephyr_do_def Let_def)

fun is_subevent_data :: "zcall \<Rightarrow> bool" where
  "is_subevent_data (Bt_le_per_adv_set_subevent_data p) = True"
| "is_subevent_data c = False"

lemma adv_check_sim:
  assumes "adv_sim key_of keys tag s a" and "\<not> is_subevent_data c"
    and "\<And>s. adv_sim key_of keys tag s a \<Longrightarrow> adv_sim key_of keys tag (snd (k s)) a"
  shows "adv_sim key_of keys tag (snd (adv_check pf c k s)) a"
proof -
  have "adv_sim key_of keys tag (s\<lparr>zlog := zlog s @ [c]\<rparr>) a"
    using assms(1,2) by (cases c) (simp_all add: adv_sim_def)
  with assms(3) [OF this] show ?thesis by (simp add: adv_check_def zephyr_call_def Let_def)
qed

context pawr_platform
begin

lemma adv_start_sim:
  assumes "adv_sim key_of keys tag s a"
  shows "adv_sim key_of keys tag (snd (adv_start pf s)) a"
proof -
  have "adv_sim key_of keys tag (s\<lparr>per_adv_params := (per_adv_params s)\<lparr>num_subevents := of_nat MAX_NUM_SUBEVENTS\<rparr>\<rparr>) a"
    and "adv_sim key_of keys tag (s\<lparr>selection_data := d\<rparr>) a"
    if "adv_sim key_of keys tag s a" for s d
    using that by (simp_all add: adv_sim_def adv_inv_def)
  with assms show ?thesis
    unfolding adv_start_def Let_def split_beta by (intro adv_check_sim) (auto intro!: adv_check_sim set_adv_data_sim)
qed

lemma adv_init_sim:
  assumes "key_of p (COUNTER_ID pf) = Some x"
  shows "\<exists>c. adv_sim key_of (key_of p) tag (started pf p) (start_abs c) \<and>
    (\<forall>q ctx r. crypto_init pf p = (PSA_SUCCESS, q) \<longrightarrow>
       crypto_secure_counter_init pf \<lparr>cc_value = 0, storage_uid = COUNTER_ID pf\<rparr> q = (PSA_SUCCESS, ctx, r) \<longrightarrow> c = cc_value ctx)"
proof -
  obtain l where l: "snd (init_button pf (snd (init_led pf led1 (zephyr_do (K_sleep 5000) (adv_boot pf p))))) = (adv_boot pf p)\<lparr>zlog := l\<rparr>"
    using init_led_log [of pf led1 "zephyr_do (K_sleep 5000) (adv_boot pf p)"]
      init_button_log [of pf "snd (init_led pf led1 (zephyr_do (K_sleep 5000) (adv_boot pf p)))"]
    by (auto simp: zephyr_do_def)
  have "subevents_sent l = subevents_sent (zlog (snd (init_button pf (snd (init_led pf led1 (zephyr_do (K_sleep 5000) (adv_boot pf p)))))))"
    by (simp add: l)
  then have sent: "subevents_sent l = []"
    by (simp add: init_helpers_log zephyr_do_def adv_boot_def)
  let ?s = "(init_bufs pf (adv_boot pf p))\<lparr>zlog := l\<rparr>"
  note sim = init_bufs_sim [OF zephyr_net_buf_axioms sent, of key_of p tag]
  have s: "psa_store ?s = p" "counter ?s = \<lparr>cc_value = 0, storage_uid = COUNTER_ID pf\<rparr>"
    by (simp_all add: init_bufs_fields) (simp_all add: adv_boot_def)
  obtain e q where q: "crypto_init pf p = (e, q)" by (metis prod.exhaust)
  then have keys: "key_of q = key_of p" using init_keys by (auto simp: crypto_init_def)
  have sim1: "adv_sim key_of (key_of p) tag (?s\<lparr>psa_store := q\<rparr>) (start_abs 0)"
    using sim keys by (simp add: adv_sim_def adv_inv_def)
  obtain e' c r where c: "crypto_secure_counter_init pf (counter ?s) q = (e', c, r)" by (metis prod.exhaust)
  have "key_of q (storage_uid (counter ?s)) = Some x" using keys s assms by simp
  from counter_init_keeps(2) [OF c this] keys
  have sim2: "adv_sim key_of (key_of p) tag (?s\<lparr>counter := c, psa_store := r\<rparr>) (start_abs (cc_value c))"
    using sim by (simp add: adv_sim_def adv_inv_def start_abs_def)
  have st: "started pf p = (if e \<noteq> PSA_SUCCESS then ?s\<lparr>psa_store := q\<rparr>
     else if e' \<noteq> PSA_SUCCESS then ?s\<lparr>counter := c, psa_store := r\<rparr> else snd (adv_start pf (?s\<lparr>counter := c, psa_store := r\<rparr>)))"
    using q c s(1) by (simp add: started_def adv_init_def Let_def split_beta l init_bufs_log)
  show ?thesis
  proof (cases "e = PSA_SUCCESS")
    case False
    then have "started pf p = ?s\<lparr>psa_store := q\<rparr>" by (simp add: st)
    moreover have "crypto_init pf p \<noteq> (PSA_SUCCESS, q')" for q' using q False by simp
    ultimately show ?thesis using sim1 by (intro exI [of _ 0] conjI) (simp_all only:, blast)
  next
    case True
    have "adv_sim key_of (key_of p) tag (started pf p) (start_abs (cc_value c))"
      unfolding st using True sim2 adv_start_sim [OF sim2] by (simp only: if_False simp_thms split: if_split)
    moreover have "cc_value c = cc_value ctx" if "crypto_init pf p = (PSA_SUCCESS, q')"
        "crypto_secure_counter_init pf \<lparr>cc_value = 0, storage_uid = COUNTER_ID pf\<rparr> q' = (PSA_SUCCESS, ctx, r')" for q' ctx r'
      using that q c unfolding s(2) by simp
    ultimately show ?thesis by blast
  qed
qed

end

context pawr_reliable
begin

text \<open>On a device that was provisioned, the counter is what was stored.\<close>

lemma started_sim:
  assumes "key_of p (COUNTER_ID pf) = Some (a, d)" and "psa_key_usage_flags a = PSA_KEY_USAGE_EXPORT" and "length d \<le> 8"
  shows "adv_sim key_of (key_of p) tag (started pf p) (start_abs (of_le (store (le_bytes 8 (0 :: u64)) 0 d)))"
proof -
  let ?ctx = "\<lparr>cc_value = 0, storage_uid = COUNTER_ID pf\<rparr>"
  obtain e q where i: "psa_crypto_init pf p = (e, q)" by (metis prod.exhaust)
  have q: "e = PSA_SUCCESS" "key_of q = key_of p"
    using init_succeeds [of p] init_keys [OF i] i by simp_all
  obtain st tmp r where x: "psa_export_key pf (COUNTER_ID pf) 8 q = (st, tmp, r)" by (metis prod.exhaust)
  have "st = PSA_SUCCESS"
    using export_succeeds [of q "COUNTER_ID pf" a d 8] assms q x by simp
  with x have "fst (crypto_secure_counter_init pf ?ctx q) = PSA_SUCCESS"
    by (simp add: crypto_secure_counter_init_def SIZEOF_U64_def)
  then obtain ctx r' where c: "crypto_secure_counter_init pf ?ctx q = (PSA_SUCCESS, ctx, r')" by (metis prod.exhaust fst_conv)
  have "key_of q (storage_uid ?ctx) = Some (a, d)" using q assms(1) by simp
  from counter_init_ok(1) [OF c this] have "cc_value ctx = of_le (store (le_bytes 8 (0 :: u64)) 0 d)" by simp
  moreover have "crypto_init pf p = (PSA_SUCCESS, q)" using i q(1) by (simp add: crypto_init_def)
  ultimately show ?thesis
    using adv_init_sim [OF assms(1), of tag] c by auto
qed

end

end
