(* ===== verification/Advertiser_Batches.thy ===== *)
theory Advertiser_Batches
  imports Advertiser_Run
begin

text \<open>
  How the host splits a period into data requests makes no difference on the air: two requests for
  consecutive subevents do what one request for all of them does, except for when the pending
  counter is moved into the message counter. The advertising data, whose counter leaves the pending
  part out, are not covered.
\<close>

section \<open>Equal up to the pending counter\<close>

definition same_air :: "adv_abs \<Rightarrow> adv_abs \<Rightarrow> bool" where
  "same_air a b \<longleftrightarrow> a_slots a = a_slots b \<and> a_free a = a_free b \<and> a_regs a = a_regs b \<and> a_next a = a_next b \<and>
     a_sent a = a_sent b \<and> a_counter a + a_pending a = a_counter b + a_pending b"

lemma same_air_refl [simp]: "same_air a a"
  by (simp add: same_air_def)

lemma same_air_sym: "same_air a b \<Longrightarrow> same_air b a"
  by (simp add: same_air_def)

lemma same_air_trans: "same_air a b \<Longrightarrow> same_air b c \<Longrightarrow> same_air a c"
  by (simp add: same_air_def)

lemma same_air_subevent: "same_air a b \<Longrightarrow> same_air (abs_subevent sub a) (abs_subevent sub b)"
  by (simp add: same_air_def abs_subevent_def Let_def flip: add.assoc)

lemma same_air_fold: "same_air a b \<Longrightarrow> same_air (fold abs_subevent subs a) (fold abs_subevent subs b)"
  by (induction subs arbitrary: a b) (simp_all add: same_air_subevent)

text \<open>The subevents of a request, in order. A request is its rounds, up to the pending counter.\<close>

definition request_subs :: "bt_le_per_adv_data_request \<Rightarrow> nat list" where
  "request_subs r = map (sub_ix r) [0..<min (unat (req_count r)) MAX_NUM_SUBEVENTS]"

lemma same_air_request: "same_air (abs_request r a) (fold abs_subevent (request_subs r) a)"
proof -
  have "abs_request r a = fold abs_subevent (request_subs r) (a\<lparr>a_counter := a_counter a + a_pending a, a_pending := 0\<rparr>)"
    by (simp add: abs_request_def request_subs_def fold_map comp_def)
  also have "same_air \<dots> (fold abs_subevent (request_subs r) a)"
    by (rule same_air_fold) (simp add: same_air_def)
  finally show ?thesis .
qed

section \<open>Splitting a request\<close>

lemma request_subs_split:
  assumes "unat start + n < 256" and "n + m \<le> MAX_NUM_SUBEVENTS"
  shows "request_subs \<lparr>req_start = start, req_count = of_nat (n + m)\<rparr> =
    request_subs \<lparr>req_start = start, req_count = of_nat n\<rparr> @ request_subs \<lparr>req_start = start + of_nat n, req_count = of_nat m\<rparr>"
proof -
  have count: "min (unat (of_nat k :: u8)) MAX_NUM_SUBEVENTS = k" if "k \<le> MAX_NUM_SUBEVENTS" for k
    using that by (simp add: unat_of_nat MAX_NUM_SUBEVENTS_def)
  have start: "unat (start + of_nat n) = unat start + n"
    using assms by (simp add: unat_word_ariths unat_of_nat MAX_NUM_SUBEVENTS_def)
  have subs: "request_subs \<lparr>req_start = c, req_count = of_nat k\<rparr> = map (\<lambda>i. (unat c + i) mod MAX_NUM_SUBEVENTS) [0..<k]"
    if "k \<le> MAX_NUM_SUBEVENTS" for c :: u8 and k
    unfolding request_subs_def bt_le_per_adv_data_request.select_convs count [OF that] by (simp add: sub_ix_def)
  have le: "n \<le> MAX_NUM_SUBEVENTS" "m \<le> MAX_NUM_SUBEVENTS" using assms(2) by linarith+
  show ?thesis
    unfolding subs [OF assms(2)] subs [OF le(1)] subs [OF le(2)] start
    by (rule nth_equalityI) (auto simp: nth_append)
qed

lemma split_request:
  assumes "unat start + n < 256" and "n + m \<le> MAX_NUM_SUBEVENTS"
  shows "same_air (abs_request \<lparr>req_start = start, req_count = of_nat (n + m)\<rparr> a)
    (abs_request \<lparr>req_start = start + of_nat n, req_count = of_nat m\<rparr> (abs_request \<lparr>req_start = start, req_count = of_nat n\<rparr> a))"
    (is "same_air (abs_request ?r a) (abs_request ?r2 (abs_request ?r1 a))")
proof (rule same_air_trans [OF _ same_air_sym])
  show "same_air (abs_request ?r a) (fold abs_subevent (request_subs ?r2) (fold abs_subevent (request_subs ?r1) a))"
    using same_air_request [of ?r a] unfolding request_subs_split [OF assms] fold_append comp_apply .
  show "same_air (abs_request ?r2 (abs_request ?r1 a)) (fold abs_subevent (request_subs ?r2) (fold abs_subevent (request_subs ?r1) a))"
    by (rule same_air_trans [OF same_air_request same_air_fold [OF same_air_request]])
qed

end
