(* ===== verification/Data_Generator.thy ===== *)
theory Data_Generator
  imports Common
begin

text \<open>
  The data generator (\<open>lib/data_generator/data_generator.c\<close>): a periodic timer whose expiry
  fills the client's buffer and calls the client back. The buffer and the two callbacks are the
  fields of the configuration, here as a lens into the client's state and functions on it.
\<close>

section \<open>The code\<close>

record 's data_generator_config_t =
  dg_data :: "'s \<Rightarrow> net_buf_simple"
  dg_set_data :: "net_buf_simple \<Rightarrow> 's \<Rightarrow> 's"
  dg_interval :: int
  dg_init_buf :: "('s \<Rightarrow> 's) option"
  dg_generated :: "('s \<Rightarrow> 's) option"

definition data_generator_init ::
    "'s data_generator_config_t \<Rightarrow> ('p, 'x) device_scheme \<Rightarrow> ('p, 'x) device_scheme" where
  "data_generator_init config d = zephyr_do (K_timer_start (dg_interval config * 1000) (dg_interval config * 1000)) d"

definition data_generator_stop :: "('p, 'x) device_scheme \<Rightarrow> ('p, 'x) device_scheme" where
  "data_generator_stop d = zephyr_do K_timer_stop d"

text \<open>The expiry of the timer. The array \<open>data\<close> is as long as the data in the buffer when the
  timer expires, and what is added is as long as the data in the buffer after the reset.\<close>

definition generate_data ::
    "'p platform \<Rightarrow> ('p, 'x) device_scheme data_generator_config_t \<Rightarrow> ('p, 'x) device_scheme \<Rightarrow> ('p, 'x) device_scheme" where
  "generate_data pf config d =
     (let len = nb_len (dg_data config d);
          data = sys_rand_get pf (zlog d) len;
          d = zephyr_do (Sys_rand_get len) d;
          d = dg_set_data config (net_buf_simple_reset pf (dg_data config d)) d;
          d = (case dg_init_buf config of None \<Rightarrow> d | Some f \<Rightarrow> f d);
          buf = dg_data config d;
          d = dg_set_data config (net_buf_simple_add_mem pf buf (take (nb_len buf) data)) d
      in case dg_generated config of None \<Rightarrow> d | Some f \<Rightarrow> f d)"

section \<open>The timer\<close>

text \<open>The timer runs when the last call on it was a start.\<close>

fun timer_running :: "zcall list \<Rightarrow> bool" where
  "timer_running [] = False"
| "timer_running (c # cs) =
     (if \<exists>c' \<in> set cs. (case c' of K_timer_start _ _ \<Rightarrow> True | K_timer_stop \<Rightarrow> True | _ \<Rightarrow> False)
      then timer_running cs
      else (case c of K_timer_start _ _ \<Rightarrow> True | _ \<Rightarrow> False))"

lemma timer_running_snoc [simp]:
  "timer_running (cs @ [c]) = (case c of K_timer_start _ _ \<Rightarrow> True | K_timer_stop \<Rightarrow> False | _ \<Rightarrow> timer_running cs)"
  by (induction cs) (auto split: zcall.splits)

end
