(* ===== verification/Scanner.thy ===== *)
theory Scanner
  imports Data_Generator
begin

text \<open>
  The scanner (\<open>scanner/src/scanner_fsm.c\<close>): its state, the callbacks of the Bluetooth host and
  of the data generator, and the state functions. A state function that waits is cut at its waits:
  \<open>sc_point\<close> says where the main thread is, and the callbacks run between two of its steps.
  Logging is left out. What C leaves undefined is \<open>None\<close>, or a stray value where the
  compiled code merely reads something.
\<close>

section \<open>Constants and state\<close>

definition SCANNER_RSP_SLOTS :: nat where "SCANNER_RSP_SLOTS = 103"
definition CONFIG_NUM_FAILED_SYNC :: nat where "CONFIG_NUM_FAILED_SYNC = 6"
definition CONFIG_MAX_UNCONFIRMED_TICKS :: u8 where "CONFIG_MAX_UNCONFIRMED_TICKS = 4"
definition MESSAGE_RSP_BUF_SIZE :: nat where "MESSAGE_RSP_BUF_SIZE = 251"

text \<open>\<open>SCALE_INTERVAL_TO_TIMEOUT\<close> on an \<open>int\<close>, and its use in a 16-bit field.\<close>

definition SCALE_INTERVAL_TO_TIMEOUT :: "u16 \<Rightarrow> nat" where
  "SCALE_INTERVAL_TO_TIMEOUT interval = unat interval * 5 div 40"

definition sync_timeout_of :: "u16 \<Rightarrow> u16" where
  "sync_timeout_of interval = of_nat (SCALE_INTERVAL_TO_TIMEOUT interval * CONFIG_NUM_FAILED_SYNC)"

datatype sc_fsm_state = SC_INITIALIZE | SC_FAULT_HANDLING | SYNCING | REGISTERING | CONFIRMING | SLEEPING | ENABLED

datatype evt_t =
    EVT_NO_FAULT | EVT_BLE_ENABLE_FAILED | EVT_BLE_SCAN_START_FAILED | EVT_BLE_SYNC_TIMEOUT
  | EVT_BLE_SYNC_DELETED | EVT_CONFIRMATION_FAILED | EVT_DIDNT_RECEIVE_ACK | EVT_DATA_GENERATED
  | EVT_GOT_ACK | EVT_INVALID_HASH

text \<open>The values of \<open>sync_callbacks.recv\<close>.\<close>

datatype recv_cb = No_recv | Register_recv | Confirm_recv | Ack_recv

text \<open>Where the main thread is: about to run the current state's function, or inside it.\<close>

datatype sc_point =
    At_run | Init_slept | Fault_slept | Syncing_wait | Registering_wait_message | Registering_wait_deleted
  | Confirming_slept | Confirming_wait | Sleeping_wait | Enabled_wait

record 'p scanner = "'p device" +
  sc_state :: sc_fsm_state
  sc_at :: sc_point
  fault_reason :: evt_t
  sel_info :: subevent_sel_info_t
  selected_slot :: register_data_t
  default_sync :: "sync_ptr option"
  sync_interval :: u16
  message_rsp_buf :: net_buf_simple
  random_buf :: net_buf_simple
  response :: response_data_t
  response_has_data :: bool
  synced_evt_sem :: k_sem
  register_evt_sem :: k_sem
  synced_sem :: k_sem
  rsp_data_i :: rsp_data_t
  unconfirmed_ticks :: u8
  recv :: recv_cb
  sc_counter :: crypto_counter_t
  CONFIG_SCANNER_ID :: u16

definition new_sem :: k_sem where "new_sem = \<lparr>sem_count = 0, sem_limit = 1\<rparr>"

text \<open>The static initialisers; \<open>i\<close> is the device's Kconfig id. The storage of a buffer that
  \<open>NET_BUF_SIMPLE_DEFINE_STATIC\<close> defines is not initialised: it holds whatever it held.\<close>

definition noinit_bytes :: "'p platform \<Rightarrow> nat \<Rightarrow> byte list" where
  "noinit_bytes pf n = map (\<lambda>i. ucast (stray_u16 pf i)) [0..<n]"

lemma length_noinit_bytes [simp]: "length (noinit_bytes pf n) = n"
  by (simp add: noinit_bytes_def)

definition sc_boot :: "'p platform \<Rightarrow> u16 \<Rightarrow> 'p \<Rightarrow> 'p scanner" where
  "sc_boot pf i p = \<lparr>psa_store = p, zlog = [],
     sc_state = SC_INITIALIZE, sc_at = At_run, fault_reason = EVT_NO_FAULT,
     sel_info = \<lparr>num_reg_slots = 0\<rparr>, selected_slot = \<lparr>subevent = 0, rsp_slot = 0\<rparr>,
     default_sync = None, sync_interval = 0,
     message_rsp_buf = \<lparr>nb_buf = noinit_bytes pf MESSAGE_RSP_BUF_SIZE, nb_off = 0, nb_len = 0\<rparr>,
     random_buf = \<lparr>nb_buf = noinit_bytes pf UNUSED_DATA_LEN, nb_off = 0, nb_len = 0\<rparr>,
     response = \<lparr>rsp_metadata = \<lparr>sender_id = 0, rsp_counter = 0\<rparr>, rsp_data = [], data_len = 0, resp_counter = 0\<rparr>,
     response_has_data = False,
     synced_evt_sem = new_sem, register_evt_sem = new_sem, synced_sem = new_sem,
     rsp_data_i = \<lparr>sender_id = i, rsp_counter = 0\<rparr>,
     unconfirmed_ticks = 0, recv = No_recv,
     sc_counter = \<lparr>cc_value = 0, storage_uid = COUNTER_ID pf\<rparr>,
     CONFIG_SCANNER_ID = i\<rparr>"

definition give_synced_evt :: "'p platform \<Rightarrow> evt_t \<Rightarrow> 'p scanner \<Rightarrow> 'p scanner" where
  "give_synced_evt pf e s = s\<lparr>fault_reason := e, synced_evt_sem := k_sem_give pf (synced_evt_sem s)\<rparr>"

section \<open>Sync callbacks\<close>

definition sync_cb :: "'p platform \<Rightarrow> sync_ptr \<Rightarrow> 'p scanner \<Rightarrow> 'p scanner" where
  "sync_cb pf sync s =
     (let s = s\<lparr>default_sync := Some sync\<rparr>;
          (_, s) = zephyr_call pf (Bt_le_per_adv_sync_subevent sync [subevent (selected_slot s)]) s
      in s)"

definition term_cb :: "'p platform \<Rightarrow> u8 \<Rightarrow> 'p scanner \<Rightarrow> 'p scanner" where
  "term_cb pf reason s =
     (let s = s\<lparr>default_sync := None, fault_reason := EVT_BLE_SYNC_TIMEOUT\<rparr>;
          s = (if reason = 22 then s\<lparr>fault_reason := EVT_BLE_SYNC_DELETED\<rparr> else s)
      in s\<lparr>synced_evt_sem := k_sem_give pf (synced_evt_sem s)\<rparr>)"

section \<open>Receive callbacks\<close>

record bt_le_per_adv_sync_recv_info =
  recv_subevent :: u8
  periodic_event_counter :: u16

text \<open>The structure that a subevent message is read into; \<open>acks\<close> is what the local array
  holds beforehand.\<close>

definition subevent_result :: "ack_data_t list \<Rightarrow> subevent_data_t" where
  "subevent_result acks = \<lparr>register_data = [], ack_data = acks, sub_counter = 0,
     register_data_count = 0, ack_data_count = SCANNER_RSP_SLOTS\<rparr>"

definition stray_acks :: "'p platform \<Rightarrow> ack_data_t list" where
  "stray_acks pf = map (\<lambda>i. \<lparr>ack_id = stray_u16 pf i\<rparr>) [0..<SCANNER_RSP_SLOTS]"

definition no_acks :: "ack_data_t list" where
  "no_acks = replicate SCANNER_RSP_SLOTS \<lparr>ack_id = 0\<rparr>"

text \<open>\<open>verify_message(buf, ADVERTISER_KEY_ID, &counter.value)\<close>.\<close>

definition sc_verify :: "'p platform \<Rightarrow> net_buf_simple \<Rightarrow> 'p scanner \<Rightarrow> transfer_error_t \<times> net_buf_simple \<times> 'p scanner" where
  "sc_verify pf buf s =
     (let (err, buf, c, p) = verify_message pf buf (ADVERTISER_KEY_ID pf) (cc_value (sc_counter s)) (psa_store s)
      in (err, buf, s\<lparr>sc_counter := (sc_counter s)\<lparr>cc_value := c\<rparr>, psa_store := p\<rparr>))"

definition set_rsp_data ::
    "'p platform \<Rightarrow> sync_ptr \<Rightarrow> bt_le_per_adv_sync_recv_info \<Rightarrow> response_data_t \<Rightarrow> 'p scanner \<Rightarrow> int \<times> 'p scanner" where
  "set_rsp_data pf sync info resp s =
     (let rsp_params = \<lparr>request_event = periodic_event_counter info, request_subevent = recv_subevent info,
            response_subevent = recv_subevent info, response_slot = rsp_slot (selected_slot s)\<rparr>;
          buf = net_buf_simple_reset pf (message_rsp_buf s);
          buf = response_data_serialize pf resp buf;
          (_, buf, p) = sign_message pf buf (MIN_SCANNER_KEY_ID pf) (psa_store s);
          s = s\<lparr>message_rsp_buf := buf, psa_store := p\<rparr>;
          (ret, s) = zephyr_call pf (Bt_le_per_adv_set_response_data sync rsp_params (nb_data buf)) s
      in (ret, s\<lparr>sc_counter := (sc_counter s)\<lparr>cc_value := cc_value (sc_counter s) + 1\<rparr>\<rparr>))"

definition register_recv_cb ::
    "'p platform \<Rightarrow> sync_ptr \<Rightarrow> bt_le_per_adv_sync_recv_info \<Rightarrow> net_buf_simple option \<Rightarrow> 'p scanner \<Rightarrow> 'p scanner" where
  "register_recv_cb pf sync info buf s =
     (let s = s\<lparr>recv := No_recv\<rparr>
      in case buf of
           None \<Rightarrow> s
         | Some b \<Rightarrow>
             if nb_len b = 0 then s
             else let (err, b, s) = sc_verify pf b s
                  in if err \<noteq> TRANSFER_NO_ERROR
                     then s\<lparr>fault_reason := EVT_INVALID_HASH, register_evt_sem := k_sem_give pf (register_evt_sem s)\<rparr>
                     else let (err, _, _) = subevent_data_with_reg_deserialize pf (subevent_result (stray_acks pf)) b
                          in if err \<noteq> TRANSFER_NO_ERROR then s
                             else s\<lparr>register_evt_sem := k_sem_give pf (register_evt_sem s)\<rparr>)"

text \<open>The ack for the scanner's slot. A slot number past the array reads a stray ack.\<close>

definition own_ack :: "'p platform \<Rightarrow> subevent_data_t \<Rightarrow> 'p scanner \<Rightarrow> u16" where
  "own_ack pf d s =
     ack_id (array_read (\<lambda>i. \<lparr>ack_id = stray_u16 pf i\<rparr>) (ack_data d) (unat (rsp_slot (selected_slot s))))"

definition confirm_recv_cb ::
    "'p platform \<Rightarrow> sync_ptr \<Rightarrow> bt_le_per_adv_sync_recv_info \<Rightarrow> net_buf_simple option \<Rightarrow> 'p scanner \<Rightarrow> 'p scanner" where
  "confirm_recv_cb pf sync info buf s =
     (case buf of
        None \<Rightarrow> s
      | Some b \<Rightarrow>
          if nb_len b = 0 then s
          else
            let (err, b, s) = sc_verify pf b s
            in if err \<noteq> TRANSFER_NO_ERROR then give_synced_evt pf EVT_INVALID_HASH s
               else
                 let resp = \<lparr>rsp_metadata = rsp_data_i s, rsp_data = [], data_len = 0,
                             resp_counter = cc_value (sc_counter s)\<rparr>;
                     (err, d, _) = subevent_data_with_reg_deserialize pf (subevent_result no_acks) b
                 in if err \<noteq> TRANSFER_NO_ERROR \<or> own_ack pf d s \<noteq> CONFIG_SCANNER_ID s then
                      let (_, s) = set_rsp_data pf sync info resp s;
                          s = s\<lparr>unconfirmed_ticks := unconfirmed_ticks s + 1\<rparr>
                      in if unconfirmed_ticks s \<ge> CONFIG_MAX_UNCONFIRMED_TICKS
                         then give_synced_evt pf EVT_CONFIRMATION_FAILED s
                         else s
                    else give_synced_evt pf EVT_NO_FAULT s)"

text \<open>\<open>response.data\<close> points to the bytes of \<open>random\<close> (or nowhere, before the first data
  were generated), so the response is completed with those bytes when it is sent.\<close>

definition current_response :: "'p scanner \<Rightarrow> response_data_t" where
  "current_response s =
     (response s)\<lparr>rsp_data := if response_has_data s then drop (nb_off (random_buf s)) (nb_buf (random_buf s)) else []\<rparr>"

definition ack_recv_cb ::
    "'p platform \<Rightarrow> sync_ptr \<Rightarrow> bt_le_per_adv_sync_recv_info \<Rightarrow> net_buf_simple option \<Rightarrow> 'p scanner \<Rightarrow> 'p scanner" where
  "ack_recv_cb pf sync info buf s =
     (case buf of
        None \<Rightarrow> s
      | Some b \<Rightarrow>
          if nb_len b = 0 then s
          else
            let (err, b, s) = sc_verify pf b s
            in if err \<noteq> TRANSFER_NO_ERROR then give_synced_evt pf EVT_INVALID_HASH s
               else
                 let (err, d, _) = subevent_data_with_reg_deserialize pf (subevent_result (stray_acks pf)) b
                 in if \<not> (err \<noteq> TRANSFER_NO_ERROR \<or> own_ack pf d s \<noteq> CONFIG_SCANNER_ID s) then
                      give_synced_evt pf EVT_GOT_ACK (s\<lparr>recv := No_recv\<rparr>)
                    else
                      let s = s\<lparr>unconfirmed_ticks := unconfirmed_ticks s + 1\<rparr>
                      in if unconfirmed_ticks s \<ge> CONFIG_MAX_UNCONFIRMED_TICKS
                         then give_synced_evt pf EVT_DIDNT_RECEIVE_ACK s
                         else
                           let s = s\<lparr>response := (response s)\<lparr>resp_counter := cc_value (sc_counter s)\<rparr>\<rparr>
                           in snd (set_rsp_data pf sync info (current_response s) s))"

text \<open>The host calls the function that \<open>sync_callbacks.recv\<close> points to.\<close>

definition recv_dispatch ::
    "'p platform \<Rightarrow> sync_ptr \<Rightarrow> bt_le_per_adv_sync_recv_info \<Rightarrow> net_buf_simple option \<Rightarrow> 'p scanner \<Rightarrow> 'p scanner" where
  "recv_dispatch pf sync info buf s =
     (case recv s of
        No_recv \<Rightarrow> s
      | Register_recv \<Rightarrow> register_recv_cb pf sync info buf s
      | Confirm_recv \<Rightarrow> confirm_recv_cb pf sync info buf s
      | Ack_recv \<Rightarrow> ack_recv_cb pf sync info buf s)"

section \<open>Scanning\<close>

record bt_le_scan_recv_info =
  scan_addr :: "bt_addr_le_t option"
  scan_ext_adv :: bool
  scan_interval :: u16
  scan_sid :: u8

text \<open>One element of the advertising data: whether the parser goes on, and the error that the
  caller sees. The result is \<open>None\<close> where C leaves it undefined: the slot array of an
  advertisement that does not parse is a wild pointer, and the number of register slots may be a
  zero divisor.\<close>

definition parse_adv_data ::
    "'p platform \<Rightarrow> bt_data \<Rightarrow> 'p scanner \<Rightarrow> (bool \<times> transfer_error_t \<times> 'p scanner) option" where
  "parse_adv_data pf data s =
     (if bt_data_type data \<noteq> BT_DATA_MANUFACTURER_DATA then Some (True, TRANSFER_NO_ERROR, s)
      else
        let bytes = bt_data_data data;
            buf = \<lparr>nb_buf = replicate (length bytes) 0, nb_off = 0, nb_len = 0\<rparr>;
            buf = net_buf_simple_add_mem pf buf bytes;
            (err, buf, s) = sc_verify pf buf s
        in if err \<noteq> TRANSFER_NO_ERROR then Some (False, err, s)
           else
             let (err, adv, _) = advertisement_data_deserialize pf
                    \<lparr>reg_data = [], selection_info = \<lparr>num_reg_slots = 0\<rparr>, adv_counter = 0\<rparr> buf;
                 n = num_reg_slots (selection_info adv);
                 r = sys_rand8_get pf (zlog s) mod n
             in if err \<noteq> TRANSFER_NO_ERROR \<or> n = 0 then None
                else Some (False, TRANSFER_NO_ERROR,
                       zephyr_do Sys_rand8_get
                         (s\<lparr>sel_info := selection_info adv, selected_slot := reg_data adv ! unat r\<rparr>)))"

text \<open>\<open>bt_data_parse\<close>: over the elements, until the function returns false.\<close>

fun parse_elems ::
    "'p platform \<Rightarrow> bt_data list \<Rightarrow> 'p scanner \<Rightarrow> (transfer_error_t \<times> 'p scanner) option" where
  "parse_elems pf [] s = Some (TRANSFER_NO_ERROR, s)"
| "parse_elems pf (d # ds) s =
     (case parse_adv_data pf d s of
        None \<Rightarrow> None
      | Some (go_on, err, s) \<Rightarrow> if go_on then parse_elems pf ds s else Some (err, s))"

definition scan_recv_cb ::
    "'p platform \<Rightarrow> bt_le_scan_recv_info option \<Rightarrow> byte list \<Rightarrow> 'p scanner \<Rightarrow> 'p scanner option" where
  "scan_recv_cb pf info buf s =
     (case info of
        None \<Rightarrow> Some s
      | Some i \<Rightarrow>
          (case scan_addr i of
             None \<Rightarrow> Some s
           | Some addr \<Rightarrow>
               if \<not> scan_ext_adv i then Some s
               else if scan_interval i = 0 then Some s
               else
                 (case parse_elems pf (bt_data_parse_elems pf buf) s of
                    None \<Rightarrow> None
                  | Some (err, s) \<Rightarrow>
                      if err \<noteq> TRANSFER_NO_ERROR then Some s
                      else
                        let sync_create_param = \<lparr>sync_addr = addr, sync_options = 0, sync_sid = scan_sid i,
                              sync_skip = 0, sync_timeout = sync_timeout_of (scan_interval i)\<rparr>;
                            s = s\<lparr>sync_interval := scan_interval i\<rparr>;
                            sync = zephyr_sync pf (zlog s) (Bt_le_per_adv_sync_create sync_create_param);
                            (err, s) = zephyr_call pf (Bt_le_per_adv_sync_create sync_create_param) s
                        in if err \<noteq> 0 then Some s
                           else
                             let s = s\<lparr>default_sync := Some sync\<rparr>;
                                 (err, s) = zephyr_call pf Bt_le_scan_stop s
                             in if err \<noteq> 0 then Some s
                                else Some (s\<lparr>synced_sem := k_sem_give pf (synced_sem s)\<rparr>))))"

section \<open>Generated data\<close>

definition data_generated_cb :: "'p platform \<Rightarrow> 'p scanner \<Rightarrow> 'p scanner" where
  "data_generated_cb pf s =
     (let s = s\<lparr>rsp_data_i := (rsp_data_i s)\<lparr>rsp_counter := rsp_counter (rsp_data_i s) + 1\<rparr>\<rparr>;
          s = s\<lparr>response := (response s)\<lparr>rsp_metadata := rsp_data_i s, data_len := of_nat UNUSED_DATA_LEN\<rparr>,
                response_has_data := True\<rparr>
      in give_synced_evt pf EVT_DATA_GENERATED s)"

definition generator_config :: "'p platform \<Rightarrow> 'p scanner data_generator_config_t" where
  "generator_config pf = \<lparr>dg_data = random_buf, dg_set_data = (\<lambda>b s. s\<lparr>random_buf := b\<rparr>),
     dg_interval = CONFIG_BLOCK_TIME, dg_init_buf = None, dg_generated = Some (data_generated_cb pf)\<rparr>"

end
