(* ===== verification/Scanner_FSM.thy ===== *)
theory Scanner_FSM
  imports Scanner
begin

text \<open>
  The scanner's state functions (\<open>scanner/src/scanner_fsm.c\<close>, from \<open>init\<close> on), each cut
  at its waits into an entry and what follows, and the system they form with the callbacks. A
  segment that waits on a semaphore is \<open>None\<close> while the semaphore is not available; a wait
  with a timeout only goes round when the timeout is reached, so it is the same wait.
\<close>

section \<open>Leaving a state function\<close>

text \<open>\<open>return st\<close>: the loop makes \<open>st\<close> the current state and calls its function.\<close>

definition sc_return :: "sc_fsm_state \<Rightarrow> 'p scanner \<Rightarrow> 'p scanner" where
  "sc_return st s = s\<lparr>sc_state := st, sc_at := At_run\<rparr>"

definition sc_wait :: "sc_point \<Rightarrow> 'p scanner \<Rightarrow> 'p scanner" where
  "sc_wait at s = s\<lparr>sc_at := at\<rparr>"

section \<open>\<open>init\<close>\<close>

definition init_enter :: "'p scanner \<Rightarrow> 'p scanner" where
  "init_enter s = sc_wait Init_slept (zephyr_do (K_sleep 5000) s)"

definition init_resume :: "'p platform \<Rightarrow> 'p scanner \<Rightarrow> 'p scanner" where
  "init_resume pf s =
     (let (_, s) = init_led pf led2 s;
          (psa_err, p) = crypto_init pf (psa_store s);
          s = s\<lparr>psa_store := p\<rparr>
      in if psa_err \<noteq> PSA_SUCCESS then sc_return SC_FAULT_HANDLING s
         else
           let (psa_err, c, p) = crypto_secure_counter_init pf (sc_counter s) (psa_store s);
               s = s\<lparr>sc_counter := c, psa_store := p\<rparr>
           in if psa_err \<noteq> PSA_SUCCESS then sc_return SC_FAULT_HANDLING s
              else
                let s = s\<lparr>selected_slot := (selected_slot s)\<lparr>subevent := 0\<rparr>\<rparr>;
                    (err, s) = zephyr_call pf Bt_enable s
                in if err \<noteq> 0 then sc_return SC_FAULT_HANDLING (s\<lparr>fault_reason := EVT_BLE_ENABLE_FAILED\<rparr>)
                   else sc_return SYNCING (zephyr_do Bt_le_scan_cb_register s))"

section \<open>\<open>syncing\<close>\<close>

definition syncing_enter :: "'p platform \<Rightarrow> 'p scanner \<Rightarrow> 'p scanner" where
  "syncing_enter pf s =
     (let s = (if default_sync s \<noteq> None
               then (zephyr_do (Bt_le_per_adv_sync_delete (default_sync s)) s)\<lparr>default_sync := None\<rparr>
               else s);
          s = zephyr_do Bt_le_per_adv_sync_cb_register s;
          (err, s) = zephyr_call pf Bt_le_scan_start s
      in if err \<noteq> 0 then sc_return SC_FAULT_HANDLING (s\<lparr>fault_reason := EVT_BLE_SCAN_START_FAILED\<rparr>)
         else sc_wait Syncing_wait s)"

definition syncing_resume :: "'p platform \<Rightarrow> 'p scanner \<Rightarrow> 'p scanner option" where
  "syncing_resume pf s =
     (case k_sem_take_now pf (synced_sem s) of
        None \<Rightarrow> None
      | Some sem \<Rightarrow> Some (sc_return CONFIRMING (s\<lparr>synced_sem := k_sem_reset pf sem\<rparr>)))"

section \<open>\<open>handle_fault\<close>\<close>

definition handle_fault_enter :: "'p scanner \<Rightarrow> 'p scanner" where
  "handle_fault_enter s = sc_wait Fault_slept (zephyr_do (K_sleep 10000) s)"

section \<open>\<open>registering\<close>\<close>

definition registering_enter :: "'p scanner \<Rightarrow> 'p scanner" where
  "registering_enter s = sc_wait Registering_wait_message (s\<lparr>recv := Register_recv\<rparr>)"

definition registering_message :: "'p platform \<Rightarrow> 'p scanner \<Rightarrow> 'p scanner option" where
  "registering_message pf s =
     (case k_sem_take_now pf (register_evt_sem s) of
        None \<Rightarrow> None
      | Some sem \<Rightarrow>
          let s = s\<lparr>register_evt_sem := k_sem_reset pf sem\<rparr>
          in if fault_reason s = EVT_INVALID_HASH then
               let s = s\<lparr>recv := No_recv\<rparr>
               in Some (sc_return SYNCING (zephyr_do (Bt_le_per_adv_sync_delete (default_sync s)) s))
             else
               let info = zephyr_sync_info pf (zlog s) (default_sync s);
                   s = zephyr_do (Bt_le_per_adv_sync_get_info (default_sync s)) s;
                   sync_create_param = \<lparr>sync_addr = info_addr info, sync_options = 0, sync_sid = info_sid info,
                     sync_skip = 0, sync_timeout = sync_timeout_of (info_interval info)\<rparr>;
                   s = s\<lparr>sync_interval := info_interval info\<rparr>;
                   s = zephyr_do (Bt_le_per_adv_sync_delete (default_sync s)) s;
                   sync = zephyr_sync pf (zlog s) (Bt_le_per_adv_sync_create sync_create_param);
                   (err, s) = zephyr_call pf (Bt_le_per_adv_sync_create sync_create_param) s
               in if err \<noteq> 0 then Some (sc_return SC_FAULT_HANDLING s)
                  else Some (sc_wait Registering_wait_deleted (s\<lparr>default_sync := Some sync\<rparr>)))"

definition registering_deleted :: "'p platform \<Rightarrow> 'p scanner \<Rightarrow> 'p scanner option" where
  "registering_deleted pf s =
     (case k_sem_take_now pf (synced_evt_sem s) of
        None \<Rightarrow> None
      | Some sem \<Rightarrow>
          let s = s\<lparr>synced_evt_sem := sem\<rparr>
          in if fault_reason s \<noteq> EVT_BLE_SYNC_DELETED then Some (sc_return SC_FAULT_HANDLING s)
             else Some (sc_return CONFIRMING s))"

section \<open>\<open>confirming\<close>\<close>

text \<open>\<open>K_MSEC(sync_interval * 1.25)\<close>, cut to whole milliseconds.\<close>

definition confirming_enter :: "'p scanner \<Rightarrow> 'p scanner" where
  "confirming_enter s =
     (let s = s\<lparr>unconfirmed_ticks := 0\<rparr>
      in sc_wait Confirming_slept (zephyr_do (K_sleep (unat (sync_interval s) * 5 div 4)) s))"

definition confirming_start :: "'p scanner \<Rightarrow> 'p scanner" where
  "confirming_start s = sc_wait Confirming_wait (s\<lparr>recv := Confirm_recv\<rparr>)"

definition confirming_resume :: "'p platform \<Rightarrow> 'p scanner \<Rightarrow> 'p scanner option" where
  "confirming_resume pf s =
     (case k_sem_take_now pf (synced_evt_sem s) of
        None \<Rightarrow> None
      | Some sem \<Rightarrow>
          let s = s\<lparr>synced_evt_sem := k_sem_reset pf sem\<rparr>
          in Some (if fault_reason s \<in> {EVT_INVALID_HASH, EVT_CONFIRMATION_FAILED, EVT_BLE_SYNC_DELETED, EVT_BLE_SYNC_TIMEOUT}
                   then sc_return SYNCING (s\<lparr>recv := No_recv\<rparr>)
                   else if fault_reason s = EVT_NO_FAULT
                   then sc_return SLEEPING (data_generator_init (generator_config pf) s)
                   else sc_return SC_FAULT_HANDLING s))"

section \<open>\<open>sleeping\<close>\<close>

text \<open>\<open>default_sync\<close> may be null here and in \<open>enabled\<close>; what the host makes of that is its own affair, the call is recorded.\<close>

definition sleeping_enter :: "'p scanner \<Rightarrow> 'p scanner" where
  "sleeping_enter s = sc_wait Sleeping_wait (zephyr_do (Bt_le_per_adv_sync_recv_disable (default_sync s)) s)"

definition sleeping_resume :: "'p platform \<Rightarrow> 'p scanner \<Rightarrow> 'p scanner option" where
  "sleeping_resume pf s =
     (case k_sem_take_now pf (synced_evt_sem s) of
        None \<Rightarrow> None
      | Some _ \<Rightarrow>
          let s = s\<lparr>synced_evt_sem := k_sem_init pf 0 1\<rparr>
          in Some (if fault_reason s = EVT_NO_FAULT then s
                   else if fault_reason s \<in> {EVT_INVALID_HASH, EVT_BLE_SYNC_TIMEOUT}
                   then sc_return SYNCING ((data_generator_stop s)\<lparr>recv := No_recv\<rparr>)
                   else if fault_reason s = EVT_DATA_GENERATED then sc_return ENABLED (s\<lparr>recv := No_recv\<rparr>)
                   else sc_return SC_FAULT_HANDLING ((data_generator_stop s)\<lparr>recv := No_recv\<rparr>)))"

section \<open>\<open>enabled\<close>\<close>

definition enabled_enter :: "'p scanner \<Rightarrow> 'p scanner" where
  "enabled_enter s =
     (let s = s\<lparr>recv := Ack_recv, unconfirmed_ticks := 0\<rparr>
      in sc_wait Enabled_wait (zephyr_do (Bt_le_per_adv_sync_recv_enable (default_sync s)) s))"

definition enabled_resume :: "'p platform \<Rightarrow> 'p scanner \<Rightarrow> 'p scanner option" where
  "enabled_resume pf s =
     (case k_sem_take_now pf (synced_evt_sem s) of
        None \<Rightarrow> None
      | Some sem \<Rightarrow>
          let s = s\<lparr>synced_evt_sem := k_sem_reset pf sem\<rparr>
          in Some (if fault_reason s = EVT_GOT_ACK
                   then sc_return SLEEPING (zephyr_do (Bt_le_per_adv_sync_recv_disable (default_sync s)) s)
                   else if fault_reason s \<in> {EVT_DIDNT_RECEIVE_ACK, EVT_INVALID_HASH, EVT_BLE_SYNC_TIMEOUT}
                   then sc_return SYNCING (data_generator_stop s)
                   else if fault_reason s = EVT_DATA_GENERATED then sc_return ENABLED s
                   else sc_return SC_FAULT_HANDLING (data_generator_stop s)))"

section \<open>The loop\<close>

definition sc_state_str :: "sc_fsm_state \<Rightarrow> string" where
  "sc_state_str st =
     (case st of SC_INITIALIZE \<Rightarrow> ''INITIALIZE'' | SC_FAULT_HANDLING \<Rightarrow> ''FAULT_HANDLING''
      | SYNCING \<Rightarrow> ''SYNCING'' | SLEEPING \<Rightarrow> ''SLEEPING'' | ENABLED \<Rightarrow> ''ENABLED''
      | REGISTERING \<Rightarrow> ''REGISTERING'' | CONFIRMING \<Rightarrow> ''CONFIRMING'')"

text \<open>The table \<open>states\<close>, with the entry of each state's function, and \<open>run_state\<close>, which calls the
  current one's.\<close>

definition sc_states :: "'p platform \<Rightarrow> sc_fsm_state \<Rightarrow> 'p scanner \<Rightarrow> 'p scanner" where
  "sc_states pf st =
     (case st of
        SC_INITIALIZE \<Rightarrow> init_enter
      | SC_FAULT_HANDLING \<Rightarrow> handle_fault_enter
      | SYNCING \<Rightarrow> syncing_enter pf
      | REGISTERING \<Rightarrow> registering_enter
      | CONFIRMING \<Rightarrow> confirming_enter
      | SLEEPING \<Rightarrow> sleeping_enter
      | ENABLED \<Rightarrow> enabled_enter)"

definition sc_run_state :: "'p platform \<Rightarrow> 'p scanner \<Rightarrow> 'p scanner" where
  "sc_run_state pf s = sc_states pf (sc_state s) s"

lemma sc_states_simps [simp]:
  "sc_states pf SC_INITIALIZE = init_enter" "sc_states pf SC_FAULT_HANDLING = handle_fault_enter"
  "sc_states pf SYNCING = syncing_enter pf" "sc_states pf REGISTERING = registering_enter"
  "sc_states pf CONFIRMING = confirming_enter" "sc_states pf SLEEPING = sleeping_enter" "sc_states pf ENABLED = enabled_enter"
  by (simp_all add: sc_states_def)

text \<open>One step of the main thread. \<open>Fault_slept\<close> reboots, so it has no step.\<close>

definition sc_main :: "'p platform \<Rightarrow> 'p scanner \<Rightarrow> 'p scanner option" where
  "sc_main pf s =
     (case sc_at s of
        At_run \<Rightarrow> Some (sc_run_state pf s)
      | Init_slept \<Rightarrow> Some (init_resume pf s)
      | Fault_slept \<Rightarrow> None
      | Syncing_wait \<Rightarrow> syncing_resume pf s
      | Registering_wait_message \<Rightarrow> registering_message pf s
      | Registering_wait_deleted \<Rightarrow> registering_deleted pf s
      | Confirming_slept \<Rightarrow> Some (confirming_start s)
      | Confirming_wait \<Rightarrow> confirming_resume pf s
      | Sleeping_wait \<Rightarrow> sleeping_resume pf s
      | Enabled_wait \<Rightarrow> enabled_resume pf s)"

text \<open>The system: the main thread, the callbacks of the host, the timer while it runs, and the
  reboot at the end of \<open>handle_fault\<close>, which keeps the PSA store.\<close>

inductive sc_step :: "'p platform \<Rightarrow> 'p scanner \<Rightarrow> 'p scanner \<Rightarrow> bool" for pf :: "'p platform" where
  step_main: "sc_main pf s = Some s' \<Longrightarrow> sc_step pf s s'"
| step_synced: "sc_step pf s (sync_cb pf sync s)"
| step_term: "sc_step pf s (term_cb pf reason s)"
| step_recv: "(\<forall>b. buf = Some b \<longrightarrow> nb_wf b) \<Longrightarrow> sc_step pf s (recv_dispatch pf sync info buf s)"
| step_scan: "scan_recv_cb pf info bytes s = Some s' \<Longrightarrow> sc_step pf s s'"
| step_timer: "timer_running (zlog s) \<Longrightarrow> sc_step pf s (generate_data pf (generator_config pf) s)"
| step_reboot: "sc_at s = Fault_slept \<Longrightarrow> sc_step pf s (sc_boot pf (CONFIG_SCANNER_ID s) (psa_store s))"

inductive sc_reach :: "'p platform \<Rightarrow> u16 \<Rightarrow> 'p \<Rightarrow> 'p scanner \<Rightarrow> bool"
  for pf :: "'p platform" and i :: u16 and p0 :: 'p where
  sc_reach_boot: "sc_reach pf i p0 (sc_boot pf i p0)"
| sc_reach_step: "sc_reach pf i p0 s \<Longrightarrow> sc_step pf s s' \<Longrightarrow> sc_reach pf i p0 s'"

end
