(* ===== verification/Scanner_Read.thy ===== *)
theory Scanner_Read
  imports Scanner_FSM
begin

text \<open>
  How the scanner reads a subevent message, on its bytes: \<open>reading\<close> says whether the message
  is authentic and fresh and whether it acknowledges the scanner in its slot. The receive
  callbacks are shown to branch on this reading, and \<open>set_rsp_data\<close> to send the wire format of
  the response with its MAC.
\<close>

section \<open>The reading of a message\<close>

datatype reading = Unauthentic | Nack u64 | Ack u64

definition ack_bytes :: nat where "ack_bytes = 2 * SCANNER_RSP_SLOTS"

definition read_message ::
    "(byte list \<Rightarrow> byte list option) \<Rightarrow> u16 \<Rightarrow> nat \<Rightarrow> u64 \<Rightarrow> byte list \<Rightarrow> reading" where
  "read_message macf i slot c m =
     (let (e, payload, c') = verify_spec macf m c
      in if e \<noteq> TRANSFER_NO_ERROR then Unauthentic
         else if length payload < ack_bytes then Nack c'
         else if ack_id (as_ack_data (drop (length payload - ack_bytes) payload) ! slot) = i then Ack c'
         else Nack c')"

definition response_body :: "response_data_t \<Rightarrow> byte list" where
  "response_body resp = response_wire resp @ le_bytes 8 (resp_counter resp)"

definition response_params :: "bt_le_per_adv_sync_recv_info \<Rightarrow> 'x scanner \<Rightarrow> bt_le_per_adv_response_params" where
  "response_params info s = \<lparr>request_event = periodic_event_counter info, request_subevent = recv_subevent info,
     response_subevent = recv_subevent info, response_slot = rsp_slot (selected_slot s)\<rparr>"

section \<open>Verifying and deserialising\<close>

definition sc_with :: "u64 \<Rightarrow> 'p \<Rightarrow> 'p scanner \<Rightarrow> 'p scanner" where
  "sc_with c p s = s\<lparr>sc_counter := (sc_counter s)\<lparr>cc_value := c\<rparr>, psa_store := p\<rparr>"

context pawr_platform
begin

lemma sc_verify_read:
  assumes "nb_wf b"
  shows "\<exists>b' c' p'. sc_verify pf b s =
      (fst (verify_spec (mac_of pf (ADVERTISER_KEY_ID pf) (psa_store s)) (nb_data b) (cc_value (sc_counter s))), b', sc_with c' p' s) \<and>
    verify_spec (mac_of pf (ADVERTISER_KEY_ID pf) (psa_store s)) (nb_data b) (cc_value (sc_counter s)) =
      (fst (verify_spec (mac_of pf (ADVERTISER_KEY_ID pf) (psa_store s)) (nb_data b) (cc_value (sc_counter s))), nb_data b', c') \<and>
    nb_wf b' \<and> key_of p' = key_of (psa_store s)"
proof -
  from verify_refines [OF assms, of "ADVERTISER_KEY_ID pf" "cc_value (sc_counter s)" "psa_store s"]
  obtain b' c' p' where v: "verify_message pf b (ADVERTISER_KEY_ID pf) (cc_value (sc_counter s)) (psa_store s) =
      (fst (verify_spec (mac_of pf (ADVERTISER_KEY_ID pf) (psa_store s)) (nb_data b) (cc_value (sc_counter s))), b', c', p')"
    and "verify_spec (mac_of pf (ADVERTISER_KEY_ID pf) (psa_store s)) (nb_data b) (cc_value (sc_counter s)) =
      (fst (verify_spec (mac_of pf (ADVERTISER_KEY_ID pf) (psa_store s)) (nb_data b) (cc_value (sc_counter s))), nb_data b', c')"
    and "nb_wf b'" and "key_of p' = key_of (psa_store s)"
    by blast
  then show ?thesis
    by (intro exI [of _ b'] exI [of _ c'] exI [of _ p']) (simp add: sc_verify_def sc_with_def)
qed

lemma subevent_result_read:
  assumes "nb_wf b" and "length acks = SCANNER_RSP_SLOTS"
  shows "\<exists>b'. subevent_data_with_reg_deserialize pf (subevent_result acks) b =
    (if nb_len b < ack_bytes then (TRANSFER_MESSAGE_TO_SHORT, subevent_result acks, b)
     else (TRANSFER_NO_ERROR, subevent_result (as_ack_data (drop (nb_len b - ack_bytes) (nb_data b))), b'))"
proof (cases "nb_len b < ack_bytes")
  case True
  then show ?thesis
    by (simp add: subevent_data_with_reg_deserialize_def subevent_result_def ack_bytes_def)
next
  case False
  then have "nb_last b ack_bytes = drop (nb_len b - ack_bytes) (nb_data b)"
    by (simp add: nb_last_eq)
  with False assms show ?thesis
    by (simp add: subevent_data_with_reg_deserialize_def subevent_result_def ack_bytes_def ack_loop Let_def)
qed

text \<open>Both receive callbacks decide on the reading.\<close>

lemma decide_read:
  assumes wf: "nb_wf b" and len: "length acks = SCANNER_RSP_SLOTS"
    and slot: "unat (rsp_slot (selected_slot s)) < SCANNER_RSP_SLOTS"
    and r: "r = read_message (mac_of pf (ADVERTISER_KEY_ID pf) (psa_store s)) (CONFIG_SCANNER_ID s)
              (unat (rsp_slot (selected_slot s))) (cc_value (sc_counter s)) (nb_data b)"
  obtains (unauthentic) e b' c' p' where "r = Unauthentic" "e \<noteq> TRANSFER_NO_ERROR"
      "sc_verify pf b s = (e, b', sc_with c' p' s)" "c' = cc_value (sc_counter s)" "key_of p' = key_of (psa_store s)"
  | (ack) b' c' p' d b'' where "r = Ack c'"
      "sc_verify pf b s = (TRANSFER_NO_ERROR, b', sc_with c' p' s)" "key_of p' = key_of (psa_store s)"
      "subevent_data_with_reg_deserialize pf (subevent_result acks) b' = (TRANSFER_NO_ERROR, d, b'')"
      "own_ack pf d (sc_with c' p' s) = CONFIG_SCANNER_ID s"
  | (nack) b' c' p' err d b'' where "r = Nack c'"
      "sc_verify pf b s = (TRANSFER_NO_ERROR, b', sc_with c' p' s)" "key_of p' = key_of (psa_store s)"
      "subevent_data_with_reg_deserialize pf (subevent_result acks) b' = (err, d, b'')"
      "err \<noteq> TRANSFER_NO_ERROR \<or> own_ack pf d (sc_with c' p' s) \<noteq> CONFIG_SCANNER_ID s"
proof -
  let ?spec = "verify_spec (mac_of pf (ADVERTISER_KEY_ID pf) (psa_store s)) (nb_data b) (cc_value (sc_counter s))"
  let ?slot = "unat (rsp_slot (selected_slot s))"
  obtain b' c' p' where v: "sc_verify pf b s = (fst ?spec, b', sc_with c' p' s)"
    and sp: "?spec = (fst ?spec, nb_data b', c')" and wf': "nb_wf b'" and k: "key_of p' = key_of (psa_store s)"
    using sc_verify_read [OF wf, of s] by blast
  show thesis
  proof (cases "fst ?spec = TRANSFER_NO_ERROR")
    case False
    then have "r = Unauthentic"
      unfolding r read_message_def by (simp add: split_beta)
    moreover have "c' = cc_value (sc_counter s)"
      using sp False by (auto simp: verify_spec_def Let_def split: if_splits option.splits)
    ultimately show thesis using unauthentic v False k by blast
  next
    case True
    with sp have spec: "?spec = (TRANSFER_NO_ERROR, nb_data b', c')" by simp
    have l: "length (nb_data b') = nb_len b'" using wf' by simp
    obtain b'' where d: "subevent_data_with_reg_deserialize pf (subevent_result acks) b' =
      (if nb_len b' < ack_bytes then (TRANSFER_MESSAGE_TO_SHORT, subevent_result acks, b')
       else (TRANSFER_NO_ERROR, subevent_result (as_ack_data (drop (nb_len b' - ack_bytes) (nb_data b'))), b''))"
      using subevent_result_read [OF wf' len] by blast
    let ?d = "subevent_result (as_ack_data (drop (nb_len b' - ack_bytes) (nb_data b')))"
    have own: "own_ack pf ?d (sc_with c' p' s) = ack_id (as_ack_data (drop (nb_len b' - ack_bytes) (nb_data b')) ! ?slot)"
      if "\<not> nb_len b' < ack_bytes"
      using that slot l by (simp add: own_ack_def subevent_result_def sc_with_def array_read_def ack_bytes_def)
    have rd: "r = (if nb_len b' < ack_bytes then Nack c'
       else if ack_id (as_ack_data (drop (nb_len b' - ack_bytes) (nb_data b')) ! ?slot) = CONFIG_SCANNER_ID s then Ack c' else Nack c')"
      unfolding r read_message_def spec by (simp add: l)
    show thesis
    proof (cases "nb_len b' < ack_bytes")
      case short: True
      with nack rd v d k True show thesis by simp
    next
      case long: False
      with own rd v d k True ack nack show thesis
        by (cases "own_ack pf ?d (sc_with c' p' s) = CONFIG_SCANNER_ID s") simp_all
    qed
  qed
qed

text \<open>Sending a response: the wire format, the counter and the MAC, in the subevent of the
  request and the scanner's slot; the counter moves on.\<close>

lemma set_rsp_data_sends:
  assumes buf: "length (nb_buf (message_rsp_buf s)) = MESSAGE_RSP_BUF_SIZE"
    and len: "length (response_wire resp) \<le> 200"
  shows "\<exists>t b p. set_rsp_data pf sync info resp s =
      (zephyr_ret pf (zlog s) (Bt_le_per_adv_set_response_data sync (response_params info s) (response_body resp @ t)),
       s\<lparr>message_rsp_buf := b, psa_store := p,
         zlog := zlog s @ [Bt_le_per_adv_set_response_data sync (response_params info s) (response_body resp @ t)],
         sc_counter := (sc_counter s)\<lparr>cc_value := cc_value (sc_counter s) + 1\<rparr>\<rparr>) \<and>
     length t = HASH_LEN \<and> length (nb_buf b) = MESSAGE_RSP_BUF_SIZE \<and> key_of p = key_of (psa_store s) \<and>
     (\<forall>tag. mac_of pf (MIN_SCANNER_KEY_ID pf) (psa_store s) (response_body resp) = Some tag \<longrightarrow> t = tag)"
proof -
  let ?b = "net_buf_simple_reset pf (message_rsp_buf s)" and ?body = "response_body resp"
  have room: "nb_wf ?b" "nb_tailroom ?b = 251" "nb_data ?b = []"
    using buf by (simp_all add: MESSAGE_RSP_BUF_SIZE_def)
  have l: "length ?body \<le> 208" using len by (simp add: response_body_def)
  have ser: "response_data_serialize pf resp ?b = nb_append ?b ?body"
    using response_data_serialize_eq [OF room(1), of resp] room(2) len by (simp add: response_body_def)
  let ?m = "nb_append ?b ?body"
  have m: "nb_wf ?m" "nb_data ?m = ?body" "HASH_LEN \<le> nb_tailroom ?m" "length (nb_buf ?m) = 251"
    using room l buf by (simp_all add: nb HASH_LEN_def MESSAGE_RSP_BUF_SIZE_def)
  from sign_shape [OF m(1,3), of "MIN_SCANNER_KEY_ID pf" "psa_store s"] obtain t st p where
    s: "sign_message pf ?m (MIN_SCANNER_KEY_ID pf) (psa_store s) = (st, nb_append ?m t, p)" "length t = HASH_LEN"
      "key_of p = key_of (psa_store s)"
    and mac: "case mac_of pf (MIN_SCANNER_KEY_ID pf) (psa_store s) ?body of
        None \<Rightarrow> st = TRANSFER_COULDNT_COMPUTE_MAC | Some tag \<Rightarrow> st = TRANSFER_NO_ERROR \<and> t = tag"
    unfolding m(2) by blast
  have d: "nb_data (nb_append ?m t) = ?body @ t" "length (nb_buf (nb_append ?m t)) = MESSAGE_RSP_BUF_SIZE"
    using nb_data_append [OF m(1), of t] nb_size_append [OF m(1), of t] m s(2) by (simp_all add: MESSAGE_RSP_BUF_SIZE_def)
  have "\<forall>tag. mac_of pf (MIN_SCANNER_KEY_ID pf) (psa_store s) ?body = Some tag \<longrightarrow> t = tag"
    using mac by auto
  moreover have "set_rsp_data pf sync info resp s =
      (zephyr_ret pf (zlog s) (Bt_le_per_adv_set_response_data sync (response_params info s) (?body @ t)),
       s\<lparr>message_rsp_buf := nb_append ?m t, psa_store := p,
         zlog := zlog s @ [Bt_le_per_adv_set_response_data sync (response_params info s) (?body @ t)],
         sc_counter := (sc_counter s)\<lparr>cc_value := cc_value (sc_counter s) + 1\<rparr>\<rparr>)"
    using s(1) d(1) by (simp add: set_rsp_data_def ser zephyr_call_def response_params_def Let_def)
  ultimately show ?thesis
    using d(2) s(2,3) by (intro exI [of _ t] exI [of _ "nb_append ?m t"] exI [of _ p]) simp
qed

end

end
