(* ===== verification/Scanner_Inv.thy ===== *)
theory Scanner_Inv
  imports Scanner_Read
begin

text \<open>
  The invariant of the scanner's reachable states. It needs the buffer and semaphore laws: the
  callbacks keep the buffers at their sizes only if the platform does.
\<close>

section \<open>The invariant\<close>

definition sem_ok :: "k_sem \<Rightarrow> bool" where
  "sem_ok x \<longleftrightarrow> sem_limit x = 1 \<and> sem_count x \<le> 1"

text \<open>The state function that a point lies in.\<close>

fun state_of :: "sc_point \<Rightarrow> sc_fsm_state" where
  "state_of At_run = SC_INITIALIZE"
| "state_of Init_slept = SC_INITIALIZE"
| "state_of Fault_slept = SC_FAULT_HANDLING"
| "state_of Syncing_wait = SYNCING"
| "state_of Registering_wait_message = REGISTERING"
| "state_of Registering_wait_deleted = REGISTERING"
| "state_of Confirming_slept = CONFIRMING"
| "state_of Confirming_wait = CONFIRMING"
| "state_of Sleeping_wait = SLEEPING"
| "state_of Enabled_wait = ENABLED"

definition sc_inv :: "u16 \<Rightarrow> 'p scanner \<Rightarrow> bool" where
  "sc_inv i s \<longleftrightarrow>
     sc_state s \<noteq> REGISTERING \<and> (sc_at s = At_run \<or> sc_state s = state_of (sc_at s)) \<and>
     recv s \<noteq> Register_recv \<and> CONFIG_SCANNER_ID s = i \<and> sender_id (rsp_data_i s) = i \<and>
     nb_off (random_buf s) = 0 \<and> nb_len (random_buf s) = 0 \<and> length (nb_buf (random_buf s)) = UNUSED_DATA_LEN \<and>
     length (nb_buf (message_rsp_buf s)) = MESSAGE_RSP_BUF_SIZE \<and>
     (if response_has_data s then data_len (response s) = of_nat UNUSED_DATA_LEN \<and> sender_id (rsp_metadata (response s)) = i
      else data_len (response s) = 0) \<and>
     sem_ok (synced_evt_sem s) \<and> sem_ok (synced_sem s)"

text \<open>Changes that the invariant does not see.\<close>

lemma sc_inv_updates [simp]:
  "sc_inv i (s\<lparr>zlog := l\<rparr>) = sc_inv i s"
  "sc_inv i (s\<lparr>psa_store := p\<rparr>) = sc_inv i s"
  "sc_inv i (s\<lparr>sc_counter := c\<rparr>) = sc_inv i s"
  "sc_inv i (s\<lparr>fault_reason := e\<rparr>) = sc_inv i s"
  "sc_inv i (s\<lparr>default_sync := d\<rparr>) = sc_inv i s"
  "sc_inv i (s\<lparr>sync_interval := n\<rparr>) = sc_inv i s"
  "sc_inv i (s\<lparr>unconfirmed_ticks := u\<rparr>) = sc_inv i s"
  "sc_inv i (s\<lparr>selected_slot := r\<rparr>) = sc_inv i s"
  "sc_inv i (s\<lparr>sel_info := n'\<rparr>) = sc_inv i s"
  "sc_inv i (s\<lparr>register_evt_sem := q\<rparr>) = sc_inv i s"
  "sc_inv i (s\<lparr>response := (response s)\<lparr>resp_counter := v\<rparr>\<rparr>) = sc_inv i s"
  by (simp_all add: sc_inv_def)

lemma sc_inv_recv: "sc_inv i s \<Longrightarrow> x \<noteq> Register_recv \<Longrightarrow> sc_inv i (s\<lparr>recv := x\<rparr>)"
  by (simp add: sc_inv_def)

lemma sc_inv_do [simp]: "sc_inv i (zephyr_do c s) = sc_inv i s"
  by (simp add: zephyr_do_def)

lemma sc_inv_return: "sc_inv i s \<Longrightarrow> st \<noteq> REGISTERING \<Longrightarrow> sc_inv i (sc_return st s)"
  by (simp add: sc_return_def sc_inv_def)

lemma sc_inv_wait:
  "sc_inv i s \<Longrightarrow> sc_state s = state_of at \<Longrightarrow> sc_inv i (sc_wait at s)"
  by (simp add: sc_wait_def sc_inv_def)

lemma sc_inv_sems:
  "sc_inv i s \<Longrightarrow> sem_ok x \<Longrightarrow> sc_inv i (s\<lparr>synced_evt_sem := x\<rparr>)"
  "sc_inv i s \<Longrightarrow> sem_ok x \<Longrightarrow> sc_inv i (s\<lparr>synced_sem := x\<rparr>)"
  by (simp_all add: sc_inv_def)

lemma sc_inv_with [simp]: "sc_inv i (sc_with c p s) = sc_inv i s"
  by (simp add: sc_with_def)

lemma sc_inv_boot: "sc_inv i (sc_boot pf i p)"
  by (simp add: sc_inv_def sc_boot_def new_sem_def sem_ok_def)

lemma UNUSED_DATA_LEN_15: "UNUSED_DATA_LEN = 15"
  by (simp add: UNUSED_DATA_LEN_def HASH_LEN_def SIZEOF_U64_def SIZEOF_RSP_DATA_def)

text \<open>What the scanner sends: the 15 bytes of the storage, or none.\<close>

lemma current_response_wire:
  assumes "sc_inv i s"
  shows "length (response_wire (current_response s)) \<le> 22"
    and "take (unat (data_len (current_response s))) (rsp_data (current_response s))
      = (if response_has_data s then nb_buf (random_buf s) else [])"
  using assms by (auto simp: sc_inv_def current_response_def response_wire_def UNUSED_DATA_LEN_15)

section \<open>Semaphores\<close>

context zephyr_sem
begin

lemma sem_ok_ops:
  "sem_ok x \<Longrightarrow> sem_ok (k_sem_give pf x)"
  "sem_ok x \<Longrightarrow> sem_ok (k_sem_reset pf x)"
  "k_sem_take_now pf x = Some y \<Longrightarrow> sem_ok x \<Longrightarrow> sem_ok y"
  "sem_ok (k_sem_init pf 0 1)"
  by (auto simp: sem_ok_def sem_give sem_reset sem_take sem_init split: if_splits)

lemma give_synced_evt_inv: "sc_inv i s \<Longrightarrow> sc_inv i (give_synced_evt pf e s)"
  by (simp add: give_synced_evt_def) (simp add: sc_inv_def sem_ok_ops)

end

section \<open>Callbacks\<close>

context pawr_platform
begin

lemma set_rsp_data_inv:
  assumes "sc_inv i s" and "length (response_wire resp) \<le> 200"
  shows "sc_inv i (snd (set_rsp_data pf sync info resp s))"
proof -
  have "length (nb_buf (message_rsp_buf s)) = MESSAGE_RSP_BUF_SIZE"
    using assms(1) by (simp add: sc_inv_def)
  from set_rsp_data_sends [OF this assms(2), of sync info] obtain t b p where
    "snd (set_rsp_data pf sync info resp s) = s\<lparr>message_rsp_buf := b, psa_store := p,
         zlog := zlog s @ [Bt_le_per_adv_set_response_data sync (response_params info s) (response_body resp @ t)],
         sc_counter := (sc_counter s)\<lparr>cc_value := cc_value (sc_counter s) + 1\<rparr>\<rparr>"
    and "length (nb_buf b) = MESSAGE_RSP_BUF_SIZE"
    by (auto simp: prod_eq_iff)
  with assms(1) show ?thesis by (simp add: sc_inv_def)
qed

lemma sc_verify_inv: "sc_inv i s \<Longrightarrow> sc_inv i (snd (snd (sc_verify pf b s)))"
  by (simp add: sc_verify_def split_beta)

lemma confirm_recv_cb_inv:
  assumes inv: "sc_inv i s"
  shows "sc_inv i (confirm_recv_cb pf sync info buf s)"
proof -
  obtain e b' s1 where v: "sc_verify pf (the buf) s = (e, b', s1)" by (metis prod.exhaust)
  have inv1: "sc_inv i s1" using sc_verify_inv [OF inv, of "the buf"] v by simp
  let ?resp = "\<lparr>rsp_metadata = rsp_data_i s1, rsp_data = [], data_len = 0, resp_counter = cc_value (sc_counter s1)\<rparr>"
  have "length (response_wire ?resp) \<le> 200" by (simp add: response_wire_def)
  from set_rsp_data_inv [OF inv1 this] have send: "sc_inv i (snd (set_rsp_data pf sync info ?resp s1))" .
  show ?thesis
    using inv inv1 send v
    by (cases buf) (simp_all add: confirm_recv_cb_def give_synced_evt_inv split_beta Let_def)
qed

lemma ack_recv_cb_inv:
  assumes inv: "sc_inv i s"
  shows "sc_inv i (ack_recv_cb pf sync info buf s)"
proof -
  obtain e b' s1 where v: "sc_verify pf (the buf) s = (e, b', s1)" by (metis prod.exhaust)
  have inv1: "sc_inv i s1" using sc_verify_inv [OF inv, of "the buf"] v by simp
  let ?s2 = "s1\<lparr>unconfirmed_ticks := unconfirmed_ticks s1 + 1, response := (response s1)\<lparr>resp_counter := cc_value (sc_counter s1)\<rparr>\<rparr>"
  have inv2: "sc_inv i ?s2" using inv1 by (simp add: sc_inv_def)
  have "length (response_wire (current_response ?s2)) \<le> 200"
    using current_response_wire(1) [OF inv2] by simp
  from set_rsp_data_inv [OF inv2 this] have send: "sc_inv i (snd (set_rsp_data pf sync info (current_response ?s2) ?s2))" .
  show ?thesis
    using inv inv1 send v sc_inv_recv [OF inv1, of No_recv]
    by (cases buf) (simp_all add: ack_recv_cb_def give_synced_evt_inv split_beta Let_def)
qed

lemma recv_dispatch_inv: "sc_inv i s \<Longrightarrow> sc_inv i (recv_dispatch pf sync info buf s)"
  by (cases "recv s")
     (simp_all add: recv_dispatch_def confirm_recv_cb_inv ack_recv_cb_inv, simp add: sc_inv_def)

lemma parse_elems_inv: "sc_inv i s \<Longrightarrow> parse_elems pf ds s = Some (e, s') \<Longrightarrow> sc_inv i s'"
proof (induction ds arbitrary: s)
  case Nil
  then show ?case by simp
next
  case (Cons d ds)
  then obtain g err s1 where p: "parse_adv_data pf d s = Some (g, err, s1)"
    by (auto split: option.splits)
  have "sc_inv i s1"
    using p Cons.prems(1) sc_verify_inv [OF Cons.prems(1)]
    by (auto simp: parse_adv_data_def Let_def split_beta split: if_splits)
  with Cons p show ?case by (auto split: if_splits)
qed

lemma scan_recv_cb_inv:
  assumes inv: "sc_inv i s" and s': "scan_recv_cb pf info bytes s = Some s'"
  shows "sc_inv i s'"
proof (cases "\<exists>j a. info = Some j \<and> scan_addr j = Some a \<and> scan_ext_adv j \<and> scan_interval j \<noteq> 0")
  case False
  with assms show ?thesis by (auto simp: scan_recv_cb_def split: option.splits if_splits)
next
  case True
  then obtain j a where j: "info = Some j" "scan_addr j = Some a" "scan_ext_adv j" "scan_interval j \<noteq> 0" by blast
  with s' obtain e s1 where p: "parse_elems pf (bt_data_parse_elems pf bytes) s = Some (e, s1)"
    by (auto simp: scan_recv_cb_def split: option.splits)
  have inv1: "sc_inv i s1" using parse_elems_inv [OF inv p] .
  then have sem: "sem_ok (synced_sem s1)" by (simp add: sc_inv_def)
  show ?thesis
    using s' j p inv1
    by (auto simp: scan_recv_cb_def zephyr_call_def Let_def split: if_splits
        intro!: sc_inv_sems sem_ok_ops sem)
qed

lemma data_generated_cb_inv: "sc_inv i s \<Longrightarrow> sc_inv i (data_generated_cb pf s)"
  by (simp add: data_generated_cb_def Let_def, intro give_synced_evt_inv) (simp add: sc_inv_def)

text \<open>The expiry of the timer leaves the buffer of the generated data as it was: empty, over the same storage.\<close>

lemma generate_data_inv:
  assumes inv: "sc_inv i s"
  shows "sc_inv i (generate_data pf (generator_config pf) s)" and "random_buf (generate_data pf (generator_config pf) s) = random_buf s"
proof -
  obtain zs where z: "random_buf s = \<lparr>nb_buf = zs, nb_off = 0, nb_len = 0\<rparr>" "length zs = UNUSED_DATA_LEN"
    using inv by (cases "random_buf s") (simp add: sc_inv_def)
  let ?z = "\<lparr>nb_buf = zs, nb_off = 0, nb_len = 0\<rparr> :: net_buf_simple"
  have "net_buf_simple_add_mem pf ?z [] = ?z"
    using nb_add_mem [of ?z "[]"] by (simp add: nb_wf_def)
  then have g: "generate_data pf (generator_config pf) s = data_generated_cb pf (zephyr_do (Sys_rand_get 0) s\<lparr>random_buf := ?z\<rparr>)"
    using z by (simp add: generate_data_def generator_config_def nb_reset zephyr_do_def Let_def)
  have "sc_inv i (zephyr_do (Sys_rand_get 0) s\<lparr>random_buf := ?z\<rparr>)"
    using inv z by (simp add: sc_inv_def zephyr_do_def)
  with g show "sc_inv i (generate_data pf (generator_config pf) s)" "random_buf (generate_data pf (generator_config pf) s) = random_buf s"
    by (simp add: data_generated_cb_inv) (use g in \<open>simp add: data_generated_cb_def give_synced_evt_def z Let_def\<close>)
qed

section \<open>The main thread\<close>

lemma init_resume_inv: "sc_inv i s \<Longrightarrow> sc_inv i (init_resume pf s)"
proof -
  assume inv: "sc_inv i s"
  obtain l where l: "snd (init_led pf led2 s) = s\<lparr>zlog := l\<rparr>"
    using init_led_log [of pf led2 s] by auto
  show ?thesis
    unfolding init_resume_def Let_def split_beta l
    using inv by (simp add: sc_inv_return zephyr_do_def)
qed

lemma syncing_enter_inv: "sc_inv i s \<Longrightarrow> sc_state s = SYNCING \<Longrightarrow> sc_inv i (syncing_enter pf s)"
  by (simp add: syncing_enter_def Let_def split_beta sc_inv_return sc_inv_wait zephyr_do_def)

lemma syncing_resume_inv: "sc_inv i s \<Longrightarrow> syncing_resume pf s = Some s' \<Longrightarrow> sc_inv i s'"
  by (auto simp: syncing_resume_def sc_inv_return sc_inv_sems sem_ok_ops sc_inv_def [of _ s] split: option.splits
      intro!: sc_inv_return)

lemma take_synced_evt:
  assumes "sc_inv i s" and "k_sem_take_now pf (synced_evt_sem s) = Some sem"
  shows "sc_inv i (s\<lparr>synced_evt_sem := k_sem_reset pf sem\<rparr>)" and "sc_inv i (s\<lparr>synced_evt_sem := k_sem_init pf 0 1\<rparr>)"
proof -
  have "sem_ok sem" using assms sem_ok_ops(3) by (auto simp: sc_inv_def)
  with assms(1) show "sc_inv i (s\<lparr>synced_evt_sem := k_sem_reset pf sem\<rparr>)" and "sc_inv i (s\<lparr>synced_evt_sem := k_sem_init pf 0 1\<rparr>)"
    by (blast intro: sc_inv_sems sem_ok_ops)+
qed

lemma confirming_resume_inv: "sc_inv i s \<Longrightarrow> confirming_resume pf s = Some s' \<Longrightarrow> sc_inv i s'"
  using take_synced_evt(1) [of i s]
  by (auto simp: confirming_resume_def data_generator_init_def Let_def sc_inv_return sc_inv_recv split: option.splits)

lemma sleeping_resume_inv: "sc_inv i s \<Longrightarrow> sleeping_resume pf s = Some s' \<Longrightarrow> sc_inv i s'"
  using take_synced_evt(2) [of i s]
  by (auto simp: sleeping_resume_def data_generator_stop_def Let_def sc_inv_return sc_inv_recv split: option.splits)

lemma enabled_resume_inv: "sc_inv i s \<Longrightarrow> enabled_resume pf s = Some s' \<Longrightarrow> sc_inv i s'"
  using take_synced_evt(1) [of i s]
  by (auto simp: enabled_resume_def data_generator_stop_def Let_def sc_inv_return split: option.splits)

lemma sc_run_state_inv: "sc_inv i s \<Longrightarrow> sc_inv i (sc_run_state pf s)"
proof (cases "sc_state s")
  case REGISTERING
  assume "sc_inv i s"
  with REGISTERING show ?thesis by (simp add: sc_inv_def)
next
  case SYNCING
  assume "sc_inv i s"
  then show ?thesis by (simp add: sc_run_state_def SYNCING syncing_enter_inv)
next
  case CONFIRMING
  assume "sc_inv i s"
  then show ?thesis by (simp add: sc_run_state_def CONFIRMING confirming_enter_def sc_inv_wait zephyr_do_def Let_def)
next
  case ENABLED
  assume inv: "sc_inv i s"
  have "sc_inv i (s\<lparr>recv := Ack_recv, unconfirmed_ticks := 0\<rparr>)"
    using sc_inv_recv [OF inv, of Ack_recv] by simp
  then show ?thesis by (simp add: sc_run_state_def ENABLED enabled_enter_def sc_inv_wait zephyr_do_def Let_def)
qed (simp_all add: sc_run_state_def init_enter_def handle_fault_enter_def sleeping_enter_def sc_inv_wait zephyr_do_def)

lemma sc_main_inv:
  assumes inv: "sc_inv i s" and s': "sc_main pf s = Some s'"
  shows "sc_inv i s'"
proof (cases "sc_at s")
  case At_run
  then show ?thesis using assms by (simp add: sc_main_def) (blast intro: sc_run_state_inv)
next
  case Init_slept
  then show ?thesis using assms by (simp add: sc_main_def) (blast intro: init_resume_inv)
next
  case Fault_slept
  then show ?thesis using assms by (simp add: sc_main_def)
next
  case Syncing_wait
  then show ?thesis using assms by (simp add: sc_main_def syncing_resume_inv)
next
  case Registering_wait_message
  with inv have False by (auto simp: sc_inv_def)
  then show ?thesis ..
next
  case Registering_wait_deleted
  with inv have False by (auto simp: sc_inv_def)
  then show ?thesis ..
next
  case Confirming_slept
  then have "s' = sc_wait Confirming_wait (s\<lparr>recv := Confirm_recv\<rparr>)"
    using s' by (simp add: sc_main_def confirming_start_def)
  moreover have "sc_state s = CONFIRMING" using inv Confirming_slept by (simp add: sc_inv_def)
  ultimately show ?thesis by (simp add: sc_inv_wait sc_inv_recv inv)
next
  case Confirming_wait
  then show ?thesis using assms by (simp add: sc_main_def confirming_resume_inv)
next
  case Sleeping_wait
  then show ?thesis using assms by (simp add: sc_main_def sleeping_resume_inv)
next
  case Enabled_wait
  then show ?thesis using assms by (simp add: sc_main_def enabled_resume_inv)
qed

lemma sync_cb_inv: "sc_inv i s \<Longrightarrow> sc_inv i (sync_cb pf sync s)"
  by (simp add: sync_cb_def zephyr_call_def)

lemma term_cb_inv: "sc_inv i s \<Longrightarrow> sc_inv i (term_cb pf reason s)"
  by (simp add: term_cb_def Let_def) (simp add: sc_inv_def sem_ok_ops)

lemma sc_step_inv: "sc_step pf s s' \<Longrightarrow> sc_inv i s \<Longrightarrow> sc_inv i s'"
proof (induction rule: sc_step.induct)
  case (step_main s s')
  then show ?case by (blast intro: sc_main_inv)
next
  case (step_synced s sync)
  then show ?case by (rule sync_cb_inv)
next
  case (step_term s reason)
  then show ?case by (rule term_cb_inv)
next
  case (step_recv buf s sync info)
  then show ?case by (blast intro: recv_dispatch_inv)
next
  case (step_scan info bytes s s')
  then show ?case by (blast intro: scan_recv_cb_inv)
next
  case (step_timer s)
  then show ?case by (blast intro: generate_data_inv)
next
  case (step_reboot s)
  then have "CONFIG_SCANNER_ID s = i" by (simp add: sc_inv_def)
  then show ?case by (simp add: sc_inv_boot)
qed

end

end
