(* ===== verification/Scanner_Recv.thy ===== *)
theory Scanner_Recv
  imports Scanner_Inv
begin

text \<open>
  What the receive callbacks of the scanner do with a message, on its reading: which event they
  report, what becomes of the counter, and which response they hand to the host.
\<close>

section \<open>The reading in a state\<close>

text \<open>The reading of a message by a scanner in a state.\<close>

definition sc_reading :: "'p platform \<Rightarrow> 'p scanner \<Rightarrow> byte list \<Rightarrow> reading" where
  "sc_reading pf s m = read_message (mac_of pf (ADVERTISER_KEY_ID pf) (psa_store s)) (CONFIG_SCANNER_ID s)
     (unat (rsp_slot (selected_slot s))) (cc_value (sc_counter s)) m"

definition slot_in_range :: "'p scanner \<Rightarrow> bool" where
  "slot_in_range s \<longleftrightarrow> unat (rsp_slot (selected_slot s)) < SCANNER_RSP_SLOTS"

text \<open>\<open>responded sync info resp s s'\<close>: from \<open>s\<close> to \<open>s'\<close> exactly the response
  \<open>resp\<close> was handed to the host, signed with the device's key if PSA signs at all.\<close>

definition responded ::
    "'p platform \<Rightarrow> sync_ptr \<Rightarrow> bt_le_per_adv_sync_recv_info \<Rightarrow> response_data_t \<Rightarrow> 'p scanner \<Rightarrow> 'p scanner \<Rightarrow>
     'p \<Rightarrow> bool" where
  "responded pf sync info resp s s' p \<longleftrightarrow>
     (\<exists>t. zlog s' = zlog s @ [Bt_le_per_adv_set_response_data sync (response_params info s) (response_body resp @ t)] \<and>
          length t = HASH_LEN \<and>
          (\<forall>tag. mac_of pf (MIN_SCANNER_KEY_ID pf) p (response_body resp) = Some tag \<longrightarrow> t = tag))"

section \<open>Shared facts\<close>

lemma sc_with_simps [simp]:
  "cc_value (sc_counter (sc_with c p s)) = c" "psa_store (sc_with c p s) = p" "zlog (sc_with c p s) = zlog s"
  "recv (sc_with c p s) = recv s" "fault_reason (sc_with c p s) = fault_reason s"
  "unconfirmed_ticks (sc_with c p s) = unconfirmed_ticks s" "selected_slot (sc_with c p s) = selected_slot s"
  "CONFIG_SCANNER_ID (sc_with c p s) = CONFIG_SCANNER_ID s" "rsp_data_i (sc_with c p s) = rsp_data_i s"
  "response (sc_with c p s) = response s" "message_rsp_buf (sc_with c p s) = message_rsp_buf s"
  "response_has_data (sc_with c p s) = response_has_data s" "random_buf (sc_with c p s) = random_buf s"
  "synced_evt_sem (sc_with c p s) = synced_evt_sem s"
  by (simp_all add: sc_with_def)

lemma give_synced_evt_simps [simp]:
  "fault_reason (give_synced_evt pf e s) = e" "zlog (give_synced_evt pf e s) = zlog s"
  "sc_counter (give_synced_evt pf e s) = sc_counter s" "recv (give_synced_evt pf e s) = recv s"
  "unconfirmed_ticks (give_synced_evt pf e s) = unconfirmed_ticks s" "psa_store (give_synced_evt pf e s) = psa_store s"
  by (simp_all add: give_synced_evt_def)

lemma length_stray_acks: "length (stray_acks pf) = SCANNER_RSP_SLOTS" "length no_acks = SCANNER_RSP_SLOTS"
  by (simp_all add: stray_acks_def no_acks_def)

lemma reading_cases:
  assumes "pawr_platform pf key_of mac" and "nb_wf b" and "length acks = SCANNER_RSP_SLOTS" and "slot_in_range s"
  obtains (unauthentic) e b' p' where "sc_reading pf s (nb_data b) = Unauthentic" "e \<noteq> TRANSFER_NO_ERROR"
      "sc_verify pf b s = (e, b', sc_with (cc_value (sc_counter s)) p' s)" "key_of p' = key_of (psa_store s)"
  | (ack) b' c' p' d b'' where "sc_reading pf s (nb_data b) = Ack c'"
      "sc_verify pf b s = (TRANSFER_NO_ERROR, b', sc_with c' p' s)" "key_of p' = key_of (psa_store s)"
      "subevent_data_with_reg_deserialize pf (subevent_result acks) b' = (TRANSFER_NO_ERROR, d, b'')"
      "own_ack pf d (sc_with c' p' s) = CONFIG_SCANNER_ID s"
  | (nack) b' c' p' err d b'' where "sc_reading pf s (nb_data b) = Nack c'"
      "sc_verify pf b s = (TRANSFER_NO_ERROR, b', sc_with c' p' s)" "key_of p' = key_of (psa_store s)"
      "subevent_data_with_reg_deserialize pf (subevent_result acks) b' = (err, d, b'')"
      "err \<noteq> TRANSFER_NO_ERROR \<or> own_ack pf d (sc_with c' p' s) \<noteq> CONFIG_SCANNER_ID s"
  by (rule pawr_platform.decide_read [OF assms(1-3) assms(4) [unfolded slot_in_range_def] sc_reading_def])
     (use unauthentic in blast, use ack in blast, use nack in blast)

lemma set_rsp_keeps_slot: "selected_slot (snd (set_rsp_data pf sync info resp t)) = selected_slot t"
  by (simp add: set_rsp_data_def zephyr_call_def Let_def split_beta)

lemma verify_keeps_slot: "selected_slot (snd (snd (sc_verify pf b t))) = selected_slot t"
  by (simp add: sc_verify_def split_beta)

lemma give_keeps_slot: "selected_slot (give_synced_evt pf e t) = selected_slot t"
  by (simp add: give_synced_evt_def)

lemmas keeps_slot = set_rsp_keeps_slot verify_keeps_slot give_keeps_slot

lemma ack_recv_keeps_slot: "selected_slot (ack_recv_cb pf sync info buf s) = selected_slot s"
  by (cases buf) (simp_all add: ack_recv_cb_def Let_def split_beta keeps_slot)

lemma confirm_recv_keeps_slot: "selected_slot (confirm_recv_cb pf sync info buf s) = selected_slot s"
  by (cases buf) (simp_all add: confirm_recv_cb_def Let_def split_beta keeps_slot)

section \<open>The two callbacks\<close>

lemma ack_recv_reading:
  assumes "pawr_platform pf key_of mac" and "sc_inv i s" and "nb_wf b" and "nb_len b \<noteq> 0" and "slot_in_range s"
    and "s' = ack_recv_cb pf sync info (Some b) s"
  shows "case sc_reading pf s (nb_data b) of
      Unauthentic \<Rightarrow> fault_reason s' = EVT_INVALID_HASH \<and> sc_counter s' = sc_counter s \<and> zlog s' = zlog s \<and> recv s' = recv s
    | Ack c \<Rightarrow> fault_reason s' = EVT_GOT_ACK \<and> cc_value (sc_counter s') = c \<and> zlog s' = zlog s \<and> recv s' = No_recv
    | Nack c \<Rightarrow> unconfirmed_ticks s' = unconfirmed_ticks s + 1 \<and> recv s' = recv s \<and>
        (if unconfirmed_ticks s + 1 \<ge> 4
         then fault_reason s' = EVT_DIDNT_RECEIVE_ACK \<and> cc_value (sc_counter s') = c \<and> zlog s' = zlog s
         else fault_reason s' = fault_reason s \<and> cc_value (sc_counter s') = c + 1 \<and>
           (\<exists>p. key_of p = key_of (psa_store s) \<and>
             responded pf sync info ((current_response s)\<lparr>resp_counter := c\<rparr>) s s' p))"
  using assms(1,3) length_stray_acks(1) [of pf] assms(5)
proof (cases rule: reading_cases)
  case (unauthentic e b' p')
  then show ?thesis
    using assms(4,6) by (simp add: ack_recv_cb_def) (simp add: sc_with_def)
next
  case (ack b' c' p' d b'')
  then show ?thesis
    using assms(4,6) by (simp add: ack_recv_cb_def own_ack_def)
next
  case (nack b' c' p' err d b'')
  let ?s1 = "sc_with c' p' s\<lparr>unconfirmed_ticks := unconfirmed_ticks s + 1\<rparr>"
  let ?s2 = "?s1\<lparr>response := (response s)\<lparr>resp_counter := c'\<rparr>\<rparr>"
  have inv2: "sc_inv i ?s2" using assms(2) by (simp add: sc_inv_def sc_with_def)
  have resp: "current_response ?s2 = (current_response s)\<lparr>resp_counter := c'\<rparr>"
    by (simp add: current_response_def sc_with_def)
  have len: "length (response_wire (current_response ?s2)) \<le> 200"
    using current_response_wire(1) [OF inv2] by simp
  have buf: "length (nb_buf (message_rsp_buf ?s2)) = MESSAGE_RSP_BUF_SIZE"
    using inv2 by (simp add: sc_inv_def)
  have cb: "s' = (if CONFIG_MAX_UNCONFIRMED_TICKS \<le> unconfirmed_ticks s + 1 then give_synced_evt pf EVT_DIDNT_RECEIVE_ACK ?s1
     else snd (set_rsp_data pf sync info (current_response ?s2) ?s2))"
    using nack assms(4,6) by (auto simp: ack_recv_cb_def Let_def)
  from pawr_platform.set_rsp_data_sends [OF assms(1) buf len, of sync info] obtain t b p where
    send: "snd (set_rsp_data pf sync info (current_response ?s2) ?s2) = ?s2\<lparr>message_rsp_buf := b, psa_store := p,
       zlog := zlog ?s2 @ [Bt_le_per_adv_set_response_data sync (response_params info ?s2) (response_body (current_response ?s2) @ t)],
       sc_counter := (sc_counter ?s2)\<lparr>cc_value := cc_value (sc_counter ?s2) + 1\<rparr>\<rparr>"
    and t: "length t = HASH_LEN"
      "\<forall>tag. mac_of pf (MIN_SCANNER_KEY_ID pf) (psa_store ?s2) (response_body (current_response ?s2)) = Some tag \<longrightarrow> t = tag"
    by (auto simp: prod_eq_iff)
  have params: "response_params info ?s2 = response_params info s"
    by (simp add: response_params_def sc_with_def)
  show ?thesis
    using nack(1,3) cb send t unfolding resp params
    by (auto simp: CONFIG_MAX_UNCONFIRMED_TICKS_def responded_def sc_with_def intro!: exI [of _ p'])
qed

lemma confirm_recv_reading:
  assumes "pawr_platform pf key_of mac" and "sc_inv i s" and "nb_wf b" and "nb_len b \<noteq> 0" and "slot_in_range s"
    and "s' = confirm_recv_cb pf sync info (Some b) s"
  shows "case sc_reading pf s (nb_data b) of
      Unauthentic \<Rightarrow> fault_reason s' = EVT_INVALID_HASH \<and> sc_counter s' = sc_counter s \<and> zlog s' = zlog s
    | Ack c \<Rightarrow> fault_reason s' = EVT_NO_FAULT \<and> cc_value (sc_counter s') = c \<and> zlog s' = zlog s
    | Nack c \<Rightarrow> unconfirmed_ticks s' = unconfirmed_ticks s + 1 \<and> cc_value (sc_counter s') = c + 1 \<and>
        fault_reason s' = (if unconfirmed_ticks s + 1 \<ge> 4 then EVT_CONFIRMATION_FAILED else fault_reason s) \<and>
        (\<exists>p. key_of p = key_of (psa_store s) \<and>
          responded pf sync info \<lparr>rsp_metadata = rsp_data_i s, rsp_data = [], data_len = 0, resp_counter = c\<rparr> s s' p)"
  using assms(1,3) length_stray_acks(2) assms(5)
proof (cases rule: reading_cases)
  case (unauthentic e b' p')
  then show ?thesis
    using assms(4,6) by (simp add: confirm_recv_cb_def) (simp add: sc_with_def)
next
  case (ack b' c' p' d b'')
  then show ?thesis
    using assms(4,6) by (simp add: confirm_recv_cb_def Let_def)
next
  case (nack b' c' p' err d b'')
  let ?s1 = "sc_with c' p' s"
  let ?resp = "\<lparr>rsp_metadata = rsp_data_i s, rsp_data = [], data_len = 0, resp_counter = c'\<rparr>"
  have len: "length (response_wire ?resp) \<le> 200" by (simp add: response_wire_def)
  have buf: "length (nb_buf (message_rsp_buf ?s1)) = MESSAGE_RSP_BUF_SIZE"
    using assms(2) by (simp add: sc_inv_def)
  from pawr_platform.set_rsp_data_sends [OF assms(1) buf len, of sync info] obtain t b p where
    send: "snd (set_rsp_data pf sync info ?resp ?s1) = ?s1\<lparr>message_rsp_buf := b, psa_store := p,
       zlog := zlog ?s1 @ [Bt_le_per_adv_set_response_data sync (response_params info ?s1) (response_body ?resp @ t)],
       sc_counter := (sc_counter ?s1)\<lparr>cc_value := cc_value (sc_counter ?s1) + 1\<rparr>\<rparr>"
    and t: "length t = HASH_LEN"
      "\<forall>tag. mac_of pf (MIN_SCANNER_KEY_ID pf) (psa_store ?s1) (response_body ?resp) = Some tag \<longrightarrow> t = tag"
    by (auto simp: prod_eq_iff)
  have params: "response_params info ?s1 = response_params info s"
    by (simp add: response_params_def sc_with_def)
  let ?s2 = "(snd (set_rsp_data pf sync info ?resp ?s1))\<lparr>unconfirmed_ticks := unconfirmed_ticks s + 1\<rparr>"
  have cb: "s' = (if CONFIG_MAX_UNCONFIRMED_TICKS \<le> unconfirmed_ticks s + 1
     then give_synced_evt pf EVT_CONFIRMATION_FAILED ?s2 else ?s2)"
    using nack assms(4,6) send by (auto simp: confirm_recv_cb_def Let_def split_beta)
  show ?thesis
    using nack(1,3) cb send t unfolding params
    by (auto simp: CONFIG_MAX_UNCONFIRMED_TICKS_def responded_def sc_with_def intro!: exI [of _ p'])
qed

end
