(* ===== verification/Scanner_Store.thy ===== *)
theory Scanner_Store
  imports Scanner_Inv
begin

text \<open>
  What the scanner does to its PSA store: nothing, once it holds a counter. The counter is read in
  \<open>init\<close> and lives in memory from then on; no function of the scanner commits it.
\<close>

section \<open>The stored keys\<close>

definition stores :: "('p \<Rightarrow> psa_key_id_t \<Rightarrow> stored_key option) \<Rightarrow> (psa_key_id_t \<Rightarrow> stored_key option) \<Rightarrow> psa_key_id_t \<Rightarrow>
    'p scanner \<Rightarrow> bool" where
  "stores key_of keys u s \<longleftrightarrow> key_of (psa_store s) = keys \<and> storage_uid (sc_counter s) = u"

lemma stores_updates [simp]:
  "stores key_of keys u (s\<lparr>zlog := l\<rparr>) = stores key_of keys u s"
  "stores key_of keys u (s\<lparr>sc_state := st\<rparr>) = stores key_of keys u s"
  "stores key_of keys u (s\<lparr>sc_at := at\<rparr>) = stores key_of keys u s"
  "stores key_of keys u (s\<lparr>fault_reason := e\<rparr>) = stores key_of keys u s"
  "stores key_of keys u (s\<lparr>default_sync := d\<rparr>) = stores key_of keys u s"
  "stores key_of keys u (s\<lparr>sync_interval := n\<rparr>) = stores key_of keys u s"
  "stores key_of keys u (s\<lparr>unconfirmed_ticks := t\<rparr>) = stores key_of keys u s"
  "stores key_of keys u (s\<lparr>selected_slot := r\<rparr>) = stores key_of keys u s"
  "stores key_of keys u (s\<lparr>sel_info := n'\<rparr>) = stores key_of keys u s"
  "stores key_of keys u (s\<lparr>register_evt_sem := q\<rparr>) = stores key_of keys u s"
  "stores key_of keys u (s\<lparr>synced_evt_sem := q\<rparr>) = stores key_of keys u s"
  "stores key_of keys u (s\<lparr>synced_sem := q\<rparr>) = stores key_of keys u s"
  "stores key_of keys u (s\<lparr>response := x\<rparr>) = stores key_of keys u s"
  "stores key_of keys u (s\<lparr>response_has_data := h\<rparr>) = stores key_of keys u s"
  "stores key_of keys u (s\<lparr>rsp_data_i := y\<rparr>) = stores key_of keys u s"
  "stores key_of keys u (s\<lparr>random_buf := b\<rparr>) = stores key_of keys u s"
  "stores key_of keys u (s\<lparr>message_rsp_buf := b\<rparr>) = stores key_of keys u s"
  "stores key_of keys u (s\<lparr>recv := z\<rparr>) = stores key_of keys u s"
  "stores key_of keys u (s\<lparr>sc_counter := (sc_counter s)\<lparr>cc_value := c\<rparr>\<rparr>) = stores key_of keys u s"
  by (simp_all add: stores_def)

lemma stores_do [simp]:
  "stores key_of keys u (zephyr_do c s) = stores key_of keys u s"
  "stores key_of keys u (sc_return st s) = stores key_of keys u s"
  "stores key_of keys u (sc_wait at s) = stores key_of keys u s"
  "stores key_of keys u (give_synced_evt pf e s) = stores key_of keys u s"
  "stores key_of keys u (data_generated_cb pf s) = stores key_of keys u s"
  by (simp_all add: zephyr_do_def sc_return_def sc_wait_def give_synced_evt_def data_generated_cb_def Let_def)

lemma stores_generate [simp]:
  "stores key_of keys u (generate_data pf (generator_config pf) s) = stores key_of keys u s"
  by (simp add: generate_data_def generator_config_def Let_def)

lemma stores_sync_cbs [simp]:
  "stores key_of keys u (sync_cb pf sync s) = stores key_of keys u s"
  "stores key_of keys u (term_cb pf reason s) = stores key_of keys u s"
  by (simp_all add: sync_cb_def term_cb_def zephyr_call_def Let_def)

section \<open>What only the receive callbacks change\<close>

text \<open>The responses that the host was given.\<close>

fun responses_sent :: "zcall list \<Rightarrow> (bt_le_per_adv_response_params \<times> byte list) list" where
  "responses_sent [] = []"
| "responses_sent (Bt_le_per_adv_set_response_data sync params m # cs) = (params, m) # responses_sent cs"
| "responses_sent (_ # cs) = responses_sent cs"

lemma responses_sent_append [simp]: "responses_sent (xs @ ys) = responses_sent xs @ responses_sent ys"
  by (induction xs rule: responses_sent.induct) auto

definition sc_frame :: "'p scanner \<Rightarrow> 'p scanner \<Rightarrow> bool" where
  "sc_frame s s' \<longleftrightarrow> psa_store s' = psa_store s \<and> sc_counter s' = sc_counter s \<and> responses_sent (zlog s') = responses_sent (zlog s)"

lemma sc_frame_stores: "sc_frame s s' \<Longrightarrow> stores key_of keys u s' = stores key_of keys u s"
  by (simp add: sc_frame_def stores_def)

lemma sc_frame_callbacks:
  "sc_frame s (sync_cb pf sync s)" "sc_frame s (term_cb pf reason s)" "sc_frame s (generate_data pf (generator_config pf) s)"
  by (simp_all add: sc_frame_def sync_cb_def term_cb_def generate_data_def generator_config_def data_generated_cb_def
      give_synced_evt_def zephyr_call_def zephyr_do_def Let_def)

lemma sc_frame_do:
  "sc_frame s (sc_return st t) = sc_frame s t" "sc_frame s (sc_wait at t) = sc_frame s t"
  by (simp_all add: sc_frame_def sc_return_def sc_wait_def)

text \<open>After \<open>init\<close> the main thread never touches the store, the counter or the response.\<close>

lemma sc_main_frame:
  assumes "sc_main pf s = Some s'" and "sc_at s \<noteq> Init_slept"
  shows "sc_frame s s'"
proof (cases "sc_at s")
  case At_run
  then show ?thesis
    using assms by (cases "sc_state s") (auto simp: sc_main_def sc_run_state_def init_enter_def handle_fault_enter_def
        syncing_enter_def registering_enter_def confirming_enter_def sleeping_enter_def enabled_enter_def zephyr_call_def Let_def
        sc_frame_do, simp_all add: sc_frame_def zephyr_do_def)
next
  case Syncing_wait
  then show ?thesis using assms by (auto simp: sc_main_def syncing_resume_def sc_frame_do split: option.splits) (simp add: sc_frame_def)
next
  case Registering_wait_message
  then show ?thesis using assms
    by (auto simp: sc_main_def registering_message_def zephyr_call_def Let_def sc_frame_do split: option.splits if_splits)
       (simp_all add: sc_frame_def zephyr_do_def)
next
  case Registering_wait_deleted
  then show ?thesis using assms
    by (auto simp: sc_main_def registering_deleted_def Let_def sc_frame_do split: option.splits if_splits) (simp_all add: sc_frame_def)
next
  case Confirming_slept
  then show ?thesis using assms by (auto simp: sc_main_def confirming_start_def sc_frame_do) (simp add: sc_frame_def)
next
  case Confirming_wait
  then show ?thesis using assms
    by (auto simp: sc_main_def confirming_resume_def Let_def sc_frame_do split: option.splits if_splits)
       (simp_all add: sc_frame_def data_generator_init_def zephyr_do_def)
next
  case Sleeping_wait
  then show ?thesis using assms
    by (auto simp: sc_main_def sleeping_resume_def Let_def sc_frame_do split: option.splits if_splits)
       (simp_all add: sc_frame_def data_generator_stop_def zephyr_do_def)
next
  case Enabled_wait
  then show ?thesis using assms
    by (auto simp: sc_main_def enabled_resume_def Let_def sc_frame_do split: option.splits if_splits)
       (simp_all add: sc_frame_def data_generator_stop_def zephyr_do_def)
qed (use assms in \<open>simp_all add: sc_main_def\<close>)

context pawr_platform
begin

lemma sc_verify_stores:
  assumes "sc_verify pf b s = (e, b', s')"
  shows "stores key_of keys u s' = stores key_of keys u s"
proof -
  obtain e1 b1 c1 p1 where v: "verify_message pf b (ADVERTISER_KEY_ID pf) (cc_value (sc_counter s)) (psa_store s) = (e1, b1, c1, p1)"
    by (metis prod.exhaust)
  from verify_keys [OF v] v assms show ?thesis
    by (auto simp: sc_verify_def stores_def)
qed

lemma set_rsp_data_stores:
  "stores key_of keys u (snd (set_rsp_data pf sync info resp s)) = stores key_of keys u s"
  using sign_keys [of _ "MIN_SCANNER_KEY_ID pf" "psa_store s"]
  by (simp add: set_rsp_data_def zephyr_call_def Let_def split_beta stores_def)

lemma verify_stores [simp]: "stores key_of keys u (snd (snd (sc_verify pf b t))) = stores key_of keys u t"
  using sc_verify_stores [of b t] by (metis prod.collapse)

lemma recv_cbs_store:
  "stores key_of keys u (register_recv_cb pf sync info buf s) = stores key_of keys u s"
  "stores key_of keys u (confirm_recv_cb pf sync info buf s) = stores key_of keys u s"
  "stores key_of keys u (ack_recv_cb pf sync info buf s) = stores key_of keys u s"
  by (cases buf; simp add: register_recv_cb_def confirm_recv_cb_def ack_recv_cb_def Let_def split_beta set_rsp_data_stores)+

lemma recv_dispatch_stores:
  "stores key_of keys u (recv_dispatch pf sync info buf s) = stores key_of keys u s"
  by (simp add: recv_dispatch_def recv_cbs_store split: recv_cb.split)

lemma parse_elems_stores:
  "parse_elems pf ds s = Some (e, s') \<Longrightarrow> stores key_of keys u s' = stores key_of keys u s"
proof (induction ds arbitrary: s)
  case Nil
  then show ?case by simp
next
  case (Cons d ds)
  then obtain g err s1 where p: "parse_adv_data pf d s = Some (g, err, s1)"
    by (auto split: option.splits)
  have "stores key_of keys u s1 = stores key_of keys u s"
    using p by (auto simp: parse_adv_data_def Let_def split_beta split: if_splits)
  with Cons p show ?case by (auto split: if_splits)
qed

lemma scan_recv_cb_stores:
  assumes "scan_recv_cb pf info bytes s = Some s'"
  shows "stores key_of keys u s' = stores key_of keys u s"
proof (cases "\<exists>j a. info = Some j \<and> scan_addr j = Some a \<and> scan_ext_adv j \<and> scan_interval j \<noteq> 0")
  case False
  with assms show ?thesis by (auto simp: scan_recv_cb_def split: option.splits if_splits)
next
  case True
  then obtain j a where j: "info = Some j" "scan_addr j = Some a" "scan_ext_adv j" "scan_interval j \<noteq> 0" by blast
  with assms obtain e s1 where p: "parse_elems pf (bt_data_parse_elems pf bytes) s = Some (e, s1)"
    by (auto simp: scan_recv_cb_def split: option.splits)
  show ?thesis
    using assms j p parse_elems_stores [OF p, of keys u]
    by (auto simp: scan_recv_cb_def zephyr_call_def Let_def split: if_splits)
qed

section \<open>The main thread\<close>

lemma init_resume_stores:
  assumes "stores key_of keys u s" and "keys u = Some x"
  shows "stores key_of keys u (init_resume pf s)"
proof -
  obtain l where l: "snd (init_led pf led2 s) = s\<lparr>zlog := l\<rparr>"
    using init_led_log [of pf led2 s] by auto
  obtain e p where i: "crypto_init pf (psa_store s) = (e, p)" by (metis prod.exhaust)
  then have p: "key_of p = keys"
    using init_keys assms(1) by (auto simp: crypto_init_def stores_def)
  obtain e' c q where ci: "crypto_secure_counter_init pf (sc_counter s) p = (e', c, q)" by (metis prod.exhaust)
  have uid: "storage_uid (sc_counter s) = u" using assms(1) by (simp add: stores_def)
  have "storage_uid c = u" "key_of q = keys"
    using counter_init_keeps [OF ci] uid p assms(2) by auto
  with l i p ci uid show ?thesis
    unfolding init_resume_def Let_def split_beta l by (simp add: stores_def sc_return_def zephyr_do_def)
qed

lemma sc_main_stores:
  assumes "sc_main pf s = Some s'" and "stores key_of keys u s" and "keys u = Some x"
  shows "stores key_of keys u s'"
proof (cases "sc_at s = Init_slept")
  case True
  then show ?thesis using assms(1) init_resume_stores [OF assms(2,3)] by (simp add: sc_main_def)
next
  case False
  then show ?thesis using sc_frame_stores [OF sc_main_frame [OF assms(1)]] assms(2) by blast
qed

lemma sc_step_stores:
  assumes "sc_step pf s s'" and "stores key_of keys (COUNTER_ID pf) s" and "keys (COUNTER_ID pf) = Some x"
  shows "stores key_of keys (COUNTER_ID pf) s'"
  using assms
proof (induction rule: sc_step.induct)
  case (step_main s s')
  then show ?case by (blast intro: sc_main_stores)
next
  case (step_recv buf s sync info)
  then show ?case by (simp add: recv_dispatch_stores)
next
  case (step_scan info bytes s s')
  then show ?case using scan_recv_cb_stores by blast
next
  case (step_reboot s)
  then show ?case by (simp add: stores_def sc_boot_def)
qed simp_all

lemma sc_reach_stores:
  assumes "sc_reach pf i p0 s" and "key_of p0 (COUNTER_ID pf) = Some x"
  shows "stores key_of (key_of p0) (COUNTER_ID pf) s"
  using assms(1)
proof (induction rule: sc_reach.induct)
  case sc_reach_boot
  then show ?case by (simp add: stores_def sc_boot_def)
next
  case (sc_reach_step s s')
  then show ?case using sc_step_stores assms(2) by blast
qed

end

context pawr_reliable
begin

text \<open>The counter that \<open>init\<close> reads.\<close>

lemma init_reads_counter:
  assumes "key_of p (COUNTER_ID pf) = Some (a, d)" and "psa_key_usage_flags a = PSA_KEY_USAGE_EXPORT" and "length d \<le> 8"
  shows "cc_value (sc_counter (init_resume pf (init_enter (sc_boot pf i p)))) = of_le (store (le_bytes 8 (0 :: u64)) 0 d)"
proof -
  let ?s = "init_enter (sc_boot pf i p)"
  have s: "psa_store ?s = p" "sc_counter ?s = \<lparr>cc_value = 0, storage_uid = COUNTER_ID pf\<rparr>"
    by (simp_all add: init_enter_def sc_boot_def sc_wait_def zephyr_do_def)
  obtain l where l: "snd (init_led pf led2 ?s) = ?s\<lparr>zlog := l\<rparr>"
    using init_led_log [of pf led2 ?s] by auto
  obtain e q where i: "psa_crypto_init pf p = (e, q)" by (metis prod.exhaust)
  have q: "e = PSA_SUCCESS" "key_of q = key_of p"
    using init_succeeds [of p] init_keys [OF i] i by simp_all
  obtain st tmp r where x: "psa_export_key pf (COUNTER_ID pf) 8 q = (st, tmp, r)" by (metis prod.exhaust)
  have "st = PSA_SUCCESS"
    using export_succeeds [of q "COUNTER_ID pf" a d 8] assms q x by simp
  moreover from this x export_ok assms(1) q have "tmp = d" by fastforce
  ultimately have "crypto_secure_counter_init pf (sc_counter ?s) q =
      (PSA_SUCCESS, \<lparr>cc_value = of_le (store (le_bytes 8 (0 :: u64)) 0 d), storage_uid = COUNTER_ID pf\<rparr>, r)"
    using x by (simp add: crypto_secure_counter_init_def s SIZEOF_U64_def)
  then show ?thesis
    unfolding init_resume_def Let_def split_beta l
    by (simp add: s i q crypto_init_def sc_return_def zephyr_do_def)
qed

end

end
