(* ===== verification/Protocol.thy ===== *)
theory Protocol
  imports Scanner_Recv Scanner_Store Advertiser_Run
begin

text \<open>
  The two programs together, over the air: what the advertiser sends in a full period, how a
  scanner that shares its key reads it, and how the advertiser judges what the scanner answers.
  The programs run on platforms of their own that agree on the MAC function only.
\<close>

section \<open>Signed bytes\<close>

lemma verify_spec_signed:
  assumes "f (payload @ le_bytes 8 c) = Some t" and "length t = HASH_LEN" and "c0 \<le> c"
  shows "verify_spec f (payload @ le_bytes 8 c @ t) c0 = (TRANSFER_NO_ERROR, payload, c)"
proof -
  let ?body = "payload @ le_bytes 8 c"
  have b: "body_of (payload @ le_bytes 8 c @ t) = ?body" "tag_of (payload @ le_bytes 8 c @ t) = t"
    using body_of_append [OF assms(2), of ?body] tag_of_append [OF assms(2), of ?body] by (simp_all only: append_assoc)
  show ?thesis
    using assms b by (simp add: verify_spec_def not_less Let_def)
qed

lemma reliable_mac_length:
  assumes "pawr_reliable pf key_of mac"
  shows "length (mac k m) = HASH_LEN"
proof -
  have "psa_key_store pf key_of mac" using assms by (simp add: pawr_reliable_def pawr_platform_def)
  then show ?thesis by (simp add: psa_key_store.mac_length HASH_LEN_def)
qed

lemma reliable_user_min: "pawr_reliable pf key_of mac \<Longrightarrow> psa_key_id_user_min pf = 1"
  by (rule psa_key_store.user_min [of _ key_of mac]) (simp add: pawr_reliable_def pawr_platform_def)

section \<open>A full period of the advertiser\<close>

definition full_period :: bt_le_per_adv_data_request where
  "full_period = \<lparr>req_start = 0, req_count = of_nat MAX_NUM_SUBEVENTS\<rparr>"

lemma sub_ix_full: "i < MAX_NUM_SUBEVENTS \<Longrightarrow> sub_ix full_period i = i"
  by (simp add: sub_ix_def full_period_def)

lemma req_count_full: "min (unat (req_count full_period)) MAX_NUM_SUBEVENTS = MAX_NUM_SUBEVENTS"
  by (simp add: full_period_def MAX_NUM_SUBEVENTS_def)

text \<open>All messages of a full period carry the same counter, one ahead of the pending one.\<close>

definition period_counter :: "adv_abs \<Rightarrow> u64" where
  "period_counter a = a_counter a + a_pending a + 1"

lemma abs_rounds:
  assumes "n \<le> MAX_NUM_SUBEVENTS" and "length (a_slots a) = MAX_NUM_SUBEVENTS" and "a_pending a = 0"
  defines "b \<equiv> fold (\<lambda>i. abs_subevent (sub_ix full_period i)) [0..<n] a"
  shows "a_counter b = a_counter a \<and> a_pending b = (if n = 0 then 0 else 1) \<and> length (a_slots b) = MAX_NUM_SUBEVENTS \<and>
    (\<forall>i < MAX_NUM_SUBEVENTS. a_slots b ! i = (if i < n then map age (a_slots a ! i) else a_slots a ! i)) \<and>
    a_sent b = a_sent a @ map (\<lambda>i. (i, map ack_of (a_slots a ! i), a_counter a + 1)) [0..<n]"
  unfolding b_def using assms(1)
proof (induction n)
  case 0
  then show ?case using assms(2,3) by simp
next
  case (Suc n)
  then have n: "n < MAX_NUM_SUBEVENTS" by simp
  with Suc.IH show ?case
    by (simp add: sub_ix_full abs_subevent_def Let_def nth_list_update)
qed

lemma abs_full_period:
  assumes "length (a_slots a) = MAX_NUM_SUBEVENTS"
  defines "b \<equiv> abs_request full_period a"
  shows "a_counter b = a_counter a + a_pending a" and "a_pending b = 1" and "length (a_slots b) = MAX_NUM_SUBEVENTS"
    and "i < MAX_NUM_SUBEVENTS \<Longrightarrow> a_slots b ! i = map age (a_slots a ! i)"
    and "a_sent b = a_sent a @ map (\<lambda>i. (i, map ack_of (a_slots a ! i), period_counter a)) [0..<MAX_NUM_SUBEVENTS]"
  using abs_rounds [of MAX_NUM_SUBEVENTS "a\<lparr>a_counter := a_counter a + a_pending a, a_pending := 0\<rparr>"] assms(1)
  unfolding b_def abs_request_def req_count_full
  by (simp_all add: period_counter_def) (simp_all add: MAX_NUM_SUBEVENTS_def)

text \<open>The messages that are sent between two states.\<close>

definition new_messages :: "'p advertiser \<Rightarrow> 'p advertiser \<Rightarrow> byte list list" where
  "new_messages s s' = map sdp_data (drop (length (subevents_sent (zlog s))) (subevents_sent (zlog s')))"

lemma full_period_messages:
  assumes "pawr_reliable pf key_of mac" and sim: "adv_sim key_of keys (mac k) s a"
    and key: "key_is keys (ADVERTISER_KEY_ID pf) k" and sub: "sub < MAX_NUM_SUBEVENTS"
  defines "s' \<equiv> request_cb pf full_period s" and "m \<equiv> subevent_body (map ack_of (a_slots a ! sub)) (period_counter a)"
  shows "adv_sim key_of keys (mac k) s' (abs_request full_period a)" and "new_messages s s' ! sub = m @ mac k m"
proof -
  from key obtain ka where "keys (ADVERTISER_KEY_ID pf) = Some (ka, k)" "signing_key ka" by (auto simp: key_is_def)
  from pawr_reliable.request_cb_sim [OF assms(1) sim this, of full_period]
  show sim': "adv_sim key_of keys (mac k) s' (abs_request full_period a)" by (simp add: s'_def)
  have "length (a_slots a) = MAX_NUM_SUBEVENTS"
    using sim by (simp add: adv_sim_def adv_inv_def rows_ok_def)
  from abs_full_period(5) [OF this] sim sim' sub show "new_messages s s' ! sub = m @ mac k m"
    by (simp add: new_messages_def adv_sim_def subevent_msg_def m_def)
qed

section \<open>How the scanner reads it\<close>

lemma concat_le_bytes: "concat (map (le_bytes 2) ids) = acks_wire (map (\<lambda>i. \<lparr>ack_id = i\<rparr>) ids)"
  by (induction ids) (simp_all add: acks_wire_def)

lemma reads_subevent:
  assumes rel: "pawr_reliable pf key_of mac" and key: "key_is (key_of (psa_store t)) (ADVERTISER_KEY_ID pf) k"
    and slot: "slot_in_range t" and len: "length acks = SCANNER_RSP_SLOTS" and c: "cc_value (sc_counter t) \<le> c"
  defines "m \<equiv> subevent_body acks c"
  shows "sc_reading pf t (m @ mac k m) =
    (if acks ! unat (rsp_slot (selected_slot t)) = CONFIG_SCANNER_ID t then Ack c else Nack c)"
proof -
  let ?payload = "concat (map (le_bytes 2) acks)"
  have m: "m = ?payload @ le_bytes 8 c" by (simp add: m_def subevent_body_def)
  have "length (mac k m) = HASH_LEN" by (rule reliable_mac_length [OF rel])
  with c have v: "verify_spec (mac_of pf (ADVERTISER_KEY_ID pf) (psa_store t)) (m @ mac k m) (cc_value (sc_counter t))
      = (TRANSFER_NO_ERROR, ?payload, c)"
    using verify_spec_signed [of _ ?payload c "mac k m"] key_mac_key [OF key]
    by (simp add: mac_of_key_mac [OF rel] m)
  have l: "length ?payload = ack_bytes"
    using len by (simp add: concat_le_bytes ack_bytes_def)
  have "as_ack_data ?payload = map (\<lambda>i. \<lparr>ack_id = i\<rparr>) acks"
    by (simp add: concat_le_bytes as_ack_data_wire)
  with v l slot len show ?thesis
    by (simp add: sc_reading_def read_message_def slot_in_range_def)
qed

section \<open>How the advertiser judges a response\<close>

lemma response_sender_wire:
  assumes "length (rsp_data r) = unat (data_len r)"
  shows "response_sender (response_wire r) = Some (sender_id (rsp_metadata r))"
proof -
  have "take (unat (data_len r)) (rsp_data r) = rsp_data r" using assms by simp
  then show ?thesis
    using assms by (simp add: response_sender_def response_wire_def)
qed

lemma judges_response:
  assumes rel: "pawr_reliable pf key_of mac" and key: "key_is keys (scanner_key_id pf (sender_id (rsp_metadata r))) k"
    and c: "c0 \<le> resp_counter r" and wire: "response_sender (response_wire r) = Some (sender_id (rsp_metadata r))"
  shows "judge pf mac keys c0 (response_body r @ mac k (response_body r)) = Verified (sender_id (rsp_metadata r)) (resp_counter r)"
proof -
  let ?t = "mac k (response_body r)"
  have t: "length ?t = HASH_LEN" by (rule reliable_mac_length [OF rel])
  have v: "verify_spec (key_mac mac keys (scanner_key_id pf (sender_id (rsp_metadata r)))) (response_body r @ ?t) c0
      = (TRANSFER_NO_ERROR, response_wire r, resp_counter r)"
    using verify_spec_signed [of _ "response_wire r" "resp_counter r" ?t c0] key_mac_key [OF key] t c
    by (simp add: response_body_def)
  have l: "length (response_body r @ ?t) = length (response_wire r) + (HASH_LEN + 8)"
    using t by (simp add: response_body_def)
  have "take (length (response_body r @ ?t) - (HASH_LEN + 8)) (response_body r @ ?t) = response_wire r"
    unfolding l by (simp add: response_body_def)
  with v l wire show ?thesis
    by (simp add: judge_def)
qed

section \<open>One exchange\<close>

text \<open>What the host of the advertiser reports of a response: the subevent and the slot it was
  sent in.\<close>

definition info_of :: "bt_le_per_adv_response_params \<Rightarrow> int \<Rightarrow> bt_le_per_adv_response_info" where
  "info_of params rssi = \<lparr>rsp_subevent = response_subevent params, rsp_response_slot = response_slot params, rsp_rssi = rssi\<rparr>"

lemma abs_reserve_keeps:
  "abs_reserve a = (r, a') \<Longrightarrow> a_slots a' = a_slots a \<and> a_counter a' = a_counter a \<and> a_pending a' = a_pending a"
  by (auto simp: abs_reserve_def split: if_splits)

lemma abs_replace_keeps [simp]:
  "a_slots (abs_replace d a) = a_slots a" "a_counter (abs_replace d a) = a_counter a" "a_pending (abs_replace d a) = a_pending a"
  by (auto simp: abs_replace_def split: list.split prod.split dest: abs_reserve_keeps)

lemma abs_response_slot:
  assumes "length (a_slots a) = MAX_NUM_SUBEVENTS" and "sub < MAX_NUM_SUBEVENTS"
    and "length (a_slots a ! sub) = NUM_RSP_SLOTS" and "j < NUM_RSP_SLOTS"
    and "i \<noteq> 0" and "a_slots a ! sub ! j = Free \<or> (\<exists>n. a_slots a ! sub ! j = Held i n)"
    and b: "b = abs_response sub j (Verified i c) a"
  shows "a_slots b ! sub ! j = Held i 0" and "a_counter b = c" and "a_pending b = a_pending a"
    and "length (a_slots b) = MAX_NUM_SUBEVENTS"
  using assms(1-6) by (auto simp: b abs_set_def hold_def Let_def)

text \<open>A response that its sender has signed, in a slot that is free or its own, with a counter that
  is not behind: the sender is the holder of the slot, and nothing happens to the others.\<close>

lemma replied:
  assumes rel: "pawr_reliable pf key_of mac" and sim: "adv_sim key_of keys tag s b" and ks: "key_is keys (scanner_key_id pf i) ks"
    and sub: "sub < MAX_NUM_SUBEVENTS" and j: "unat (response_slot params) < NUM_RSP_SLOTS" and at: "response_subevent params = of_nat sub"
    and i: "i \<noteq> 0" and slot: "a_slots b ! sub ! unat (response_slot params) \<in> {Free} \<union> range (Held i)"
    and r: "sender_id (rsp_metadata r) = i" "response_sender (response_wire r) = Some i" and c: "a_counter b \<le> resp_counter r"
    and s': "s' = response_cb pf (info_of params rssi) (Some (buf_of (response_body r @ mac ks (response_body r)))) s"
  shows "\<exists>b'. adv_sim key_of keys tag s' b' \<and> a_counter b' = resp_counter r \<and> a_pending b' = a_pending b \<and>
    a_slots b' = (a_slots b)[sub := (a_slots b ! sub)[unat (response_slot params) := Held i 0]]"
proof -
  let ?j = "unat (response_slot params)" and ?m = "response_body r @ mac ks (response_body r)"
  let ?b' = "abs_response sub ?j (Verified i (resp_counter r)) b"
  have ix: "unat (of_nat sub :: u8) = sub" using sub by (simp add: MAX_NUM_SUBEVENTS_def unat_of_nat)
  have "judge pf mac keys (a_counter b) ?m = Verified i (resp_counter r)"
    using judges_response [OF rel, of keys r ks "a_counter b"] ks c r by simp
  with pawr_reliable.response_cb_sim [OF rel sim, of "buf_of ?m" "info_of params rssi"] ix sub j
  have "adv_sim key_of keys tag s' ?b'" by (simp add: info_of_def at s')
  moreover have "a_counter ?b' = resp_counter r" "a_pending ?b' = a_pending b"
    "a_slots ?b' = (a_slots b)[sub := (a_slots b ! sub)[?j := Held i 0]]"
    using slot i by (auto simp: abs_set_def hold_def Let_def)
  ultimately show ?thesis by blast
qed

text \<open>A response in the slot, with the counter of this period's messages and the sender's MAC, makes
  the sender the holder.\<close>

lemma heard:
  assumes rel: "pawr_reliable pf key_of mac" and sim: "adv_sim key_of keys (mac ka) s a"
    and ka: "key_is keys (ADVERTISER_KEY_ID pf) ka" and ks: "key_is keys (scanner_key_id pf i) ks"
    and sub: "sub < MAX_NUM_SUBEVENTS" and j: "unat (response_slot params) < NUM_RSP_SLOTS"
    and at: "response_subevent params = of_nat sub"
    and i: "i \<noteq> 0" and slot: "view (rsp_slots s ! sub ! unat (response_slot params)) \<in> {Free} \<union> range (Held i)"
    and r: "sender_id (rsp_metadata r) = i" "resp_counter r = period_counter a" "response_sender (response_wire r) = Some i"
    and room: "unat (a_counter a) + unat (a_pending a) + 3 < 2 ^ 64"
    and s2_def: "s2 = response_cb pf (info_of params rssi) (Some (buf_of (response_body r @ mac ks (response_body r)))) (request_cb pf full_period s)"
  shows "\<exists>b. adv_sim key_of keys (mac ka) s2 b \<and> a_counter b = period_counter a \<and> a_pending b = 1 \<and>
    a_slots b ! sub ! unat (response_slot params) = Held i 0"
proof -
  let ?j = "unat (response_slot params)" and ?a1 = "abs_request full_period a"
  have rows: "length (a_slots a) = MAX_NUM_SUBEVENTS" "\<forall>row \<in> set (a_slots a). length row = NUM_RSP_SLOTS"
    using sim by (auto simp: adv_sim_def adv_inv_def rows_ok_def)
  note s1 = full_period_messages(1) [OF rel sim ka sub]
  note a1 = abs_full_period [OF rows(1)]
  have v: "a_slots a ! sub ! ?j = view (rsp_slots s ! sub ! ?j)"
    using sim sub j by (simp add: adv_sim_def adv_inv_def rows_ok_def)
  have l1: "length (a_slots ?a1 ! sub) = NUM_RSP_SLOTS" "a_slots ?a1 ! sub ! ?j = age (a_slots a ! sub ! ?j)"
    using a1(4) [OF sub] rows sub j by simp_all
  have free: "a_slots ?a1 ! sub ! ?j \<in> {Free} \<union> range (Held i)"
    using slot by (auto simp: l1(2) v)
  have "unat (a_counter a + a_pending a) = unat (a_counter a) + unat (a_pending a)"
    using room by (simp add: unat_word_ariths)
  then have "a_counter ?a1 \<le> resp_counter r"
    using room by (simp add: a1(1) r(2) period_counter_def word_le_nat_alt unat_word_ariths)
  from replied [OF rel s1 ks sub j at i free r(1,3) this s2_def] a1(2,3) l1(1) sub j show ?thesis
    by (auto simp: r(2))
qed

text \<open>The advertiser answers in the next period: a response in the slot, with the counter of this
  period's messages and the sender's MAC, makes the sender the holder; the next period's message
  acknowledges it, with a counter that is two ahead.\<close>

lemma exchange:
  assumes rel: "pawr_reliable pf key_of mac" and sim: "adv_sim key_of keys (mac ka) s a"
    and ka: "key_is keys (ADVERTISER_KEY_ID pf) ka" and ks: "key_is keys (scanner_key_id pf i) ks"
    and sub: "sub < MAX_NUM_SUBEVENTS" and j: "unat (response_slot params) < NUM_RSP_SLOTS"
    and at: "response_subevent params = of_nat sub"
    and i: "i \<noteq> 0" and slot: "view (rsp_slots s ! sub ! unat (response_slot params)) \<in> {Free} \<union> {Held i n |n. n < MAX_SILENT}"
    and r: "sender_id (rsp_metadata r) = i" "resp_counter r = period_counter a" "response_sender (response_wire r) = Some i"
    and room: "unat (a_counter a) + unat (a_pending a) + 3 < 2 ^ 64"
    and s2_def: "s2 = response_cb pf (info_of params rssi) (Some (buf_of (response_body r @ mac ks (response_body r)))) (request_cb pf full_period s)"
  shows "view (rsp_slots s2 ! sub ! unat (response_slot params)) = Held i 0"
    and "\<exists>acks. length acks = NUM_RSP_SLOTS \<and> acks ! unat (response_slot params) = i \<and>
      new_messages s2 (request_cb pf full_period s2) ! sub =
        subevent_body acks (period_counter a + 2) @ mac ka (subevent_body acks (period_counter a + 2))"
proof -
  let ?j = "unat (response_slot params)"
  have held: "view (rsp_slots s ! sub ! ?j) \<in> {Free} \<union> range (Held i)" using slot by auto
  from heard [OF rel sim ka ks sub j at i held r room s2_def] obtain b where
    s2: "adv_sim key_of keys (mac ka) s2 b" and b: "a_counter b = period_counter a" "a_pending b = 1" "a_slots b ! sub ! ?j = Held i 0"
    by blast
  have len2: "length (rsp_slots s2) = MAX_NUM_SUBEVENTS" "length (rsp_slots s2 ! sub) = NUM_RSP_SLOTS"
    using adv_simD(1) [OF s2] rows_ok_row [OF _ sub] by (simp_all add: adv_inv_def rows_ok_def)
  have row2: "a_slots b ! sub = map view (rsp_slots s2 ! sub)"
    using s2 sub len2(1) unfolding adv_sim_def by (metis nth_map)
  with b(3) j len2(2) show "view (rsp_slots s2 ! sub ! ?j) = Held i 0" by simp
  have "period_counter b = period_counter a + 2"
    using b(1,2) by (simp add: period_counter_def)
  with full_period_messages(2) [OF rel s2 ka sub] row2 b(3) len2(2) j
  show "\<exists>acks. length acks = NUM_RSP_SLOTS \<and> acks ! ?j = i \<and>
      new_messages s2 (request_cb pf full_period s2) ! sub =
        subevent_body acks (period_counter a + 2) @ mac ka (subevent_body acks (period_counter a + 2))"
    by (intro exI [of _ "map ack_of (a_slots b ! sub)"]) simp
qed

text \<open>The same, from what the scanner hands to its host: the message of the next period is an ack
  for it.\<close>

lemma answered:
  assumes rel: "pawr_reliable pf key_of mac" and rel': "pawr_reliable pf' key_of' mac"
    and sim: "adv_sim key_of keys (mac ka) s a"
    and ka: "key_is keys (ADVERTISER_KEY_ID pf) ka" and ks: "key_is keys (scanner_key_id pf i) ks"
    and ka': "key_is (key_of' (psa_store t1)) (ADVERTISER_KEY_ID pf') ka"
    and ks': "key_is (key_of' p) (MIN_SCANNER_KEY_ID pf') ks"
    and sub: "sub < MAX_NUM_SUBEVENTS" "recv_subevent info = of_nat sub"
    and slot: "slot_in_range t" "selected_slot t1 = selected_slot t" and id: "i \<noteq> 0" "CONFIG_SCANNER_ID t1 = i"
    and view: "view (rsp_slots s ! sub ! unat (rsp_slot (selected_slot t))) \<in> {Free} \<union> {Held i n |n. n < MAX_SILENT}"
    and r: "sender_id (rsp_metadata r) = i" "resp_counter r = period_counter a" "response_sender (response_wire r) = Some i"
    and room: "unat (a_counter a) + unat (a_pending a) + 3 < 2 ^ 64"
    and resp: "responded pf' sync info r t t1 p" and c: "cc_value (sc_counter t1) = period_counter a + 1"
  shows "\<exists>params m. zlog t1 = zlog t @ [Bt_le_per_adv_set_response_data sync params m] \<and>
    (\<forall>rssi s2. s2 = response_cb pf (info_of params rssi) (Some (buf_of m)) (request_cb pf full_period s) \<longrightarrow>
      view (rsp_slots s2 ! sub ! unat (rsp_slot (selected_slot t))) = Held i 0 \<and>
      sc_reading pf' t1 (new_messages s2 (request_cb pf full_period s2) ! sub) = Ack (period_counter a + 2) \<and>
      new_messages s2 (request_cb pf full_period s2) ! sub \<noteq> [])"
proof -
  let ?j = "unat (rsp_slot (selected_slot t))" and ?params = "response_params info t"
  have p: "response_slot ?params = rsp_slot (selected_slot t)" "response_subevent ?params = of_nat sub"
    using sub(2) by (simp_all add: response_params_def)
  have j: "?j < NUM_RSP_SLOTS" using slot(1) by (simp add: slot_in_range_def SCANNER_RSP_SLOTS_def NUM_RSP_SLOTS_def)
  have "mac_of pf' (MIN_SCANNER_KEY_ID pf') p (response_body r) = Some (mac ks (response_body r))"
    using key_mac_key [OF ks'] by (simp add: mac_of_key_mac [OF rel'])
  with resp have z: "zlog t1 = zlog t @ [Bt_le_per_adv_set_response_data sync ?params (response_body r @ mac ks (response_body r))]"
    by (auto simp: responded_def)
  have "unat (a_counter a + a_pending a) = unat (a_counter a) + unat (a_pending a)"
    using room by (simp add: unat_word_ariths)
  then have c': "cc_value (sc_counter t1) \<le> period_counter a + 2"
    using room by (simp add: c period_counter_def word_le_nat_alt unat_word_ariths)
  have slot1: "slot_in_range t1" using slot by (simp add: slot_in_range_def)
  have "view (rsp_slots s2 ! sub ! ?j) = Held i 0 \<and>
      sc_reading pf' t1 (new_messages s2 (request_cb pf full_period s2) ! sub) = Ack (period_counter a + 2) \<and>
      new_messages s2 (request_cb pf full_period s2) ! sub \<noteq> []"
    if s2: "s2 = response_cb pf (info_of ?params rssi) (Some (buf_of (response_body r @ mac ks (response_body r)))) (request_cb pf full_period s)"
    for s2 rssi
  proof -
    note ex = exchange [OF rel sim ka ks sub(1), of ?params, unfolded p, OF j refl id(1) view r room s2]
    from ex(2) obtain acks where acks: "length acks = SCANNER_RSP_SLOTS" "acks ! ?j = i"
      and m: "new_messages s2 (request_cb pf full_period s2) ! sub =
        subevent_body acks (period_counter a + 2) @ mac ka (subevent_body acks (period_counter a + 2))"
      by (auto simp: NUM_RSP_SLOTS_def SCANNER_RSP_SLOTS_def)
    have "subevent_body acks (period_counter a + 2) \<noteq> []"
      using length_subevent_body [of acks "period_counter a + 2"] by (metis add_is_0 list.size(3) zero_neq_numeral)
    with ex(1) m reads_subevent [OF rel' ka' slot1 acks(1) c'] acks(2) id(2) slot(2) show ?thesis
      by simp
  qed
  with z show ?thesis by blast
qed

text \<open>The message of this period, and the counter it leaves.\<close>

lemma period_message:
  assumes "pawr_reliable pf key_of mac" and "pawr_reliable pf' key_of' mac" and sim: "adv_sim key_of keys (mac ka) s a"
    and ka: "key_is keys (ADVERTISER_KEY_ID pf) ka" and ka': "key_is (key_of' (psa_store t)) (ADVERTISER_KEY_ID pf') ka"
    and sub: "sub < MAX_NUM_SUBEVENTS" and slot: "slot_in_range t" and c: "cc_value (sc_counter t) \<le> period_counter a"
  shows "sc_reading pf' t (new_messages s (request_cb pf full_period s) ! sub) =
      (if ack_of (view (rsp_slots s ! sub ! unat (rsp_slot (selected_slot t)))) = CONFIG_SCANNER_ID t
       then Ack (period_counter a) else Nack (period_counter a))"
    and "new_messages s (request_cb pf full_period s) ! sub \<noteq> []"
proof -
  have len: "length (rsp_slots s) = MAX_NUM_SUBEVENTS" "length (rsp_slots s ! sub) = NUM_RSP_SLOTS"
    using adv_simD(1) [OF sim] rows_ok_row [OF _ sub] by (simp_all add: adv_inv_def rows_ok_def)
  then have row: "a_slots a ! sub = map view (rsp_slots s ! sub)"
    using sim sub by (simp add: adv_sim_def)
  have l: "length (map ack_of (a_slots a ! sub)) = SCANNER_RSP_SLOTS"
    using row len by (simp add: NUM_RSP_SLOTS_def SCANNER_RSP_SLOTS_def)
  note m = full_period_messages(2) [OF assms(1) sim ka sub]
  from reads_subevent [OF assms(2) ka' slot l c] row len(2) slot m
  show "sc_reading pf' t (new_messages s (request_cb pf full_period s) ! sub) =
      (if ack_of (view (rsp_slots s ! sub ! unat (rsp_slot (selected_slot t)))) = CONFIG_SCANNER_ID t
       then Ack (period_counter a) else Nack (period_counter a))"
    by (simp add: slot_in_range_def NUM_RSP_SLOTS_def SCANNER_RSP_SLOTS_def)
  have "subevent_body (map ack_of (a_slots a ! sub)) (period_counter a) \<noteq> []"
    using length_subevent_body [of "map ack_of (a_slots a ! sub)" "period_counter a"] by (metis add_is_0 list.size(3) zero_neq_numeral)
  with m show "new_messages s (request_cb pf full_period s) ! sub \<noteq> []" by simp
qed

end
