(* ===== verification/Allocation_Props.thy ===== *)
theory Allocation_Props
  imports Advertiser_Start Advertiser_Batches Protocol
begin

text \<open>
  Properties of runs of the advertiser, with their witnesses: as long as responses come in slots
  that were assigned or advertised, no slot is given to two devices; a response that comes too late
  breaks this; who holds a slot has proved it with a signature; the messages handed to the host are
  well formed; and how the host batches its requests makes no difference.
\<close>

section \<open>No slot is assigned twice\<close>

text \<open>C18: in every run after start-up in which no response is rejected and each comes in a slot
  that is held or advertised, no slot is at the same time free and held, or free and advertised, or
  advertised and held, none is listed twice, and the slot that is reserved next is neither held nor
  advertised. The bound is on the responses that claim a slot nobody holds, however many come from holders: the
  slot numbers of a byte do not run out.\<close>

theorem no_slot_assigned_twice:
  assumes "pawr_reliable pf key_of mac" and "key_is (key_of p) (ADVERTISER_KEY_ID pf) ka" and "key_of p (COUNTER_ID pf) = Some x"
    and "orderly_run pf mac (key_of p) es (started pf p)" and "claims_in pf es (started pf p) < 26000"
    and "s = fold (run_event pf) es (started pf p)"
  shows "slots_disjoint s \<and> fst (reserve_slot s) \<notin> slots_held s \<union> set (register_subevent_data s)"
proof -
  have pf: "pawr_platform pf key_of mac" using assms(1) by (simp add: pawr_reliable_def)
  obtain c where sim: "adv_sim key_of (key_of p) (mac ka) (started pf p) (start_abs c)"
    using pawr_platform.adv_init_sim [OF pf assms(3)] by blast
  have "slot_number (a_next (start_abs c)) = 10"
    by (simp add: start_abs_def slot_number_def slot_id_def)
  with orderly_run_alloc [OF assms(1,2) sim start_abs_alloc assms(4)] assms(5)
  obtain b where "adv_sim key_of (key_of p) (mac ka) s b" "alloc_ok b"
    by (auto simp: NUM_RSP_SLOTS_def assms(6))
  from slots_disjoint_sim [OF this] show ?thesis by simp
qed

text \<open>An answer of device 1, signed with its key.\<close>

definition demo_response :: response_data_t where
  "demo_response = \<lparr>rsp_metadata = \<lparr>sender_id = 1, rsp_counter = 0\<rparr>, rsp_data = [], data_len = 0, resp_counter = 5\<rparr>"

definition demo_answer :: "byte list" where
  "demo_answer = response_body demo_response @ mac32 demo_hash (demo_key 9) (response_body demo_response)"

text \<open>The keys of the demonstration, with a stored counter of 0.\<close>

definition provisioned :: key_map where
  "provisioned = demo_keys(COUNTER_ID demo \<mapsto> (counter_key_attributes demo (COUNTER_ID demo), le_bytes 4 (0 :: u64)))"

lemma provisioned_keys:
  "key_is provisioned (ADVERTISER_KEY_ID demo) (demo_key 7)" "key_is provisioned (scanner_key_id demo 1) (demo_key 9)"
  "provisioned (COUNTER_ID demo) = Some (counter_key_attributes demo (COUNTER_ID demo), le_bytes 4 (0 :: u64))"
  using demo_keys_shared by (simp_all add: provisioned_def key_is_def demo_key_ids) (simp_all add: key_ids demo_def store_platform_def)

lemma provisioned_start: "adv_sim (\<lambda>p. p) provisioned tag (started demo provisioned) (start_abs 0)"
  using pawr_reliable.started_sim [OF demo_reliable, of provisioned, OF provisioned_keys(3)] by (simp add: store_le_bytes_0)

lemma demo_answer_verified: "key_is keys (scanner_key_id demo 1) (demo_key 9) \<Longrightarrow> c \<le> 5 \<Longrightarrow>
    judge demo (mac32 demo_hash) keys c demo_answer = Verified 1 5"
  using judges_response [OF demo_reliable, of keys demo_response "demo_key 9" c] response_sender_wire [of demo_response]
  by (simp add: demo_response_def demo_answer_def)

lemma demo_answer_sim:
  "adv_sim (\<lambda>p. p) provisioned tag (response_cb demo demo_info (Some (buf_of demo_answer)) (started demo provisioned))
     (abs_response 0 5 (Verified 1 5) (start_abs 0))"
  using pawr_reliable.response_cb_sim [OF demo_reliable provisioned_start, of "buf_of demo_answer" demo_info tag] demo_info_ok
    demo_answer_verified [OF provisioned_keys(2), of 0]
  by (simp add: info_ok_def demo_info_def start_abs_def)

lemma demo_answer_abs: "a_slots (abs_response 0 5 (Verified 1 5) (start_abs 0)) ! 0 ! 5 = Held 1 0"
  using start_abs_free [of 0 5 0] start_abs_alloc [of 0]
  by (intro abs_response_slot(1) [of "start_abs 0"]) (simp_all add: alloc_ok_def slots_shape_def adv_sizes)

theorem no_slot_assigned_twice_witness:
  "slots_disjoint (response_cb demo demo_info (Some (buf_of demo_answer)) (started demo provisioned)) \<and>
   fst (reserve_slot (response_cb demo demo_info (Some (buf_of demo_answer)) (started demo provisioned))) \<noteq> \<lparr>subevent = 0, rsp_slot = 5\<rparr>"
proof -
  let ?s = "response_cb demo demo_info (Some (buf_of demo_answer)) (started demo provisioned)"
  have "register_subevent_data (started demo provisioned) = map (slot_id 0) [5..<10]"
    and "cc_value (counter (started demo provisioned)) = 0"
    using provisioned_start [of "\<lambda>m. []"] by (simp_all add: adv_sim_def start_abs_def)
  then have "\<lparr>subevent = 0, rsp_slot = 5\<rparr> \<in> set (register_subevent_data (started demo provisioned))"
    and "cc_value (counter (started demo provisioned)) = 0"
    by (simp_all add: slot_id_def)
  then have "orderly_run demo (mac32 demo_hash) provisioned [Response demo_info demo_answer] (started demo provisioned)"
    using demo_answer_verified [OF provisioned_keys(2), of 0] demo_info_ok by (simp add: demo_info_def)
  moreover have "claims_in demo [Response demo_info demo_answer] (started demo provisioned) < 26000"
    using claims_in_le [of demo "[Response demo_info demo_answer]" "started demo provisioned"] by (simp del: claims_in.simps)
  moreover have "?s = fold (run_event demo) [Response demo_info demo_answer] (started demo provisioned)" by simp
  ultimately have "slots_disjoint ?s \<and> fst (reserve_slot ?s) \<notin> slots_held ?s \<union> set (register_subevent_data ?s)"
    by (rule no_slot_assigned_twice [where p = provisioned, OF demo_reliable provisioned_keys(1,3)])
  then have d: "slots_disjoint ?s" "fst (reserve_slot ?s) \<notin> slots_held ?s" by simp_all
  have "slot_id 0 5 \<in> slots_held ?s"
    unfolding slots_held_sim [OF demo_answer_sim] by (subst held_iff) (simp_all add: demo_answer_abs adv_sizes del: abs_response.simps)
  with d show ?thesis by (auto simp: slot_id_def)
qed

section \<open>A response that comes too late\<close>

text \<open>C24: an assigned slot is not required: a verified response in a slot whose holder has been
  evicted makes its sender the holder again, but the slot stays on the free list, and when it was
  freed last it is the next one to be handed out, to another device.\<close>

theorem late_response_is_handed_out:
  assumes "pawr_reliable pf key_of mac" and "adv_sim key_of keys tag s a" and "info_ok info"
    and "judge pf mac keys (a_counter a) m = Verified d c" and "d \<noteq> 0"
    and "x = \<lparr>subevent = rsp_subevent info, rsp_slot = rsp_response_slot info\<rparr>"
    and "dev_id (rsp_slots s ! unat (rsp_subevent info) ! unat (rsp_response_slot info)) = 0"
    and "free_slots (free_list s) = fl @ [x]" and "x \<notin> set (register_subevent_data s)"
    and "s' = response_cb pf info (Some (buf_of m)) s"
  shows "view (rsp_slots s' ! unat (rsp_subevent info) ! unat (rsp_response_slot info)) = Held d 0 \<and>
    x \<in> slots_held s' \<and> fst (reserve_slot s') = x"
proof -
  let ?sub = "unat (rsp_subevent info)" and ?j = "unat (rsp_response_slot info)"
  let ?a = "abs_response ?sub ?j (Verified d c) a"
  have ix: "?sub < MAX_NUM_SUBEVENTS" "?j < NUM_RSP_SLOTS" using assms(3) by (simp_all add: info_ok_def)
  have x: "x = slot_id ?sub ?j" by (simp add: assms(6) slot_id_info)
  from pawr_reliable.response_cb_sim [OF assms(1,2) _ ix, of "buf_of m"] assms(4)
  have sim: "adv_sim key_of keys tag s' ?a" by (simp add: assms(10))
  have free: "a_slots a ! ?sub ! ?j = Free" using sim_slot [OF assms(2) ix] assms(7) by (simp add: view_Free_iff)
  have lists: "a_free a = fl @ [x]" "x \<notin> set (a_regs a)" using assms(2,8,9) by (simp_all add: adv_sim_def)
  have "filter (\<lambda>i. a_regs a ! i = x) [0..<length (a_regs a)] = []"
    using lists(2) by (auto simp: filter_empty_conv)
  then have eq: "?a = abs_set ?sub ?j (hold d) (a\<lparr>a_counter := c\<rparr>)"
    using free x by (simp add: abs_replace_def abs_set_fields)
  have shape: "slots_shape (a\<lparr>a_counter := c\<rparr>)"
    using assms(2) by (auto simp: slots_shape_def adv_sim_def adv_inv_def rows_ok_def)
  have held: "x \<in> held_slots ?a"
    unfolding eq x using held_abs_set(1) [OF shape ix, of "hold d"] assms(5) by (simp add: hold_def)
  have "a_slots ?a ! ?sub ! ?j = Held d 0"
    unfolding eq using shape ix assms(5) by (simp add: abs_set_def hold_def slots_shape_def)
  then have "view (rsp_slots s' ! ?sub ! ?j) = Held d 0"
    using sim_slot [OF sim ix] by simp
  moreover have "fst (abs_reserve ?a) = x"
    unfolding eq by (simp add: abs_reserve_def abs_set_fields lists)
  then have "fst (reserve_slot s') = x"
    using reserve_slot_sim(1) [OF sim] by (metis prod.collapse)
  ultimately show ?thesis
    using held by (simp add: slots_held_sim [OF sim])
qed

text \<open>An advertiser whose slot 20 has been silent for nine rounds, and has just been evicted.\<close>

definition demo_silent :: "key_map advertiser" where
  "demo_silent = set_slot 0 20 \<lparr>dev_id = 1, inactive_for = 9\<rparr> (started demo provisioned)"

definition demo_evicted :: "key_map advertiser" where
  "demo_evicted = request_cb demo \<lparr>req_start = 0, req_count = 1\<rparr> demo_silent"

definition demo_silent_abs :: adv_abs where
  "demo_silent_abs = abs_set 0 20 (Held 1 9) (start_abs 0)"

lemma demo_silent_sim: "adv_sim (\<lambda>p. p) provisioned tag demo_silent demo_silent_abs"
  unfolding demo_silent_def demo_silent_abs_def
  using set_slot_sim [OF provisioned_start [of tag], of "\<lparr>dev_id = 1, inactive_for = 9\<rparr>" 0 20]
  by (simp add: slot_ok_def MAX_SILENT_9 view_def adv_sizes)

lemma demo_silent_slots: "j < NUM_RSP_SLOTS \<Longrightarrow> a_slots demo_silent_abs ! 0 ! j = (if j = 20 then Held 1 9 else Free)"
  by (simp add: demo_silent_abs_def abs_set_def start_abs_def adv_sizes)

lemma demo_evicted_sim:
  "adv_sim (\<lambda>p. p) provisioned (mac32 demo_hash (demo_key 7)) demo_evicted (abs_request \<lparr>req_start = 0, req_count = 1\<rparr> demo_silent_abs)"
proof -
  from provisioned_keys(1) obtain a where "provisioned (ADVERTISER_KEY_ID demo) = Some (a, demo_key 7)" "signing_key a"
    by (auto simp: key_is_def)
  from pawr_reliable.request_cb_sim [OF demo_reliable demo_silent_sim this] show ?thesis by (simp add: demo_evicted_def)
qed

lemma demo_evicted_lists:
  "free_slots (free_list demo_evicted) = [slot_id 0 20]" "register_subevent_data demo_evicted = map (slot_id 0) [5..<10]"
  "dev_id (rsp_slots demo_evicted ! 0 ! 20) = 0" "cc_value (counter demo_evicted) = 0"
proof -
  let ?r = "\<lparr>req_start = 0, req_count = 1\<rparr>" and ?a = demo_silent_abs
  have start: "length (a_slots ?a) = MAX_NUM_SUBEVENTS" "length (a_slots ?a ! 0) = NUM_RSP_SLOTS"
    "a_free ?a = []" "a_regs ?a = map (slot_id 0) [5..<10]" "a_counter ?a = 0" "a_pending ?a = 0"
    by (simp_all add: demo_silent_abs_def abs_set_def start_abs_def adv_sizes del: upt_rec_numeral)
  have "filter (\<lambda>j. expires (a_slots ?a ! 0 ! j)) [0..<NUM_RSP_SLOTS] = filter (\<lambda>j. j = 20) [0..<NUM_RSP_SLOTS]"
    by (rule filter_cong) (simp_all add: demo_silent_slots MAX_SILENT_9)
  also have "\<dots> = [20]"
    by (simp add: NUM_RSP_SLOTS_def upt_rec)
  finally have exp: "abs_expired 0 (a_slots ?a ! 0) = [slot_id 0 20]"
    by (simp add: abs_expired_def start(2))
  have req: "abs_request ?r ?a = abs_subevent 0 (?a\<lparr>a_counter := 0, a_pending := 0\<rparr>)"
    by (simp add: abs_request_def start(5,6) sub_ix_def MAX_NUM_SUBEVENTS_def)
  have abs: "a_free (abs_request ?r ?a) = [slot_id 0 20]" "a_regs (abs_request ?r ?a) = map (slot_id 0) [5..<10]"
    "a_counter (abs_request ?r ?a) = 0" "a_slots (abs_request ?r ?a) ! 0 ! 20 = Free"
    unfolding req using start
    by (simp_all add: abs_subevent_def Let_def exp CONFIG_MAX_FREE_SLOTS_def demo_silent_slots MAX_SILENT_9 adv_sizes del: upt_rec_numeral)
  show "free_slots (free_list demo_evicted) = [slot_id 0 20]" "register_subevent_data demo_evicted = map (slot_id 0) [5..<10]"
    "cc_value (counter demo_evicted) = 0"
    using demo_evicted_sim abs(1-3) by (simp_all only: adv_sim_def)
  show "dev_id (rsp_slots demo_evicted ! 0 ! 20) = 0"
    using sim_slot [OF demo_evicted_sim, of 0 20] abs(4) view_Free_iff [of "rsp_slots demo_evicted ! 0 ! 20"] by (simp add: adv_sizes)
qed

theorem late_response_is_handed_out_witness:
  "fst (reserve_slot (response_cb demo \<lparr>rsp_subevent = 0, rsp_response_slot = 20, rsp_rssi = - 40\<rparr> (Some (buf_of demo_answer)) demo_evicted))
     = \<lparr>subevent = 0, rsp_slot = 20\<rparr>"
proof -
  let ?i = "\<lparr>rsp_subevent = 0, rsp_response_slot = 20, rsp_rssi = - 40\<rparr>"
  let ?a = "abs_request \<lparr>req_start = 0, req_count = 1\<rparr> demo_silent_abs"
  have "a_counter ?a = 0" using demo_evicted_sim demo_evicted_lists(4) by (simp add: adv_sim_def)
  then have "judge demo (mac32 demo_hash) provisioned (a_counter ?a) demo_answer = Verified 1 5"
    using demo_answer_verified [OF provisioned_keys(2), of 0] by simp
  moreover have "info_ok ?i" by (simp add: info_ok_def adv_sizes)
  moreover have "\<lparr>subevent = 0, rsp_slot = 20\<rparr> \<notin> set (register_subevent_data demo_evicted)"
    by (auto simp: demo_evicted_lists(2) slot_id_def)
  ultimately show ?thesis
    using late_response_is_handed_out [OF demo_reliable demo_evicted_sim, of ?i demo_answer 1 5 _ "[]"] demo_evicted_lists
    by (simp add: slot_id_def)
qed

section \<open>Who holds a slot\<close>

lemma judge_Verified:
  assumes "judge pf mac keys c0 m = Verified d c"
  shows "\<exists>a k payload. keys (scanner_key_id pf d) = Some (a, k) \<and> signing_key a \<and>
    m = payload @ le_bytes 8 c @ mac k (payload @ le_bytes 8 c) \<and> c0 \<le> c \<and> response_sender payload = Some d"
proof -
  from assms obtain p where l: "HASH_LEN + 8 \<le> length m" and p: "p = take (length m - (HASH_LEN + 8)) m"
    and d: "response_sender p = Some d" and v: "fst (verify_spec (key_mac mac keys (scanner_key_id pf d)) m c0) = TRANSFER_NO_ERROR"
    "snd (snd (verify_spec (key_mac mac keys (scanner_key_id pf d)) m c0)) = c"
    by (auto simp: judge_def Let_def split: if_splits option.splits prod.splits)
  have body: "length (body_of m) = length m - HASH_LEN" using l by (simp add: body_of_def)
  from v have mo: "key_mac mac keys (scanner_key_id pf d) (body_of m) = Some (tag_of m)"
    and c: "c = of_le (drop (length (body_of m) - 8) (body_of m))" and le: "c0 \<le> c"
    using l body by (auto simp: verify_spec_def Let_def split: if_splits option.splits)
  from mo obtain a k where k: "keys (scanner_key_id pf d) = Some (a, k)" "signing_key a" "mac k (body_of m) = tag_of m"
    by (auto simp: key_mac_def split: option.splits if_splits)
  have "length (drop (length (body_of m) - 8) (body_of m)) = 8" using l body by simp
  then have "le_bytes 8 c = drop (length (body_of m) - 8) (body_of m)"
    using le_bytes_of_le [of "drop (length (body_of m) - 8) (body_of m)", where 'a = 64] c by simp
  moreover have "p = take (length (body_of m) - 8) (body_of m)"
    using l by (simp add: p body_of_def)
  ultimately have "body_of m = p @ le_bytes 8 c" by simp
  with body_tag [of m] l k le d show ?thesis by (metis add_leD1 append_assoc)
qed

lemma abs_response_new_holder:
  assumes "slots_shape a" and "sub < MAX_NUM_SUBEVENTS" and "j < NUM_RSP_SLOTS"
    and "i < MAX_NUM_SUBEVENTS" and "l < NUM_RSP_SLOTS"
    and "a_slots (abs_response sub j v a) ! i ! l = Held d 0" and "a_slots a ! i ! l \<noteq> Held d 0"
  shows "i = sub \<and> l = j \<and> (\<exists>c. v = Verified d c) \<and> (a_slots a ! i ! l = Free \<or> (\<exists>n. a_slots a ! i ! l = Held d n))"
proof -
  have at: "a_slots (abs_set sub j w b) ! i ! l = (if i = sub \<and> l = j then w else a_slots b ! i ! l)"
    if "a_slots b = a_slots a" for w b
    using assms(1-5) that by (auto simp: abs_set_def slots_shape_def nth_list_update)
  show ?thesis
  proof (cases v)
    case (Verified d' c)
    then show ?thesis
      using assms(6,7) by (auto simp: at Let_def hold_def split: slot_view.splits if_splits)
  qed (use assms(6,7) in \<open>auto simp: at split: if_splits\<close>)
qed

text \<open>C19: a device holds a slot only on its own word: whenever a response makes device \<open>d\<close> the
  holder of a slot, or resets the silence of the slot it holds, the response came in this slot, it
  names \<open>d\<close> as its sender, carries the MAC under the key stored for \<open>d\<close> and a counter that is
  not behind the advertiser's, and the slot was free or held by \<open>d\<close> itself.\<close>

theorem new_holder_is_authentic:
  assumes "pawr_reliable pf key_of mac" and "adv_sim key_of keys tag s a" and "info_ok info"
    and "s' = response_cb pf info (Some (buf_of m)) s" and "sub < MAX_NUM_SUBEVENTS" and "j < NUM_RSP_SLOTS"
    and "view (rsp_slots s' ! sub ! j) = Held d 0" and "view (rsp_slots s ! sub ! j) \<noteq> Held d 0"
  shows "sub = unat (rsp_subevent info) \<and> j = unat (rsp_response_slot info) \<and>
    (view (rsp_slots s ! sub ! j) = Free \<or> (\<exists>n. view (rsp_slots s ! sub ! j) = Held d n)) \<and>
    (\<exists>ak k payload c. keys (scanner_key_id pf d) = Some (ak, k) \<and> signing_key ak \<and>
       m = payload @ le_bytes 8 c @ mac k (payload @ le_bytes 8 c) \<and> cc_value (counter s) \<le> c \<and> response_sender payload = Some d)"
proof -
  have ix: "unat (rsp_subevent info) < MAX_NUM_SUBEVENTS" "unat (rsp_response_slot info) < NUM_RSP_SLOTS"
    using assms(3) by (simp_all add: info_ok_def)
  let ?v = "judge pf mac keys (a_counter a) m"
  from pawr_reliable.response_cb_sim [OF assms(1,2) _ ix, of "buf_of m"]
  have sim: "adv_sim key_of keys tag s' (abs_response (unat (rsp_subevent info)) (unat (rsp_response_slot info)) ?v a)"
    by (simp add: assms(4))
  have shape: "slots_shape a"
    using assms(2) by (auto simp: slots_shape_def adv_sim_def adv_inv_def rows_ok_def)
  have c: "a_counter a = cc_value (counter s)" using assms(2) by (simp add: adv_sim_def)
  from abs_response_new_holder [OF shape ix assms(5,6), of ?v d] assms(7,8)
  have new: "sub = unat (rsp_subevent info) \<and> j = unat (rsp_response_slot info) \<and> (\<exists>c. ?v = Verified d c) \<and>
    (view (rsp_slots s ! sub ! j) = Free \<or> (\<exists>n. view (rsp_slots s ! sub ! j) = Held d n))"
    unfolding sim_slot [OF sim assms(5,6)] sim_slot [OF assms(2,5,6)] by blast
  then obtain c' where "?v = Verified d c'" by blast
  from judge_Verified [OF this] new show ?thesis unfolding c by blast
qed

theorem new_holder_is_authentic_witness:
  "\<exists>ak k payload c. provisioned 3 = Some (ak, k) \<and> signing_key ak \<and>
     demo_answer = payload @ le_bytes 8 (c :: u64) @ mac32 demo_hash k (payload @ le_bytes 8 c) \<and> response_sender payload = Some 1"
proof -
  have ix: "0 < MAX_NUM_SUBEVENTS" "5 < NUM_RSP_SLOTS" by (simp_all add: adv_sizes)
  let ?s = "response_cb demo demo_info (Some (buf_of demo_answer)) (started demo provisioned)"
  have free: "view (rsp_slots (started demo provisioned) ! 0 ! 5) = Free"
    using start_abs_free [OF ix, of 0] sim_slot [OF provisioned_start ix] by simp
  have "view (rsp_slots ?s ! 0 ! 5) = Held 1 0"
    using sim_slot [OF demo_answer_sim ix] demo_answer_abs by simp
  from new_holder_is_authentic [OF demo_reliable provisioned_start demo_info_ok refl ix this] free
  show ?thesis by (auto simp: demo_key_ids)
qed

section \<open>One response in many slots\<close>

text \<open>A response that has been accepted is accepted again: its counter is not behind itself.\<close>

lemma judge_again:
  assumes "judge pf mac keys c0 m = Verified d c"
  shows "judge pf mac keys c m = Verified d c"
proof -
  from assms have "verify_spec (key_mac mac keys (scanner_key_id pf d)) m c0 = (TRANSFER_NO_ERROR, p, c) \<Longrightarrow>
      verify_spec (key_mac mac keys (scanner_key_id pf d)) m c = (TRANSFER_NO_ERROR, p, c)" for p
    by (auto simp: verify_spec_def Let_def split: if_splits option.splits)
  with assms show ?thesis
    by (auto simp: judge_def Let_def split: if_splits option.splits prod.splits)
qed

definition slot_of :: "bt_le_per_adv_response_info \<Rightarrow> adv_abs \<Rightarrow> slot_view" where
  "slot_of info a = a_slots a ! unat (rsp_subevent info) ! unat (rsp_response_slot info)"

lemma claim_slot:
  assumes "slots_shape a" and "info_ok info" and "info_ok info'" and "d \<noteq> 0" and "slot_of info a \<in> {Free, Held d 0}"
  shows "slot_of info' (abs_response (unat (rsp_subevent info)) (unat (rsp_response_slot info)) (Verified d c) a) =
    (if rsp_subevent info' = rsp_subevent info \<and> rsp_response_slot info' = rsp_response_slot info then Held d 0 else slot_of info' a)"
proof -
  let ?sub = "unat (rsp_subevent info)" and ?j = "unat (rsp_response_slot info)"
  have "slot_of info' (abs_set ?sub ?j (Held d 0) (a\<lparr>a_counter := c\<rparr>)) =
    (if rsp_subevent info' = rsp_subevent info \<and> rsp_response_slot info' = rsp_response_slot info then Held d 0 else slot_of info' a)"
    using assms(1-3) by (auto simp: slot_of_def abs_set_def slots_shape_def info_ok_def nth_list_update word_unat_eq_iff)
  moreover have "slot_of info' (abs_replace x b) = slot_of info' b" for x b by (simp add: slot_of_def)
  ultimately show ?thesis
    using assms(4,5) by (auto simp: slot_of_def [of info] hold_def Let_def)
qed

lemma claims:
  assumes rel: "pawr_reliable pf key_of mac" and d: "d \<noteq> 0"
  shows "adv_sim key_of keys tag s a \<Longrightarrow> judge pf mac keys (a_counter a) m = Verified d c \<Longrightarrow>
    \<forall>info \<in> X. info_ok info \<and> slot_of info a \<in> {Free, Held d 0} \<Longrightarrow> \<forall>info \<in> Y. slot_of info a = Held d 0 \<Longrightarrow> Y \<subseteq> X \<Longrightarrow> set infos \<subseteq> X \<Longrightarrow>
    \<exists>b. adv_sim key_of keys tag (fold (\<lambda>info. response_cb pf info (Some (buf_of m))) infos s) b \<and>
      (\<forall>info \<in> Y \<union> set infos. slot_of info b = Held d 0)"
proof (induction infos arbitrary: s a Y)
  case Nil
  then show ?case by auto
next
  case (Cons i infos)
  have i: "info_ok i" "slot_of i a \<in> {Free, Held d 0}" using Cons.prems by auto
  let ?b = "abs_response (unat (rsp_subevent i)) (unat (rsp_response_slot i)) (Verified d c) a"
  have sim: "adv_sim key_of keys tag (response_cb pf i (Some (buf_of m)) s) ?b"
    using pawr_reliable.response_cb_sim [OF rel Cons.prems(1), of "buf_of m" i] Cons.prems(2) i(1) by (simp add: info_ok_def)
  have "a_counter ?b = c"
    by (auto simp: Let_def abs_set_def split: slot_view.split)
  then have j: "judge pf mac keys (a_counter ?b) m = Verified d c"
    using judge_again [OF Cons.prems(2)] by simp
  have shape: "slots_shape a"
    using Cons.prems(1) by (auto simp: slots_shape_def adv_sim_def adv_inv_def rows_ok_def)
  have slot: "slot_of x ?b = (if rsp_subevent x = rsp_subevent i \<and> rsp_response_slot x = rsp_response_slot i then Held d 0 else slot_of x a)"
    if "x \<in> X" for x
    using claim_slot [OF shape i(1) _ d i(2)] Cons.prems(3) that by blast
  have "\<forall>x \<in> X. info_ok x \<and> slot_of x ?b \<in> {Free, Held d 0}" "\<forall>x \<in> insert i Y. slot_of x ?b = Held d 0"
    using Cons.prems(3-6) slot by (auto simp del: abs_response.simps)
  from Cons.IH [OF sim j this] Cons.prems(5,6) show ?case by auto
qed

text \<open>C25: nothing ties a response to the slot it was sent in: whoever has recorded one verified
  response can send it again, within the period, in any number of free slots, and the advertiser
  makes its sender the holder of them all.\<close>

theorem recorded_response_claims_any_slots:
  assumes "pawr_reliable pf key_of mac" and "adv_sim key_of keys tag s a"
    and "judge pf mac keys (cc_value (counter s)) m = Verified d c" and "d \<noteq> 0"
    and "\<forall>info \<in> set infos. info_ok info \<and> dev_id (rsp_slots s ! unat (rsp_subevent info) ! unat (rsp_response_slot info)) = 0"
    and "s' = fold (\<lambda>info. response_cb pf info (Some (buf_of m))) infos s" and "info \<in> set infos"
  shows "view (rsp_slots s' ! unat (rsp_subevent info) ! unat (rsp_response_slot info)) = Held d 0"
proof -
  have "slot_of x a = Free" if "x \<in> set infos" for x
    using that assms(5) sim_slot [OF assms(2)] by (simp add: slot_of_def info_ok_def view_Free_iff)
  moreover have "a_counter a = cc_value (counter s)" using assms(2) by (simp add: adv_sim_def)
  ultimately obtain b where "adv_sim key_of keys tag s' b" "slot_of info b = Held d 0"
    using claims [OF assms(1,4,2), of m c "set infos" "{}" infos] assms(3,5-7) by auto
  moreover have "info_ok info" using assms(5,7) by simp
  ultimately show ?thesis
    using sim_slot [of key_of keys tag s' b] by (simp add: slot_of_def info_ok_def)
qed

theorem recorded_response_claims_any_slots_witness:
  "let s = fold (\<lambda>info. response_cb demo info (Some (buf_of demo_answer)))
       [demo_info, \<lparr>rsp_subevent = 7, rsp_response_slot = 50, rsp_rssi = 0\<rparr>] (started demo provisioned)
   in view (rsp_slots s ! 0 ! 5) = Held 1 0 \<and> view (rsp_slots s ! 7 ! 50) = Held 1 0"
proof -
  let ?i = "\<lparr>rsp_subevent = 7, rsp_response_slot = 50, rsp_rssi = 0\<rparr>"
  have "cc_value (counter (started demo provisioned)) = 0"
    using provisioned_start [of "\<lambda>m. []"] by (simp add: adv_sim_def start_abs_def)
  then have j: "judge demo (mac32 demo_hash) provisioned (cc_value (counter (started demo provisioned))) demo_answer = Verified 1 5"
    using demo_answer_verified [OF provisioned_keys(2), of 0] by simp
  have "\<forall>info \<in> set [demo_info, ?i]. info_ok info \<and>
      dev_id (rsp_slots (started demo provisioned) ! unat (rsp_subevent info) ! unat (rsp_response_slot info)) = 0"
    using sim_slot [OF provisioned_start, of 0 5] sim_slot [OF provisioned_start, of 7 50] start_abs_free [of 0 5 0] start_abs_free [of 7 50 0]
      view_Free_iff [of "rsp_slots (started demo provisioned) ! 0 ! 5"] view_Free_iff [of "rsp_slots (started demo provisioned) ! 7 ! 50"]
    by (simp add: demo_info_def info_ok_def adv_sizes)
  from recorded_response_claims_any_slots [OF demo_reliable provisioned_start j _ this refl, of demo_info]
    recorded_response_claims_any_slots [OF demo_reliable provisioned_start j _ this refl, of ?i]
  show ?thesis by (simp add: demo_info_def Let_def)
qed

section \<open>What the host is given\<close>

lemma length_concat_le_bytes: "length (concat (map (le_bytes n) xs)) = n * length xs"
  by (induction xs) simp_all

lemma subevent_msg_length:
  "length (tag (subevent_body acks c)) = HASH_LEN \<Longrightarrow> length acks = NUM_RSP_SLOTS \<Longrightarrow>
   length (sdp_data (subevent_msg tag (sub, acks, c))) = 246"
  by (simp add: subevent_msg_def subevent_body_def length_concat_le_bytes HASH_LEN_def NUM_RSP_SLOTS_def)

text \<open>C27: whatever requests and responses come after start-up, the host of the advertiser is given
  only subevent messages it can take: for a subevent that exists, with all 103 response slots, and
  of exactly 246 bytes, the acks, the counter and the MAC, which fits the 251 bytes of a PDU.\<close>

theorem subevent_messages_are_well_formed:
  assumes "pawr_reliable pf key_of mac" and "key_is (key_of p) (ADVERTISER_KEY_ID pf) ka" and "key_of p (COUNTER_ID pf) = Some x"
    and "\<forall>e \<in> set es. event_ok e" and "params \<in> set (subevents_sent (zlog (fold (run_event pf) es (started pf p))))"
  shows "unat (sdp_subevent params) < MAX_NUM_SUBEVENTS \<and> response_slot_start params = 0 \<and>
    unat (response_slot_count params) = NUM_RSP_SLOTS \<and> length (sdp_data params) = 246"
proof -
  have pf: "pawr_platform pf key_of mac" using assms(1) by (simp add: pawr_reliable_def)
  obtain c where "adv_sim key_of (key_of p) (mac ka) (started pf p) (start_abs c)"
    using pawr_platform.adv_init_sim [OF pf assms(3)] by blast
  from run_sim [OF assms(1,2) this start_abs_sent assms(4)] obtain b where
    "adv_sim key_of (key_of p) (mac ka) (fold (run_event pf) es (started pf p)) b" "sent_ok b"
    by blast
  with assms(5) obtain sub acks c where m: "params = subevent_msg (mac ka) (sub, acks, c)" "sub < MAX_NUM_SUBEVENTS" "length acks = NUM_RSP_SLOTS"
    by (auto simp: adv_sim_def sent_ok_def)
  with subevent_msg_length [of "mac ka" acks c sub] reliable_mac_length [OF assms(1)] show ?thesis
    by (simp add: subevent_msg_def unat_of_nat adv_sizes)
qed

theorem subevent_messages_are_well_formed_witness:
  "\<exists>params. subevents_sent (zlog (request_cb demo \<lparr>req_start = 45, req_count = 1\<rparr> (started demo provisioned))) = [params] \<and>
     length (sdp_data params) = 246"
proof -
  let ?s = "request_cb demo \<lparr>req_start = 45, req_count = 1\<rparr> (started demo provisioned)"
  from provisioned_keys(1) obtain a where "provisioned (ADVERTISER_KEY_ID demo) = Some (a, demo_key 7)" "signing_key a"
    by (auto simp: key_is_def)
  from pawr_reliable.request_cb_sim [OF demo_reliable provisioned_start this]
  have "length (subevents_sent (zlog ?s)) = length (a_sent (abs_request \<lparr>req_start = 45, req_count = 1\<rparr> (start_abs 0)))"
    by (simp add: adv_sim_def)
  also have "\<dots> = 1"
    by (simp add: abs_request_def abs_subevent_def Let_def start_abs_def MAX_NUM_SUBEVENTS_def)
  finally obtain params where m: "subevents_sent (zlog ?s) = [params]"
    by (cases "subevents_sent (zlog ?s)") auto
  from subevent_messages_are_well_formed [where p = provisioned, OF demo_reliable provisioned_keys(1,3), of "[Data_request \<lparr>req_start = 45, req_count = 1\<rparr>]" params] m
  show ?thesis by simp
qed

section \<open>Batches\<close>

text \<open>C22: how the host splits the subevents of a period into requests makes no difference: two
  requests for \<open>n\<close> and the next \<open>m\<close> subevents leave the slots, the free list, the register slots
  and the next fresh slot as one request for all of them does, and the same messages go out; only
  the share of the counter that is still pending may differ.\<close>

theorem batching_does_not_matter:
  assumes "pawr_reliable pf key_of mac" and "adv_sim key_of keys (mac k) s a" and "key_is keys (ADVERTISER_KEY_ID pf) k"
    and "unat start + n < 256" and "n + m \<le> MAX_NUM_SUBEVENTS"
    and "whole = request_cb pf \<lparr>req_start = start, req_count = of_nat (n + m)\<rparr> s"
    and "parts = request_cb pf \<lparr>req_start = start + of_nat n, req_count = of_nat m\<rparr>
                   (request_cb pf \<lparr>req_start = start, req_count = of_nat n\<rparr> s)"
  shows "map (map view) (rsp_slots whole) = map (map view) (rsp_slots parts) \<and>
    free_slots (free_list whole) = free_slots (free_list parts) \<and>
    register_subevent_data whole = register_subevent_data parts \<and> last_used whole = last_used parts \<and>
    subevents_sent (zlog whole) = subevents_sent (zlog parts) \<and>
    cc_value (counter whole) + rollover whole = cc_value (counter parts) + rollover parts"
proof -
  from assms(3) obtain x where key: "keys (ADVERTISER_KEY_ID pf) = Some (x, k)" "signing_key x"
    by (auto simp: key_is_def)
  have sim: "adv_sim key_of keys (mac k) (request_cb pf r t) (abs_request r b)" if "adv_sim key_of keys (mac k) t b" for r t b
    by (rule pawr_reliable.request_cb_sim [OF assms(1) that key])
  from sim [OF assms(2)] sim [OF sim [OF assms(2)]] split_request [OF assms(4,5), of a] show ?thesis
    unfolding assms(6,7) adv_sim_def same_air_def by metis
qed

theorem batching_does_not_matter_witness:
  "subevents_sent (zlog (request_cb demo \<lparr>req_start = 40, req_count = 10\<rparr> demo_advertiser)) =
   subevents_sent (zlog (request_cb demo \<lparr>req_start = 46, req_count = 4\<rparr> (request_cb demo \<lparr>req_start = 40, req_count = 6\<rparr> demo_advertiser)))"
proof -
  have n: "unat (40 :: u8) + 6 < 256" "6 + 4 \<le> MAX_NUM_SUBEVENTS" by (simp_all add: MAX_NUM_SUBEVENTS_def)
  have w: "of_nat (6 + 4) = (10 :: u8)" "of_nat 6 = (6 :: u8)" "of_nat 4 = (4 :: u8)" "40 + 6 = (46 :: u8)" by simp_all
  from batching_does_not_matter [OF demo_reliable demo_advertiser_sim demo_keys_shared(1) n refl refl]
  show ?thesis unfolding w by blast
qed

end
