(* ===== verification/Scanner_Run.thy ===== *)
theory Scanner_Run
  imports Scanner_Recv Scanner_Store
begin

text \<open>
  Runs of the scanner: how the message counter and the responses develop over the steps of the
  system, and how long the main thread can be kept waiting by messages.
\<close>

section \<open>The transitions of the main thread\<close>

definition sc_edges :: "(sc_fsm_state \<times> sc_fsm_state) set" where
  "sc_edges = {(SC_INITIALIZE, SYNCING), (SC_INITIALIZE, SC_FAULT_HANDLING),
     (SYNCING, CONFIRMING), (SYNCING, SC_FAULT_HANDLING),
     (CONFIRMING, SLEEPING), (CONFIRMING, SYNCING), (CONFIRMING, SC_FAULT_HANDLING),
     (SLEEPING, ENABLED), (SLEEPING, SYNCING), (SLEEPING, SC_FAULT_HANDLING),
     (ENABLED, SLEEPING), (ENABLED, ENABLED), (ENABLED, SYNCING), (ENABLED, SC_FAULT_HANDLING)}"

lemma sc_state_simps [simp]:
  "sc_state (sc_return st s) = st" "sc_state (sc_wait at s) = sc_state s" "sc_state (zephyr_do c s) = sc_state s"
  "sc_at (sc_return st s) = At_run" "sc_at (sc_wait at s) = at"
  by (simp_all add: sc_return_def sc_wait_def zephyr_do_def)

lemma init_resume_edge: "sc_state (init_resume pf s) \<in> {SYNCING, SC_FAULT_HANDLING}"
  by (simp add: init_resume_def Let_def split_beta)

lemma syncing_enter_edge: "sc_state (syncing_enter pf s) \<in> {sc_state s, SC_FAULT_HANDLING}"
  by (simp add: syncing_enter_def Let_def split_beta)

lemma sc_run_state_edge: "sc_state (sc_run_state pf s) \<in> {sc_state s} \<union> (if sc_state s = SYNCING then {SC_FAULT_HANDLING} else {})"
  using syncing_enter_edge [of pf s]
  by (cases "sc_state s") (auto simp: sc_run_state_def init_enter_def handle_fault_enter_def registering_enter_def
      confirming_enter_def sleeping_enter_def enabled_enter_def Let_def)

lemma resume_edges:
  "syncing_resume pf s = Some s' \<Longrightarrow> sc_state s' = CONFIRMING"
  "confirming_resume pf s = Some s' \<Longrightarrow> sc_state s' \<in> {SYNCING, SLEEPING, SC_FAULT_HANDLING}"
  "sleeping_resume pf s = Some s' \<Longrightarrow> sc_state s' \<in> {sc_state s, SYNCING, ENABLED, SC_FAULT_HANDLING}"
  "enabled_resume pf s = Some s' \<Longrightarrow> sc_state s' \<in> {SLEEPING, SYNCING, ENABLED, SC_FAULT_HANDLING}"
  by (auto simp: syncing_resume_def confirming_resume_def sleeping_resume_def enabled_resume_def Let_def split: option.splits if_splits)

lemma sc_main_edges:
  assumes "sc_inv i s" and "sc_main pf s = Some s'"
  shows "sc_state s' = sc_state s \<or> (sc_state s, sc_state s') \<in> sc_edges"
proof (cases "sc_at s")
  case At_run
  then show ?thesis
    using assms(2) sc_run_state_edge [of pf s] by (auto simp: sc_main_def sc_edges_def split: if_splits)
next
  case Init_slept
  then show ?thesis
    using assms init_resume_edge [of pf s] by (auto simp: sc_main_def sc_inv_def sc_edges_def)
next
  case Syncing_wait
  then show ?thesis
    using assms resume_edges(1) [of pf s s'] by (auto simp: sc_main_def sc_inv_def sc_edges_def)
next
  case Confirming_wait
  then show ?thesis
    using assms resume_edges(2) [of pf s s'] by (auto simp: sc_main_def sc_inv_def sc_edges_def)
next
  case Sleeping_wait
  then show ?thesis
    using assms resume_edges(3) [of pf s s'] by (auto simp: sc_main_def sc_inv_def sc_edges_def)
next
  case Enabled_wait
  then show ?thesis
    using assms resume_edges(4) [of pf s s'] by (auto simp: sc_main_def sc_inv_def sc_edges_def)
qed (use assms in \<open>auto simp: sc_main_def sc_inv_def confirming_start_def\<close>)

lemma sc_main_not_init:
  "sc_inv i s \<Longrightarrow> sc_main pf s = Some s' \<Longrightarrow> sc_state s \<noteq> SC_INITIALIZE \<Longrightarrow> sc_state s' \<noteq> SC_INITIALIZE"
  using sc_main_edges [of i s pf s'] by (auto simp: sc_edges_def)

section \<open>The receive callbacks, once more\<close>

text \<open>What the invariant leaves of the dispatch.\<close>

lemma recv_dispatch_cases:
  assumes "sc_inv i s"
  obtains "recv s = No_recv" "recv_dispatch pf sync info buf s = s"
  | "recv s = Confirm_recv" "recv_dispatch pf sync info buf s = confirm_recv_cb pf sync info buf s"
  | "recv s = Ack_recv" "recv_dispatch pf sync info buf s = ack_recv_cb pf sync info buf s"
  using assms by (cases "recv s") (auto simp: recv_dispatch_def sc_inv_def)

text \<open>A message changes the counter in one of three ways: not at all, to the counter it carries, or
  to the one after, and then a response goes out.\<close>

inductive counted :: "'p scanner \<Rightarrow> u64 \<Rightarrow> 'p scanner \<Rightarrow> bool" for s :: "'p scanner" and c :: u64 where
  count_unchanged: "sc_counter s' = sc_counter s \<Longrightarrow> responses_sent (zlog s') = responses_sent (zlog s) \<Longrightarrow> counted s c s'"
| count_accepted: "cc_value (sc_counter s') = c \<Longrightarrow> responses_sent (zlog s') = responses_sent (zlog s) \<Longrightarrow> counted s c s'"
| count_answered: "cc_value (sc_counter s') = c + 1 \<Longrightarrow>
    responses_sent (zlog s') = responses_sent (zlog s) @ [(params, m)] \<Longrightarrow> length m \<le> 62 \<Longrightarrow>
    response_slot params = rsp_slot (selected_slot s) \<Longrightarrow> counted s c s'"

inductive_cases countedE: "counted s c s'"

context pawr_platform
begin

lemma set_rsp_counted:
  assumes inv: "sc_inv i t" and len: "length (response_wire resp) \<le> 22" and c: "cc_value (sc_counter t) = c"
    and t: "responses_sent (zlog t) = responses_sent (zlog s)" "selected_slot t = selected_slot s"
  shows "counted s c (snd (set_rsp_data pf sync info resp t))"
proof -
  have "length (nb_buf (message_rsp_buf t)) = MESSAGE_RSP_BUF_SIZE"
    using inv by (simp add: sc_inv_def)
  from set_rsp_data_sends [OF this, of resp sync info] len obtain g b p where
    "snd (set_rsp_data pf sync info resp t) = t\<lparr>message_rsp_buf := b, psa_store := p,
       zlog := zlog t @ [Bt_le_per_adv_set_response_data sync (response_params info t) (response_body resp @ g)],
       sc_counter := (sc_counter t)\<lparr>cc_value := cc_value (sc_counter t) + 1\<rparr>\<rparr>" "length g = HASH_LEN"
    by (auto simp: prod_eq_iff)
  with len c t show ?thesis
    by (intro count_answered [where params = "response_params info t" and m = "response_body resp @ g"])
       (simp_all add: response_body_def response_params_def HASH_LEN_def)
qed

lemma counted_update:
  "counted s c (t\<lparr>unconfirmed_ticks := u\<rparr>) = counted s c t" "counted s c (give_synced_evt pf e t) = counted s c t"
  by (auto simp: counted.simps)

lemma sc_verify_counted:
  assumes "sc_verify pf b s = (e, b', t)" and "nb_wf b"
  shows "\<exists>p c. t = sc_with c p s \<and> cc_value (sc_counter s) \<le> c"
proof -
  obtain e1 b1 c1 p1 where v: "verify_message pf b (ADVERTISER_KEY_ID pf) (cc_value (sc_counter s)) (psa_store s) = (e1, b1, c1, p1)"
    by (metis prod.exhaust)
  from verify_counter [OF assms(2) v] v assms(1) show ?thesis
    by (auto simp: sc_verify_def sc_with_def)
qed

lemma recv_dispatch_counted:
  assumes inv: "sc_inv i s" and wf: "\<forall>b. buf = Some b \<longrightarrow> nb_wf b"
  shows "\<exists>c. cc_value (sc_counter s) \<le> c \<and> counted s c (recv_dispatch pf sync info buf s)"
proof (cases "buf = None \<or> recv s = No_recv \<or> nb_len (the buf) = 0")
  case True
  then have "recv_dispatch pf sync info buf s = s"
    using inv by (auto elim!: recv_dispatch_cases [of i s pf sync info buf] simp: confirm_recv_cb_def ack_recv_cb_def split: option.splits)
  then show ?thesis by (auto intro: count_unchanged)
next
  case False
  then obtain b where b: "buf = Some b" "nb_len b \<noteq> 0" "recv s \<noteq> No_recv" by auto
  obtain e b' t where v: "sc_verify pf b s = (e, b', t)" by (metis prod.exhaust)
  from sc_verify_counted [OF v] wf b obtain p c where t: "t = sc_with c p s" "cc_value (sc_counter s) \<le> c"
    by auto
  have base: "counted s c (sc_with c p s)" "counted s c ((sc_with c p s)\<lparr>recv := No_recv\<rparr>)"
    by (rule count_accepted; simp)+
  from inv show ?thesis
  proof (cases rule: recv_dispatch_cases [of i s pf sync info buf])
    case 1
    with b show ?thesis by simp
  next
    case 2
    let ?resp = "\<lparr>rsp_metadata = rsp_data_i s, rsp_data = [], data_len = 0, resp_counter = c\<rparr>"
    have send: "counted s c (snd (set_rsp_data pf sync info ?resp (sc_with c p s)))"
      by (rule set_rsp_counted [of i]) (use inv in \<open>simp_all add: response_wire_def\<close>)
    with 2 b v base show ?thesis
      by (intro exI [of _ c]) (simp add: t confirm_recv_cb_def Let_def split_beta counted_update)
  next
    case 3
    let ?t = "(sc_with c p s)\<lparr>unconfirmed_ticks := unconfirmed_ticks s + 1, response := (response s)\<lparr>resp_counter := c\<rparr>\<rparr>"
    have inv': "sc_inv i ?t" using inv by (simp add: sc_inv_def sc_with_def)
    have send: "counted s c (snd (set_rsp_data pf sync info (current_response ?t) ?t))"
      by (rule set_rsp_counted [OF inv' current_response_wire(1) [OF inv']]) simp_all
    with 3 b v base show ?thesis
      by (intro exI [of _ c]) (simp add: t ack_recv_cb_def Let_def split_beta counted_update)
  qed
qed

end

section \<open>Scanning\<close>

definition counter_up :: "'p scanner \<Rightarrow> 'p scanner \<Rightarrow> bool" where
  "counter_up s s' \<longleftrightarrow> cc_value (sc_counter s) \<le> cc_value (sc_counter s') \<and> responses_sent (zlog s') = responses_sent (zlog s) \<and>
     sc_state s' = sc_state s"

lemma counter_up_refl: "counter_up s s"
  by (simp add: counter_up_def)

lemma counter_up_trans: "counter_up s t \<Longrightarrow> counter_up t u \<Longrightarrow> counter_up s u"
  by (auto simp: counter_up_def)

context pawr_platform
begin

lemma parse_adv_data_up:
  assumes "parse_adv_data pf d s = Some (g, e, s')"
  shows "counter_up s s'"
proof (cases "bt_data_type d = BT_DATA_MANUFACTURER_DATA")
  case False
  then show ?thesis using assms by (simp add: parse_adv_data_def counter_up_refl)
next
  case True
  let ?bytes = "bt_data_data d"
  let ?b0 = "\<lparr>nb_buf = replicate (length ?bytes) 0, nb_off = 0, nb_len = 0\<rparr> :: net_buf_simple"
  have wf0: "nb_wf ?b0" "nb_tailroom ?b0 = length ?bytes"
    by (simp_all add: nb_wf_def nb_tailroom_def)
  have wf: "nb_wf (net_buf_simple_add_mem pf ?b0 ?bytes)"
    using nb_add_mem [OF wf0(1), of ?bytes] nb_wf_append [OF wf0(1), of ?bytes] wf0(2) by simp
  obtain e1 b' t where v: "sc_verify pf (net_buf_simple_add_mem pf ?b0 ?bytes) s = (e1, b', t)" by (metis prod.exhaust)
  from sc_verify_counted [OF v wf] obtain c p where t: "t = sc_with c p s" "cc_value (sc_counter s) \<le> c" by auto
  have sts: "sc_state (sc_with c p s) = sc_state s" by (simp add: sc_with_def)
  obtain e2 adv b2 where des: "advertisement_data_deserialize pf \<lparr>reg_data = [], selection_info = \<lparr>num_reg_slots = 0\<rparr>, adv_counter = 0\<rparr> b' = (e2, adv, b2)"
    by (metis prod.exhaust)
  show ?thesis
    using assms True v des t(2) sts by (auto simp: parse_adv_data_def t(1) Let_def counter_up_def zephyr_do_def split: if_splits)
qed

lemma parse_elems_up: "parse_elems pf ds s = Some (e, s') \<Longrightarrow> counter_up s s'"
proof (induction ds arbitrary: s)
  case Nil
  then show ?case by (simp add: counter_up_refl)
next
  case (Cons d ds)
  then obtain g err s1 where p: "parse_adv_data pf d s = Some (g, err, s1)"
    by (auto split: option.splits)
  from parse_adv_data_up [OF p] Cons p show ?case by (auto split: if_splits intro: counter_up_trans)
qed

lemma scan_recv_cb_up:
  assumes "scan_recv_cb pf info bytes s = Some s'"
  shows "counter_up s s'"
proof (cases "\<exists>j a. info = Some j \<and> scan_addr j = Some a \<and> scan_ext_adv j \<and> scan_interval j \<noteq> 0")
  case False
  with assms show ?thesis by (auto simp: scan_recv_cb_def counter_up_refl split: option.splits if_splits)
next
  case True
  then obtain j a where j: "info = Some j" "scan_addr j = Some a" "scan_ext_adv j" "scan_interval j \<noteq> 0" by blast
  with assms obtain e s1 where p: "parse_elems pf (bt_data_parse_elems pf bytes) s = Some (e, s1)"
    by (auto simp: scan_recv_cb_def split: option.splits)
  from parse_elems_up [OF p] assms j p show ?thesis
    by (auto simp: scan_recv_cb_def counter_up_def zephyr_call_def Let_def split: if_splits)
qed

end

section \<open>The counter over the steps\<close>

lemma recv_cbs_state:
  "sc_state (recv_dispatch pf sync info buf s) = sc_state s" "sc_at (recv_dispatch pf sync info buf s) = sc_at s"
  by (auto simp: recv_dispatch_def register_recv_cb_def confirm_recv_cb_def ack_recv_cb_def sc_verify_def set_rsp_data_def
      give_synced_evt_def zephyr_call_def Let_def split: recv_cb.split option.split prod.split)

context pawr_platform
begin

text \<open>Until it reboots, the scanner's counter never goes down, unless it wraps around to 0.\<close>

lemma step_counter:
  assumes inv: "sc_inv i s" and step: "sc_step pf s s'" and init: "sc_state s \<noteq> SC_INITIALIZE" and c: "cc_value (sc_counter s') \<noteq> 0"
  shows "cc_value (sc_counter s) \<le> cc_value (sc_counter s') \<and> sc_state s' \<noteq> SC_INITIALIZE"
  using step
proof cases
  case step_main
  have "sc_at s \<noteq> Init_slept" using inv init by (auto simp: sc_inv_def)
  from sc_main_frame [OF step_main this] sc_main_not_init [OF inv step_main init] show ?thesis by (simp add: sc_frame_def)
next
  case (step_synced sync)
  with sc_frame_callbacks(1) [of s pf sync] init show ?thesis
    by (simp add: sc_frame_def sync_cb_def zephyr_call_def)
next
  case (step_term reason)
  with sc_frame_callbacks(2) [of s pf reason] init show ?thesis
    by (simp add: sc_frame_def term_cb_def Let_def)
next
  case (step_recv buf sync info)
  from recv_dispatch_counted [OF inv step_recv(2)] obtain d where
    d: "cc_value (sc_counter s) \<le> d" "counted s d s'" by (auto simp: step_recv(1))
  have "d \<le> d + 1" if "d + 1 \<noteq> 0" using that unatSuc [of d] by (simp add: word_le_nat_alt add.commute)
  with d c show ?thesis
    using init by (auto elim!: countedE simp: step_recv(1) recv_cbs_state)
next
  case (step_scan info bytes)
  from scan_recv_cb_up [OF step_scan] init show ?thesis by (simp add: counter_up_def)
next
  case step_timer
  with sc_frame_callbacks(3) [of s pf] init show ?thesis
    by (simp add: sc_frame_def generate_data_def generator_config_def data_generated_cb_def give_synced_evt_def zephyr_do_def Let_def)
next
  case step_reboot
  with c show ?thesis by (simp add: sc_boot_def)
qed

end

section \<open>Later states\<close>

text \<open>\<open>sc_later pf s t\<close>: from \<open>s\<close> the system has come to \<open>t\<close> by any steps in which the
  counter is never 0, so without a reboot and without wrapping around.\<close>

inductive sc_later :: "'p platform \<Rightarrow> 'p scanner \<Rightarrow> 'p scanner \<Rightarrow> bool" for pf :: "'p platform" and s :: "'p scanner" where
  later_refl: "sc_later pf s s"
| later_step: "sc_later pf s t \<Longrightarrow> sc_step pf t u \<Longrightarrow> cc_value (sc_counter u) \<noteq> 0 \<Longrightarrow> sc_later pf s u"

text \<open>A message can be accepted only with the counter it carries.\<close>

lemma verify_spec_counter:
  "verify_spec f m c = (TRANSFER_NO_ERROR, r, d) \<Longrightarrow> d < c' \<Longrightarrow> fst (verify_spec g m c') \<noteq> TRANSFER_NO_ERROR"
  by (auto simp: verify_spec_def Let_def split: if_splits option.splits)

lemma reading_replayed:
  assumes "sc_reading pf s m = Nack c" and "c < cc_value (sc_counter s')"
  shows "sc_reading pf s' m = Unauthentic"
proof -
  obtain r where "verify_spec (mac_of pf (ADVERTISER_KEY_ID pf) (psa_store s)) m (cc_value (sc_counter s)) = (TRANSFER_NO_ERROR, r, c)"
    using assms(1) by (auto simp: sc_reading_def read_message_def split: prod.splits if_splits)
  from verify_spec_counter [OF this assms(2)]
  have "fst (verify_spec (mac_of pf (ADVERTISER_KEY_ID pf) (psa_store s')) m (cc_value (sc_counter s'))) \<noteq> TRANSFER_NO_ERROR" .
  then show ?thesis
    by (simp add: sc_reading_def read_message_def split_beta)
qed

lemma unauthentic_iff:
  "sc_reading pf s m = Unauthentic \<longleftrightarrow>
     fst (verify_spec (mac_of pf (ADVERTISER_KEY_ID pf) (psa_store s)) m (cc_value (sc_counter s))) \<noteq> TRANSFER_NO_ERROR"
  by (simp add: sc_reading_def read_message_def split_beta)

context pawr_platform
begin

lemma later_counter:
  assumes "sc_later pf s t" and "sc_inv i s" and "sc_state s \<noteq> SC_INITIALIZE"
  shows "sc_inv i t \<and> sc_state t \<noteq> SC_INITIALIZE \<and> cc_value (sc_counter s) \<le> cc_value (sc_counter t)"
  using assms(1)
proof induction
  case later_refl
  then show ?case using assms(2,3) by simp
next
  case (later_step t u)
  with step_counter [of i t u] sc_step_inv [of t u i] show ?case by auto
qed

text \<open>What the scanner does not accept it does not answer, and reports.\<close>

lemma dispatch_rejected:
  assumes inv: "sc_inv i s" and wf: "nb_wf b" and ne: "nb_len b \<noteq> 0" and un: "sc_reading pf s (nb_data b) = Unauthentic"
  shows "zlog (recv_dispatch pf sync info (Some b) s) = zlog s \<and> sc_counter (recv_dispatch pf sync info (Some b) s) = sc_counter s \<and>
    (recv s \<noteq> No_recv \<longrightarrow> fault_reason (recv_dispatch pf sync info (Some b) s) = EVT_INVALID_HASH)"
proof -
  obtain e b' t where v: "sc_verify pf b s = (e, b', t)" by (metis prod.exhaust)
  with sc_verify_read [OF wf, of s] un have e: "e \<noteq> TRANSFER_NO_ERROR" by (auto simp: unauthentic_iff)
  from sc_verify_read [OF wf, of s] v e obtain c p where t: "t = sc_with c p s" and c: "c = cc_value (sc_counter s)"
    by (auto simp: verify_spec_def Let_def split: if_splits option.splits)
  have "sc_counter (sc_with c p s) = sc_counter s" by (simp add: sc_with_def c)
  with inv v e ne show ?thesis
    by (cases rule: recv_dispatch_cases [of i s pf sync info "Some b"]) (simp_all add: t confirm_recv_cb_def ack_recv_cb_def)
qed

lemma dispatch_answered:
  assumes inv: "sc_inv i s" and wf: "nb_wf b" and slot: "slot_in_range s" and s': "s' = recv_dispatch pf sync info (Some b) s"
    and sent: "zlog s' \<noteq> zlog s"
  obtains c where "nb_len b \<noteq> 0" "sc_reading pf s (nb_data b) = Nack c" "cc_value (sc_counter s') = c + 1"
  using inv
proof (cases rule: recv_dispatch_cases [of i s pf sync info "Some b"])
  case 1
  then show ?thesis using s' sent by simp
next
  case 2
  with s' have s2: "s' = confirm_recv_cb pf sync info (Some b) s" by simp
  have "s' = s" if "nb_len b = 0" using that by (simp add: s2 confirm_recv_cb_def)
  with sent have ne: "nb_len b \<noteq> 0" by blast
  from confirm_recv_reading [OF pawr_platform_axioms inv wf ne slot s2] sent that ne show ?thesis
    by (auto split: reading.splits)
next
  case 3
  with s' have s2: "s' = ack_recv_cb pf sync info (Some b) s" by simp
  have "s' = s" if "nb_len b = 0" using that by (simp add: s2 ack_recv_cb_def)
  with sent have ne: "nb_len b \<noteq> 0" by blast
  from ack_recv_reading [OF pawr_platform_axioms inv wf ne slot s2] sent that ne show ?thesis
    by (auto split: reading.splits if_splits)
qed

end

section \<open>The responses of all reachable states\<close>

lemma init_led_responses: "responses_sent (zlog (snd (init_led pf led s))) = responses_sent (zlog s)"
  by (auto simp: init_led_def zephyr_call_def Let_def)

lemma init_resume_responses: "responses_sent (zlog (init_resume pf s)) = responses_sent (zlog s)"
  by (simp add: init_resume_def zephyr_call_def zephyr_do_def sc_return_def Let_def split_beta init_led_responses)

context pawr_platform
begin

lemma reach_responses:
  assumes "sc_reach pf i p0 s"
  shows "sc_inv i s \<and> (\<forall>(params, m) \<in> set (responses_sent (zlog s)). length m \<le> 62)"
  using assms
proof (induction rule: sc_reach.induct)
  case sc_reach_boot
  show ?case by (simp add: sc_inv_boot) (simp add: sc_boot_def)
next
  case (sc_reach_step s s')
  then have inv: "sc_inv i s" and inv': "sc_inv i s'" using sc_step_inv by blast+
  from sc_reach_step(2) have "responses_sent (zlog s') = responses_sent (zlog s) \<or> responses_sent (zlog s') = [] \<or>
    (\<exists>params m. responses_sent (zlog s') = responses_sent (zlog s) @ [(params, m)] \<and> length m \<le> 62)"
  proof cases
    case step_main
    then show ?thesis
      using sc_main_frame [OF step_main] init_resume_responses [of pf s]
      by (cases "sc_at s = Init_slept") (auto simp: sc_frame_def sc_main_def)
  next
    case (step_recv buf sync info)
    from recv_dispatch_counted [OF inv step_recv(2)] show ?thesis
      by (auto simp: step_recv(1) elim!: countedE)
  next
    case (step_scan info bytes)
    from scan_recv_cb_up [OF step_scan] show ?thesis by (simp add: counter_up_def)
  qed (use sc_frame_callbacks [of s pf] in \<open>auto simp: sc_frame_def\<close>, simp add: sc_boot_def)
  with sc_reach_step.IH inv' show ?case by auto
qed

end

section \<open>Waiting for messages\<close>

text \<open>The main thread waits for the confirmation, or for the ack of its data. Messages can keep it
  there only while they are counted: after \<open>k\<close> of them it has been told something that ends the
  wait, or \<open>k < 4\<close> ticks have been counted.\<close>

definition told :: "evt_t set \<Rightarrow> 'p scanner \<Rightarrow> bool" where
  "told E s \<longleftrightarrow> sem_count (synced_evt_sem s) = 1 \<and> fault_reason s \<in> E"

definition progress :: "evt_t set \<Rightarrow> nat \<Rightarrow> 'p scanner \<Rightarrow> bool" where
  "progress E k s \<longleftrightarrow> sem_limit (synced_evt_sem s) = 1 \<and> (told E s \<or> k < 4 \<and> unconfirmed_ticks s = of_nat k)"

definition confirm_events :: "evt_t set" where
  "confirm_events = {EVT_INVALID_HASH, EVT_CONFIRMATION_FAILED, EVT_NO_FAULT}"

definition ack_events :: "evt_t set" where
  "ack_events = {EVT_GOT_ACK, EVT_DIDNT_RECEIVE_ACK, EVT_INVALID_HASH}"

lemma set_rsp_data_keeps:
  "synced_evt_sem (snd (set_rsp_data pf sync info resp t)) = synced_evt_sem t"
  "fault_reason (snd (set_rsp_data pf sync info resp t)) = fault_reason t"
  "unconfirmed_ticks (snd (set_rsp_data pf sync info resp t)) = unconfirmed_ticks t"
  "recv (snd (set_rsp_data pf sync info resp t)) = recv t"
  by (simp_all add: set_rsp_data_def zephyr_call_def Let_def split_beta)

lemma sc_verify_keeps:
  "synced_evt_sem (snd (snd (sc_verify pf b t))) = synced_evt_sem t" "fault_reason (snd (snd (sc_verify pf b t))) = fault_reason t"
  "unconfirmed_ticks (snd (snd (sc_verify pf b t))) = unconfirmed_ticks t" "recv (snd (snd (sc_verify pf b t))) = recv t"
  by (simp_all add: sc_verify_def split_beta)

lemmas recv_keeps = set_rsp_data_keeps sc_verify_keeps

lemma ticks_step:
  assumes "k < 4" and "u = (of_nat k :: u8)"
  shows "4 \<le> u + 1 \<or> Suc k < 4 \<and> u + 1 = of_nat (Suc k)"
proof -
  from assms(1) have "k = 0 \<or> k = 1 \<or> k = 2 \<or> k = 3" by linarith
  with assms(2) show ?thesis by (auto simp: word_le_nat_alt)
qed

text \<open>One message, as far as the wait is concerned.\<close>

inductive message_effect :: "evt_t set \<Rightarrow> 'p scanner \<Rightarrow> 'p scanner \<Rightarrow> bool" for E :: "evt_t set" and s :: "'p scanner" where
  effect_told: "sem_limit (synced_evt_sem s') = sem_limit (synced_evt_sem s) \<Longrightarrow> told E s' \<Longrightarrow> message_effect E s s'"
| effect_counted: "synced_evt_sem s' = synced_evt_sem s \<Longrightarrow> fault_reason s' = fault_reason s \<Longrightarrow>
    unconfirmed_ticks s' = unconfirmed_ticks s + 1 \<Longrightarrow> \<not> 4 \<le> unconfirmed_ticks s + 1 \<Longrightarrow> message_effect E s s'"

lemma effect_progress:
  assumes "message_effect E s s'" and "progress E k s"
  shows "progress E (Suc k) s'"
  using assms(1)
proof cases
  case effect_told
  then show ?thesis using assms(2) by (simp add: progress_def)
next
  case effect_counted
  then show ?thesis using assms(2) ticks_step [of k "unconfirmed_ticks s"] by (auto simp: progress_def told_def)
qed

context pawr_platform
begin

lemma give_told:
  assumes "synced_evt_sem t = synced_evt_sem s" and "sem_ok (synced_evt_sem s)" and "e \<in> E"
  shows "message_effect E s (give_synced_evt pf e t)"
  using assms by (intro effect_told) (simp_all add: told_def give_synced_evt_def sem_give sem_ok_def)

lemma confirm_effect:
  assumes ok: "sem_ok (synced_evt_sem s)" and ne: "nb_len b \<noteq> 0"
  shows "message_effect confirm_events s (confirm_recv_cb pf sync info (Some b) s) \<and>
    recv (confirm_recv_cb pf sync info (Some b) s) = recv s"
proof -
  obtain e b' t where v: "sc_verify pf b s = (e, b', t)" by (metis prod.exhaust)
  have t: "synced_evt_sem t = synced_evt_sem s" "fault_reason t = fault_reason s" "unconfirmed_ticks t = unconfirmed_ticks s" "recv t = recv s"
    using sc_verify_keeps [of pf b s] by (simp_all add: v)
  have told: "message_effect confirm_events s (give_synced_evt pf x (u\<lparr>unconfirmed_ticks := n\<rparr>))"
      "message_effect confirm_events s (give_synced_evt pf x u)"
    if "x \<in> confirm_events" "synced_evt_sem u = synced_evt_sem s" for x u n
    using that give_told ok by simp_all
  define r where "r = snd (set_rsp_data pf sync info
    \<lparr>rsp_metadata = rsp_data_i t, rsp_data = [], data_len = 0, resp_counter = cc_value (sc_counter t)\<rparr> t)"
  have r: "synced_evt_sem r = synced_evt_sem s" "fault_reason r = fault_reason s" "unconfirmed_ticks r = unconfirmed_ticks s" "recv r = recv s"
    by (simp_all add: r_def recv_keeps t)
  have counted: "message_effect confirm_events s (r\<lparr>unconfirmed_ticks := unconfirmed_ticks s + 1\<rparr>)" if "\<not> 4 \<le> unconfirmed_ticks s + 1"
    using that by (intro effect_counted) (simp_all add: r)
  show ?thesis
    using ne v t r told counted
    by (simp add: confirm_recv_cb_def Let_def split_beta CONFIG_MAX_UNCONFIRMED_TICKS_def confirm_events_def flip: r_def)
qed

lemma ack_effect:
  assumes ok: "sem_ok (synced_evt_sem s)" and ne: "nb_len b \<noteq> 0"
  shows "message_effect ack_events s (ack_recv_cb pf sync info (Some b) s) \<and>
    (recv (ack_recv_cb pf sync info (Some b) s) = recv s \<or>
     recv (ack_recv_cb pf sync info (Some b) s) = No_recv \<and> told ack_events (ack_recv_cb pf sync info (Some b) s))"
proof -
  obtain e b' t where v: "sc_verify pf b s = (e, b', t)" by (metis prod.exhaust)
  have t: "synced_evt_sem t = synced_evt_sem s" "fault_reason t = fault_reason s" "unconfirmed_ticks t = unconfirmed_ticks s" "recv t = recv s"
    using sc_verify_keeps [of pf b s] by (simp_all add: v)
  have told: "message_effect ack_events s (give_synced_evt pf x u)" "told ack_events (give_synced_evt pf x u)"
    if "x \<in> ack_events" "synced_evt_sem u = synced_evt_sem s" for x u
    using that ok by (blast intro: give_told) (use that ok in \<open>simp add: told_def give_synced_evt_def sem_give sem_ok_def\<close>)
  define u where "u = t\<lparr>unconfirmed_ticks := unconfirmed_ticks s + 1, response := (response t)\<lparr>resp_counter := cc_value (sc_counter t)\<rparr>\<rparr>"
  define r where "r = snd (set_rsp_data pf sync info (current_response u) u)"
  have r: "synced_evt_sem r = synced_evt_sem s" "fault_reason r = fault_reason s" "unconfirmed_ticks r = unconfirmed_ticks s + 1" "recv r = recv s"
    by (simp_all add: r_def recv_keeps) (simp_all add: u_def t)
  have counted: "message_effect ack_events s r" if "\<not> 4 \<le> unconfirmed_ticks s + 1"
    using that by (intro effect_counted) (simp_all add: r)
  show ?thesis
    using ne v t r told counted
    by (simp add: ack_recv_cb_def Let_def split_beta CONFIG_MAX_UNCONFIRMED_TICKS_def ack_events_def flip: u_def r_def)
qed

end

subsection \<open>A series of messages\<close>

fun wait_events :: "sc_point \<Rightarrow> evt_t set" where
  "wait_events Confirming_wait = confirm_events"
| "wait_events _ = ack_events"

fun wait_recv :: "sc_point \<Rightarrow> recv_cb" where
  "wait_recv Confirming_wait = Confirm_recv"
| "wait_recv _ = Ack_recv"

definition waiting :: "u16 \<Rightarrow> sc_point \<Rightarrow> nat \<Rightarrow> 'p scanner \<Rightarrow> bool" where
  "waiting i at k s \<longleftrightarrow> sc_inv i s \<and> sc_at s = at \<and> progress (wait_events at) k s \<and>
     (recv s = wait_recv at \<or> recv s = No_recv \<and> told (wait_events at) s)"

definition receive :: "'p platform \<Rightarrow> sync_ptr \<times> bt_le_per_adv_sync_recv_info \<times> net_buf_simple \<Rightarrow> 'p scanner \<Rightarrow> 'p scanner" where
  "receive pf = (\<lambda>(sync, info, b). recv_dispatch pf sync info (Some b))"

context pawr_platform
begin

lemma receive_waiting:
  assumes w: "waiting i at k s" and ne: "nb_len b \<noteq> 0"
  shows "waiting i at (Suc k) (receive pf (sync, info, b) s)"
proof -
  let ?s = "recv_dispatch pf sync info (Some b) s"
  have inv: "sc_inv i s" and at: "sc_at ?s = at" and prog: "progress (wait_events at) k s"
    using w by (simp_all add: waiting_def recv_cbs_state)
  have inv': "sc_inv i ?s" by (rule recv_dispatch_inv [OF inv])
  have ok: "sem_ok (synced_evt_sem s)" using inv by (simp add: sc_inv_def)
  from inv have "progress (wait_events at) (Suc k) ?s \<and> (recv ?s = wait_recv at \<or> recv ?s = No_recv \<and> told (wait_events at) ?s)"
  proof (cases rule: recv_dispatch_cases [of i s pf sync info "Some b"])
    case 1
    with w have "told (wait_events at) s" by (cases at) (auto simp: waiting_def)
    with 1 prog show ?thesis by (simp add: progress_def)
  next
    case 2
    with w have "at = Confirming_wait" by (cases at) (auto simp: waiting_def)
    with 2 confirm_effect [OF ok ne, of sync info] effect_progress [OF _ prog] show ?thesis by simp
  next
    case 3
    with w have "wait_events at = ack_events" "wait_recv at = Ack_recv" by (cases at; simp add: waiting_def)+
    with 3 ack_effect [OF ok ne, of sync info] effect_progress [OF _ prog] show ?thesis by auto
  qed
  with inv' at show ?thesis by (simp add: waiting_def receive_def)
qed

lemma receive_all_waiting:
  "waiting i at k s \<Longrightarrow> \<forall>(sync, info, b) \<in> set ms. nb_len b \<noteq> 0 \<Longrightarrow> waiting i at (k + length ms) (fold (receive pf) ms s)"
proof (induction ms arbitrary: k s)
  case (Cons m ms)
  obtain sync info b where m: "m = (sync, info, b)" by (metis prod.exhaust)
  with Cons.prems receive_waiting [OF Cons.prems(1), of b sync info] have "waiting i at (Suc k) (receive pf m s)" by simp
  from Cons.IH [OF this] Cons.prems(2) show ?case by simp
qed simp

lemma told_wakes:
  assumes "told (wait_events at) s" and "sc_at s = at" and "at \<in> {Confirming_wait, Enabled_wait}"
  shows "\<exists>s'. sc_main pf s = Some s' \<and> sc_state s' \<in> {SLEEPING, SYNCING}"
proof -
  obtain x where "k_sem_take_now pf (synced_evt_sem s) = Some x"
    using assms(1) by (simp add: told_def sem_take)
  with assms show ?thesis
    by (auto simp: sc_main_def confirming_resume_def enabled_resume_def told_def confirm_events_def ack_events_def Let_def)
qed

end

end
