(* ===== verification/Scanner_Props.thy ===== *)
theory Scanner_Props
  imports Scanner_Run Transfer_Props
begin

text \<open>
  The properties of the scanner and their witnesses: the invariant of its reachable states,
  what the two receive callbacks do with a message, replays, the selection of a
  register slot, and what goes wrong: events that overwrite each other, advertisements without a
  signature, a counter that is never stored, random data that never reach a response.
\<close>

section \<open>Reachable states\<close>

text \<open>Nothing ever writes to the storage behind the buffer of the generated data.\<close>

lemma recv_keeps_random: "random_buf (recv_dispatch pf sync info buf s) = random_buf s"
  by (auto simp: recv_dispatch_def register_recv_cb_def confirm_recv_cb_def ack_recv_cb_def sc_verify_def set_rsp_data_def
      give_synced_evt_def zephyr_call_def Let_def split: recv_cb.split option.split prod.split)

lemma scan_keeps_random:
  assumes "scan_recv_cb pf info bytes s = Some s'"
  shows "random_buf s' = random_buf s"
proof -
  have v: "random_buf (snd (snd (sc_verify pf b t))) = random_buf t" for b and t :: "'a scanner"
    by (simp add: sc_verify_def split_beta)
  have d: "random_buf t' = random_buf t" if "parse_adv_data pf d t = Some (g, e, t')" for d g e and t t' :: "'a scanner"
    using that v by (auto simp: parse_adv_data_def zephyr_do_def Let_def split_beta split: if_splits)
  have e: "random_buf t' = random_buf t" if "parse_elems pf ds t = Some (e, t')" for ds e and t t' :: "'a scanner"
    using that by (induction ds arbitrary: t) (auto split: option.splits if_splits dest!: d)
  show ?thesis
    using assms by (auto simp: scan_recv_cb_def zephyr_call_def Let_def split: option.splits if_splits dest!: e)
qed

lemma main_keeps_random:
  assumes "sc_main pf s = Some s'"
  shows "random_buf s' = random_buf s"
proof (cases "sc_at s")
  case At_run
  with assms show ?thesis
    by (cases "sc_state s") (auto simp: sc_main_def sc_run_state_def init_enter_def handle_fault_enter_def syncing_enter_def
        registering_enter_def confirming_enter_def sleeping_enter_def enabled_enter_def sc_wait_def sc_return_def
        zephyr_do_def zephyr_call_def Let_def)
next
  case Init_slept
  obtain l where l: "snd (init_led pf led2 s) = s\<lparr>zlog := l\<rparr>"
    using init_led_log [of pf led2 s] by auto
  with assms Init_slept show ?thesis
    by (auto simp: sc_main_def init_resume_def split_beta l Let_def sc_return_def zephyr_do_def zephyr_call_def)
qed (use assms in \<open>auto simp: sc_main_def syncing_resume_def registering_message_def registering_deleted_def confirming_start_def
    confirming_resume_def sleeping_resume_def enabled_resume_def data_generator_init_def data_generator_stop_def sc_wait_def
    sc_return_def zephyr_do_def zephyr_call_def Let_def split: option.splits if_splits\<close>)

lemma step_keeps_random:
  assumes "pawr_platform pf key_of mac" and "sc_step pf s s'" and "sc_inv i s" and "nb_buf (random_buf s) = noinit_bytes pf UNUSED_DATA_LEN"
  shows "nb_buf (random_buf s') = noinit_bytes pf UNUSED_DATA_LEN"
  using assms(2)
proof cases
  case step_main
  from main_keeps_random [OF this] assms(4) show ?thesis by simp
next
  case (step_scan info bytes)
  from scan_keeps_random [OF this] assms(4) show ?thesis by simp
next
  case step_timer
  with pawr_platform.generate_data_inv(2) [OF assms(1,3)] assms(4) show ?thesis by simp
qed (use assms(4) in \<open>simp_all add: recv_keeps_random sync_cb_def term_cb_def zephyr_call_def sc_boot_def Let_def\<close>)

lemma reach_inv_random:
  assumes "pawr_platform pf key_of mac" and "sc_reach pf i p0 s"
  shows "sc_inv i s \<and> nb_buf (random_buf s) = noinit_bytes pf UNUSED_DATA_LEN"
  using assms(2)
proof (induction rule: sc_reach.induct)
  case sc_reach_boot
  show ?case by (simp add: sc_inv_boot) (simp add: sc_boot_def)
next
  case (sc_reach_step s s')
  then show ?case using pawr_platform.sc_step_inv [OF assms(1)] step_keeps_random [OF assms(1)] by blast
qed

text \<open>C29: in every state the scanner can reach, through any interleaving of its main thread, the
  Bluetooth callbacks, the timer and reboots, the registering state is never entered, the main
  thread is inside the function of the current state, the buffers have their sizes, the sender
  id is the device's own, the semaphores are binary, and the storage of the generated data is what it was at boot.\<close>

theorem reachable_scanner_inv:
  assumes "pawr_platform pf key_of mac" and "sc_reach pf i p0 s"
  shows "sc_inv i s \<and> nb_buf (random_buf s) = noinit_bytes pf UNUSED_DATA_LEN"
  by (rule reach_inv_random [OF assms])

lemma reach_init_enter: "sc_reach pf i p0 (init_enter (sc_boot pf i p0))"
  by (rule sc_reach_step [OF sc_reach_boot step_main])
     (simp add: sc_main_def sc_run_state_def sc_boot_def)

theorem reachable_scanner_inv_witness:
  "sc_inv 1 (term_cb demo 8 (init_enter (sc_boot demo 1 demo_keys)))"
  using reachable_scanner_inv [OF demo_platform sc_reach_step [OF reach_init_enter step_term]] by blast

text \<open>The data of every response are the bytes that the storage of the buffer happened to hold at boot: the
  generator resets the buffer and then adds as many bytes as are in it, so the random bytes it
  draws never reach the storage, nor the response.\<close>

lemma generated_data_are_stale:
  assumes "pawr_platform pf key_of mac" and "sc_reach pf i p0 s"
  shows "take (unat (data_len (current_response s))) (rsp_data (current_response s))
      = (if response_has_data s then noinit_bytes pf UNUSED_DATA_LEN else [])"
  using reach_inv_random [OF assms] current_response_wire(2) [of i s] by simp

lemma generated_data_are_stale_example:
  "take (unat (data_len (current_response (init_enter (sc_boot demo 1 demo_keys)))))
     (rsp_data (current_response (init_enter (sc_boot demo 1 demo_keys)))) = []"
  using generated_data_are_stale [OF demo_platform reach_init_enter, of 1 demo_keys]
  by (simp add: init_enter_def sc_boot_def sc_wait_def zephyr_do_def)

section \<open>What the callbacks do with a message\<close>

text \<open>A scanner inside a state, for the witnesses.\<close>

definition demo_scanner :: "sc_fsm_state \<Rightarrow> sc_point \<Rightarrow> key_map scanner" where
  "demo_scanner st at = (sc_boot demo 1 demo_keys)\<lparr>sc_state := st, sc_at := at\<rparr>"

lemma demo_scanner_inv: "st \<noteq> REGISTERING \<Longrightarrow> st = state_of at \<Longrightarrow> sc_inv 1 (demo_scanner st at)"
  using sc_inv_boot [of 1 demo demo_keys] by (simp add: demo_scanner_def sc_inv_def)

text \<open>C31: while the scanner waits for the ack of its data, a message that is not authentic or not
  fresh is reported as an invalid hash; one that acknowledges the scanner in its slot is
  reported as the ack and switches the receiver off; any other counts as a missed ack: the
  fourth is reported and not answered, an earlier one is answered with the pending response and
  the counter of the message, after which the counter is one ahead of it.\<close>

theorem ack_recv_decides:
  assumes "pawr_platform pf key_of mac" and "sc_inv i s" and "nb_wf b" and "nb_len b \<noteq> 0" and "slot_in_range s"
    and "s' = ack_recv_cb pf sync info (Some b) s"
  shows "case sc_reading pf s (nb_data b) of
      Unauthentic \<Rightarrow> fault_reason s' = EVT_INVALID_HASH \<and> sc_counter s' = sc_counter s \<and> zlog s' = zlog s \<and> recv s' = recv s
    | Ack c \<Rightarrow> fault_reason s' = EVT_GOT_ACK \<and> cc_value (sc_counter s') = c \<and> zlog s' = zlog s \<and> recv s' = No_recv
    | Nack c \<Rightarrow> unconfirmed_ticks s' = unconfirmed_ticks s + 1 \<and> recv s' = recv s \<and>
        (if unconfirmed_ticks s + 1 \<ge> 4
         then fault_reason s' = EVT_DIDNT_RECEIVE_ACK \<and> cc_value (sc_counter s') = c \<and> zlog s' = zlog s
         else fault_reason s' = fault_reason s \<and> cc_value (sc_counter s') = c + 1 \<and>
           (\<exists>p. key_of p = key_of (psa_store s) \<and>
             responded pf sync info ((current_response s)\<lparr>resp_counter := c\<rparr>) s s' p))"
  by (rule ack_recv_reading [OF assms])

lemma demo_scanner_simps [simp]:
  "psa_store (demo_scanner st at) = demo_keys" "CONFIG_SCANNER_ID (demo_scanner st at) = 1"
  "selected_slot (demo_scanner st at) = \<lparr>subevent = 0, rsp_slot = 0\<rparr>" "cc_value (sc_counter (demo_scanner st at)) = 0"
  "unconfirmed_ticks (demo_scanner st at) = 0" "sc_state (demo_scanner st at) = st" "sc_at (demo_scanner st at) = at"
  "fault_reason (demo_scanner st at) = EVT_NO_FAULT" "recv (demo_scanner st at) = No_recv"
  "zlog (demo_scanner st at) = []" "default_sync (demo_scanner st at) = None"
  "synced_evt_sem (demo_scanner st at) = \<lparr>sem_count = 0, sem_limit = 1\<rparr>"
  by (simp_all add: demo_scanner_def sc_boot_def new_sem_def)

lemma demo_slot_in_range: "slot_in_range (demo_scanner st at)"
  by (simp add: slot_in_range_def SCANNER_RSP_SLOTS_def)

lemma demo_advertiser_key: "ADVERTISER_KEY_ID demo = 1"
  by (simp add: key_ids demo_def store_platform_def)

text \<open>The message with the payload 10, 20, 30 and the counter 5 is authentic but too short to
  hold acks.\<close>

lemma demo_reading: "sc_reading demo (demo_scanner st at) demo_message = Nack 5"
proof -
  obtain b' p' where "verify_message demo (buf_of demo_message) 1 0 demo_keys = (TRANSFER_NO_ERROR, b', 5, p')"
    and "nb_data b' = [10, 20, 30]"
    using demo_accepts [of 0] by auto
  with pawr_platform.verify_refines [OF demo_platform, of "buf_of demo_message" 1 0 demo_keys]
  have "verify_spec (mac_of demo 1 demo_keys) demo_message 0 = (TRANSFER_NO_ERROR, [10, 20, 30], 5)"
    by auto
  then show ?thesis
    by (simp add: sc_reading_def read_message_def demo_advertiser_key ack_bytes_def SCANNER_RSP_SLOTS_def)
qed

lemma demo_message_len: "nb_len (buf_of demo_message) \<noteq> 0"
  by (simp add: demo_message_def demo_body_def)

theorem ack_recv_decides_witness:
  "unconfirmed_ticks (ack_recv_cb demo 3 \<lparr>recv_subevent = 0, periodic_event_counter = 9\<rparr> (Some (buf_of demo_message))
     (demo_scanner ENABLED Enabled_wait)) = 1"
  using ack_recv_decides [OF demo_platform demo_scanner_inv _ demo_message_len demo_slot_in_range refl,
      of ENABLED Enabled_wait 3 "\<lparr>recv_subevent = 0, periodic_event_counter = 9\<rparr>"]
  by (simp add: demo_reading)

text \<open>C32: while the scanner waits for the confirmation of its slot, a message that is not authentic
  or not fresh is reported as an invalid hash; one that acknowledges the scanner in its slot
  confirms it; any other is answered with an empty response that carries the counter of the
  message, and the fourth such message is reported as a failed confirmation.\<close>

theorem confirm_recv_decides:
  assumes "pawr_platform pf key_of mac" and "sc_inv i s" and "nb_wf b" and "nb_len b \<noteq> 0" and "slot_in_range s"
    and "s' = confirm_recv_cb pf sync info (Some b) s"
  shows "case sc_reading pf s (nb_data b) of
      Unauthentic \<Rightarrow> fault_reason s' = EVT_INVALID_HASH \<and> sc_counter s' = sc_counter s \<and> zlog s' = zlog s
    | Ack c \<Rightarrow> fault_reason s' = EVT_NO_FAULT \<and> cc_value (sc_counter s') = c \<and> zlog s' = zlog s
    | Nack c \<Rightarrow> unconfirmed_ticks s' = unconfirmed_ticks s + 1 \<and> cc_value (sc_counter s') = c + 1 \<and>
        fault_reason s' = (if unconfirmed_ticks s + 1 \<ge> 4 then EVT_CONFIRMATION_FAILED else fault_reason s) \<and>
        (\<exists>p. key_of p = key_of (psa_store s) \<and>
          responded pf sync info \<lparr>rsp_metadata = rsp_data_i s, rsp_data = [], data_len = 0, resp_counter = c\<rparr> s s' p)"
  by (rule confirm_recv_reading [OF assms])

theorem confirm_recv_decides_witness:
  "cc_value (sc_counter (confirm_recv_cb demo 3 \<lparr>recv_subevent = 0, periodic_event_counter = 9\<rparr> (Some (buf_of demo_message))
     (demo_scanner CONFIRMING Confirming_wait))) = 6"
  using confirm_recv_decides [OF demo_platform demo_scanner_inv _ demo_message_len demo_slot_in_range refl,
      of CONFIRMING Confirming_wait 3 "\<lparr>recv_subevent = 0, periodic_event_counter = 9\<rparr>"]
  by (simp add: demo_reading)

section \<open>What an ack proves\<close>

lemma as_ack_data_nth: "2 * j + 1 < length bs \<Longrightarrow> ack_id (as_ack_data bs ! j) = of_le (take 2 (drop (2 * j) bs))"
proof (induction bs arbitrary: j rule: as_ack_data.induct)
  case (1 a b bs)
  then show ?case by (cases j) simp_all
qed simp_all

text \<open>C33: the scanner takes its data for delivered only on the word of the advertiser: when the
  callback reports an ack, the message was a payload with a counter that is not behind the
  scanner's and the MAC of both under the stored advertiser key, and the two bytes of the
  scanner's slot in it are the scanner's own id.\<close>

theorem got_ack_is_authentic:
  assumes "pawr_platform pf key_of mac" and "sc_inv i s" and "nb_wf b" and "slot_in_range s"
    and "fault_reason s \<noteq> EVT_GOT_ACK" and "fault_reason (ack_recv_cb pf sync info (Some b) s) = EVT_GOT_ACK"
  shows "\<exists>a k payload c. key_of (psa_store s) (ADVERTISER_KEY_ID pf) = Some (a, k) \<and> signing_key a \<and>
    nb_data b = payload @ le_bytes 8 c @ mac k (payload @ le_bytes 8 c) \<and> cc_value (sc_counter s) \<le> c \<and>
    ack_bytes \<le> length payload \<and>
    of_le (take 2 (drop (length payload - ack_bytes + 2 * unat (rsp_slot (selected_slot s))) payload)) = i"
proof -
  have ne: "nb_len b \<noteq> 0"
  proof
    assume "nb_len b = 0"
    then have "ack_recv_cb pf sync info (Some b) s = s" by (simp add: ack_recv_cb_def)
    with assms(5,6) show False by simp
  qed
  let ?slot = "unat (rsp_slot (selected_slot s))"
  obtain c where ack: "sc_reading pf s (nb_data b) = Ack c"
    using ack_recv_reading [OF assms(1-3) ne assms(4) refl, of sync info] assms(5,6)
    by (auto split: reading.splits if_splits)
  have id: "CONFIG_SCANNER_ID s = i" using assms(2) by (simp add: sc_inv_def)
  let ?spec = "verify_spec (mac_of pf (ADVERTISER_KEY_ID pf) (psa_store s)) (nb_data b) (cc_value (sc_counter s))"
  obtain payload where sp: "?spec = (TRANSFER_NO_ERROR, payload, c)" and l: "ack_bytes \<le> length payload"
    and own: "ack_id (as_ack_data (drop (length payload - ack_bytes) payload) ! ?slot) = i"
    using ack by (auto simp: sc_reading_def read_message_def id split: prod.splits if_splits)
  obtain b' c' p' where v: "verify_message pf b (ADVERTISER_KEY_ID pf) (cc_value (sc_counter s)) (psa_store s) = (TRANSFER_NO_ERROR, b', c', p')"
    and eq: "nb_data b' = payload" "c' = c"
    using pawr_platform.verify_refines [OF assms(1,3), of "ADVERTISER_KEY_ID pf" "cc_value (sc_counter s)" "psa_store s"] sp
    by auto
  have bytes: "of_le (take 2 (drop (length payload - ack_bytes + 2 * ?slot) payload)) = i"
    using own as_ack_data_nth [of ?slot "drop (length payload - ack_bytes) payload"] l assms(4)
    by (simp add: slot_in_range_def ack_bytes_def add.commute)
  from pawr_platform.verify_sound [OF assms(1,3) v] eq obtain a k where
    "key_of (psa_store s) (ADVERTISER_KEY_ID pf) = Some (a, k)" "signing_key a"
    "nb_data b = payload @ le_bytes 8 c @ mac k (payload @ le_bytes 8 c)" "cc_value (sc_counter s) \<le> c"
    by auto
  with bytes l show ?thesis by blast
qed

text \<open>An authentic message that acknowledges device 1 in slot 0.\<close>

definition demo_ack_body :: "byte list" where
  "demo_ack_body = (le_bytes 2 (1 :: u16) @ replicate 204 0) @ le_bytes 8 (5 :: u64)"

definition demo_ack :: "byte list" where
  "demo_ack = demo_ack_body @ mac32 demo_hash (demo_key 7) demo_ack_body"

lemma demo_ack_reading: "sc_reading demo (demo_scanner st at) demo_ack = Ack 5"
proof -
  let ?p = "le_bytes 2 (1 :: u16) @ replicate 204 0"
  have "nb_data (buf_of demo_ack) = ?p @ le_bytes 8 (5 :: u64) @ mac32 demo_hash (demo_key 7) (?p @ le_bytes 8 (5 :: u64))"
    by (simp add: demo_ack_def demo_ack_body_def)
  from pawr_reliable.verify_accepts [OF demo_reliable _ this, of demo_keys 1 "sign_attributes 1" 0]
  obtain b' p' where "verify_message demo (buf_of demo_ack) 1 0 demo_keys = (TRANSFER_NO_ERROR, b', 5, p')"
    and "nb_data b' = ?p"
    by auto
  with pawr_platform.verify_refines [OF demo_platform, of "buf_of demo_ack" 1 0 demo_keys]
  have v: "verify_spec (mac_of demo 1 demo_keys) demo_ack 0 = (TRANSFER_NO_ERROR, ?p, 5)"
    by auto
  have "ack_id (as_ack_data ?p ! 0) = of_le (take 2 (drop (2 * 0) ?p))"
    by (rule as_ack_data_nth) simp
  then have "ack_id (as_ack_data ?p ! 0) = 1" by simp
  with v show ?thesis
    by (simp add: sc_reading_def read_message_def demo_advertiser_key ack_bytes_def SCANNER_RSP_SLOTS_def)
qed

lemma demo_ack_len: "nb_len (buf_of demo_ack) \<noteq> 0"
  by (simp add: demo_ack_def demo_ack_body_def)

theorem got_ack_is_authentic_witness:
  "\<exists>a k payload c. demo_keys 1 = Some (a, k) \<and> signing_key a \<and>
    demo_ack = payload @ le_bytes 8 (c :: u64) @ mac32 demo_hash k (payload @ le_bytes 8 c) \<and> ack_bytes \<le> length payload"
proof -
  have "fault_reason (ack_recv_cb demo 3 \<lparr>recv_subevent = 0, periodic_event_counter = 9\<rparr> (Some (buf_of demo_ack))
      (demo_scanner ENABLED Enabled_wait)) = EVT_GOT_ACK"
    using ack_recv_reading [OF demo_platform demo_scanner_inv _ demo_ack_len demo_slot_in_range refl,
      of ENABLED Enabled_wait 3 "\<lparr>recv_subevent = 0, periodic_event_counter = 9\<rparr>"]
    by (simp add: demo_ack_reading)
  from got_ack_is_authentic [OF demo_platform demo_scanner_inv _ demo_slot_in_range _ this]
  show ?thesis by (auto simp: demo_advertiser_key)
qed

section \<open>Replays\<close>

text \<open>C34: a message that the scanner has answered is never accepted again: in whatever state the
  system comes to afterwards, as long as it does not reboot and the counter does not wrap around,
  the same message is rejected by both callbacks, is not answered, changes no counter, and is
  reported as an invalid hash if the scanner listens at all.\<close>

theorem answered_message_is_never_accepted_again:
  assumes "pawr_platform pf key_of mac" and "sc_inv i s" and "sc_state s \<noteq> SC_INITIALIZE" and "nb_wf b" and "slot_in_range s"
    and "s1 = recv_dispatch pf sync info (Some b) s" and "zlog s1 \<noteq> zlog s" and "cc_value (sc_counter s1) \<noteq> 0"
    and "sc_later pf s1 t" and "t' = recv_dispatch pf sync' info' (Some b) t"
  shows "zlog t' = zlog t \<and> sc_counter t' = sc_counter t \<and> (recv t \<noteq> No_recv \<longrightarrow> fault_reason t' = EVT_INVALID_HASH)"
proof -
  from pawr_platform.dispatch_answered [OF assms(1,2,4,5,6,7)] obtain c where
    c: "nb_len b \<noteq> 0" "sc_reading pf s (nb_data b) = Nack c" "cc_value (sc_counter s1) = c + 1"
    by blast
  have "sc_inv i s1" and "sc_state s1 \<noteq> SC_INITIALIZE"
    using pawr_platform.recv_dispatch_inv [OF assms(1,2)] assms(3) by (simp_all add: assms(6) recv_cbs_state)
  from pawr_platform.later_counter [OF assms(1,9) this]
  have inv: "sc_inv i t" and le: "cc_value (sc_counter s1) \<le> cc_value (sc_counter t)" by simp_all
  have "c < cc_value (sc_counter s1)"
    using c(3) assms(8) unatSuc [of c] by (simp add: word_less_nat_alt add.commute)
  from this le have "c < cc_value (sc_counter t)" by (rule less_le_trans)
  from reading_replayed [OF c(2) this] pawr_platform.dispatch_rejected [OF assms(1) inv assms(4) c(1)]
  show ?thesis by (simp add: assms(10))
qed

theorem answered_message_is_never_accepted_again_witness:
  "fault_reason (recv_dispatch demo 3 \<lparr>recv_subevent = 0, periodic_event_counter = 10\<rparr> (Some (buf_of demo_message))
     (term_cb demo 8 (recv_dispatch demo 3 \<lparr>recv_subevent = 0, periodic_event_counter = 9\<rparr> (Some (buf_of demo_message))
        ((demo_scanner ENABLED Enabled_wait)\<lparr>recv := Ack_recv\<rparr>)))) = EVT_INVALID_HASH"
proof -
  let ?s = "(demo_scanner ENABLED Enabled_wait)\<lparr>recv := Ack_recv\<rparr>" and ?i = "\<lparr>recv_subevent = 0, periodic_event_counter = 9\<rparr>"
  let ?s1 = "recv_dispatch demo 3 ?i (Some (buf_of demo_message)) ?s"
  have inv: "sc_inv 1 ?s" by (rule sc_inv_recv [OF demo_scanner_inv]) simp_all
  have slot: "slot_in_range ?s" using demo_slot_in_range by (simp add: slot_in_range_def)
  have cb: "?s1 = ack_recv_cb demo 3 ?i (Some (buf_of demo_message)) ?s" by (simp add: recv_dispatch_def)
  have "sc_reading demo ?s demo_message = Nack 5"
    using demo_reading [of ENABLED Enabled_wait] by (simp add: sc_reading_def)
  moreover have few: "\<not> (4 :: u8) \<le> 1" by (simp add: word_le_nat_alt)
  ultimately have s1: "zlog ?s1 \<noteq> zlog ?s" "cc_value (sc_counter ?s1) = 6" "recv ?s1 = Ack_recv"
    using ack_recv_reading [OF demo_platform inv _ demo_message_len slot cb] by (auto simp: responded_def)
  have later: "sc_later demo ?s1 (term_cb demo 8 ?s1)"
    by (rule later_step [OF later_refl step_term]) (use s1(2) sc_frame_callbacks(2) [of ?s1 demo 8] in \<open>simp add: sc_frame_def\<close>)
  have "recv (term_cb demo 8 ?s1) = Ack_recv" using s1(3) by (simp add: term_cb_def Let_def)
  with answered_message_is_never_accepted_again [OF demo_platform inv _ _ slot refl s1(1) _ later refl] s1(2) show ?thesis
    by simp
qed

section \<open>Waiting\<close>

text \<open>C35: messages cannot keep the main thread waiting: while it waits for the confirmation of its
  slot or for the ack of its data, at the latest the fourth message that is not empty, whatever
  the messages are, makes it leave the wait, for sleeping or for a new sync.\<close>

theorem wait_ends_within_four_messages:
  assumes "pawr_platform pf key_of mac" and "sc_inv i s" and "(sc_at s, recv s) \<in> {(Confirming_wait, Confirm_recv), (Enabled_wait, Ack_recv)}"
    and "unconfirmed_ticks s = 0" and "4 \<le> length ms" and "\<forall>(sync, info, b) \<in> set ms. nb_len b \<noteq> 0"
  shows "\<exists>s'. sc_main pf (fold (receive pf) ms s) = Some s' \<and> sc_state s' \<in> {SLEEPING, SYNCING}"
proof -
  have "waiting i (sc_at s) 0 s"
    using assms(2-4) by (auto simp: waiting_def progress_def sc_inv_def sem_ok_def)
  from pawr_platform.receive_all_waiting [OF assms(1) this assms(6)]
  have w: "waiting i (sc_at s) (length ms) (fold (receive pf) ms s)" by simp
  with assms(5) have "told (wait_events (sc_at s)) (fold (receive pf) ms s)" "sc_at (fold (receive pf) ms s) = sc_at s"
    by (auto simp: waiting_def progress_def)
  from pawr_platform.told_wakes [OF assms(1) this] assms(3) show ?thesis by auto
qed

theorem wait_ends_within_four_messages_witness:
  "\<exists>s'. sc_main demo (fold (receive demo) (replicate 4 (3, \<lparr>recv_subevent = 0, periodic_event_counter = 9\<rparr>, buf_of [1, 2, 3]))
      ((demo_scanner CONFIRMING Confirming_wait)\<lparr>recv := Confirm_recv\<rparr>)) = Some s' \<and> sc_state s' \<in> {SLEEPING, SYNCING}"
proof -
  have inv: "sc_inv 1 ((demo_scanner CONFIRMING Confirming_wait)\<lparr>recv := Confirm_recv\<rparr>)"
    by (rule sc_inv_recv [OF demo_scanner_inv]) simp_all
  show ?thesis
    by (rule wait_ends_within_four_messages [OF demo_platform inv]) (auto simp: buf_of_def)
qed

section \<open>Scanning\<close>

text \<open>An authentic and fresh advertisement, with everything it changes.\<close>

lemma parse_adv_data_signed:
  assumes "pawr_reliable pf key_of mac" and "bt_data_type d = BT_DATA_MANUFACTURER_DATA"
    and "bt_data_data d = body @ mac k body" and "body = (regs_wire rs @ [n]) @ le_bytes 8 c"
    and "length rs = unat n" and "n \<noteq> 0" and "cc_value (sc_counter s) \<le> c"
    and "key_of (psa_store s) (ADVERTISER_KEY_ID pf) = Some (a, k)" and "signing_key a"
  shows "\<exists>r p. r \<in> set rs \<and> key_of p = key_of (psa_store s) \<and> parse_adv_data pf d s = Some (False, TRANSFER_NO_ERROR,
    zephyr_do Sys_rand8_get ((sc_with c p s)\<lparr>sel_info := \<lparr>num_reg_slots = n\<rparr>, selected_slot := r\<rparr>))"
proof -
  let ?bytes = "bt_data_data d"
  let ?b0 = "\<lparr>nb_buf = replicate (length ?bytes) 0, nb_off = 0, nb_len = 0\<rparr> :: net_buf_simple"
  have nbl: "zephyr_net_buf pf" using assms(1) by (simp add: pawr_reliable_def pawr_platform_def)
  have wf0: "nb_wf ?b0" "nb_tailroom ?b0 = length ?bytes" "nb_data ?b0 = []"
    by (simp_all add: nb_wf_def nb_tailroom_def nb_data_def)
  have add: "net_buf_simple_add_mem pf ?b0 ?bytes = nb_append ?b0 ?bytes"
    using zephyr_net_buf.nb_add_mem [OF nbl wf0(1), of ?bytes] wf0(2) by simp
  have b: "nb_wf (nb_append ?b0 ?bytes)" "nb_data (nb_append ?b0 ?bytes) = ?bytes"
    using nb_wf_append [OF wf0(1), of ?bytes] nb_data_append [OF wf0(1), of ?bytes] wf0(2,3) by simp_all
  have "nb_data (nb_append ?b0 ?bytes) = (regs_wire rs @ [n]) @ le_bytes 8 c @ mac k ((regs_wire rs @ [n]) @ le_bytes 8 c)"
    using b(2) assms(3,4) by simp
  from pawr_reliable.verify_accepts [OF assms(1) b(1) this assms(8,9,7)] obtain b' p' where
    v: "verify_message pf (nb_append ?b0 ?bytes) (ADVERTISER_KEY_ID pf) (cc_value (sc_counter s)) (psa_store s)
      = (TRANSFER_NO_ERROR, b', c, p')" "nb_data b' = regs_wire rs @ [n]" "nb_wf b'" "key_of p' = key_of (psa_store s)"
    by blast
  from zephyr_net_buf.advertisement_data_deserialize_wire [OF nbl v(3,2) assms(5),
      of "\<lparr>reg_data = [], selection_info = \<lparr>num_reg_slots = 0\<rparr>, adv_counter = 0\<rparr>"] obtain b'' where
    des: "advertisement_data_deserialize pf \<lparr>reg_data = [], selection_info = \<lparr>num_reg_slots = 0\<rparr>, adv_counter = 0\<rparr> b'
      = (TRANSFER_NO_ERROR, \<lparr>reg_data = rs, selection_info = \<lparr>num_reg_slots = n\<rparr>, adv_counter = 0\<rparr>, b'')"
    by auto
  let ?r = "sys_rand8_get pf (zlog s) mod n"
  have "unat ?r < unat n"
    using assms(6) by (simp add: unat_mod unat_gt_0)
  then have mem: "rs ! unat ?r \<in> set rs" using assms(5) by simp
  have "parse_adv_data pf d s = Some (False, TRANSFER_NO_ERROR, zephyr_do Sys_rand8_get
      ((sc_with c p' s)\<lparr>sel_info := \<lparr>num_reg_slots = n\<rparr>, selected_slot := rs ! unat ?r\<rparr>))"
    using assms(2,6) v(1) des by (simp add: parse_adv_data_def add sc_verify_def sc_with_def Let_def)
  with mem v(4) show ?thesis by blast
qed

text \<open>From an authentic and fresh advertisement the scanner takes one of the advertised register
  slots, and the counter of the advertisement.\<close>

lemma scan_selects_advertised_slot:
  assumes "pawr_reliable pf key_of mac" and "bt_data_type d = BT_DATA_MANUFACTURER_DATA"
    and "bt_data_data d = body @ mac k body" and "body = (regs_wire rs @ [n]) @ le_bytes 8 c"
    and "length rs = unat n" and "n \<noteq> 0" and "cc_value (sc_counter s) \<le> c"
    and "key_of (psa_store s) (ADVERTISER_KEY_ID pf) = Some (a, k)" and "signing_key a"
  shows "\<exists>s'. parse_adv_data pf d s = Some (False, TRANSFER_NO_ERROR, s') \<and> selected_slot s' \<in> set rs \<and>
    cc_value (sc_counter s') = c \<and> default_sync s' = default_sync s"
  using parse_adv_data_signed [OF assms] by (auto simp: zephyr_do_def sc_with_def)

lemma scan_selects_advertised_slot_example:
  "\<exists>s'. parse_adv_data demo \<lparr>bt_data_type = BT_DATA_MANUFACTURER_DATA,
      bt_data_data = ([0, 5, 0, 6, 2] @ le_bytes 8 (5 :: u64)) @ mac32 demo_hash (demo_key 7) ([0, 5, 0, 6, 2] @ le_bytes 8 (5 :: u64))\<rparr>
      (demo_scanner SYNCING Syncing_wait) = Some (False, TRANSFER_NO_ERROR, s') \<and>
    selected_slot s' \<in> {\<lparr>subevent = 0, rsp_slot = 5\<rparr>, \<lparr>subevent = 0, rsp_slot = 6\<rparr>}"
proof -
  let ?d = "\<lparr>bt_data_type = BT_DATA_MANUFACTURER_DATA,
      bt_data_data = ([0, 5, 0, 6, 2] @ le_bytes 8 (5 :: u64)) @ mac32 demo_hash (demo_key 7) ([0, 5, 0, 6, 2] @ le_bytes 8 (5 :: u64))\<rparr>"
  let ?rs = "[\<lparr>subevent = 0, rsp_slot = 5\<rparr>, \<lparr>subevent = 0, rsp_slot = 6\<rparr>]"
  have body: "[0, 5, 0, 6, 2] @ le_bytes 8 (5 :: u64) = (regs_wire ?rs @ [2]) @ le_bytes 8 (5 :: u64)"
    by (simp add: regs_wire_def reg_wire_def)
  from scan_selects_advertised_slot [OF demo_reliable _ _ body, of ?d "demo_key 7" "demo_scanner SYNCING Syncing_wait" "sign_attributes 1"]
  show ?thesis by (simp add: demo_advertiser_key) blast
qed

text \<open>An extended advertisement without manufacturer data is never verified, yet the scanner
  synchronises to its sender, with whatever slot it had, and goes on to the confirmation.\<close>

lemma scan_syncs_without_signature:
  assumes "zephyr_sem pf" and "scan_addr j = Some addr" and "scan_ext_adv j" and "scan_interval j \<noteq> 0"
    and "\<forall>d \<in> set (bt_data_parse_elems pf bytes). bt_data_type d \<noteq> BT_DATA_MANUFACTURER_DATA"
    and "\<forall>l c. zephyr_ret pf l c = 0" and "sem_limit (synced_sem s) = 1"
  shows "\<exists>s' sync. scan_recv_cb pf (Some j) bytes s = Some s' \<and> default_sync s' = Some sync \<and>
    sem_count (synced_sem s') = 1 \<and> selected_slot s' = selected_slot s \<and> sc_counter s' = sc_counter s"
proof -
  have "parse_elems pf ds s = Some (TRANSFER_NO_ERROR, s)"
    if "\<forall>d \<in> set ds. bt_data_type d \<noteq> BT_DATA_MANUFACTURER_DATA" for ds
    using that by (induction ds) (simp_all add: parse_adv_data_def)
  with assms show ?thesis
    by (simp add: scan_recv_cb_def zephyr_call_def zephyr_sem.sem_give Let_def)
qed

lemma scan_syncs_without_signature_example:
  "\<exists>s' sync. scan_recv_cb demo (Some \<lparr>scan_addr = Some [1, 2, 3, 4, 5, 6], scan_ext_adv = True, scan_interval = 2000, scan_sid = 0\<rparr>) []
      (demo_scanner SYNCING Syncing_wait) = Some s' \<and> default_sync s' = Some sync \<and> sem_count (synced_sem s') = 1"
proof -
  have p: "bt_data_parse_elems demo [] = []" and z: "zephyr_ret demo l c = 0" for l c
    by (simp_all add: demo_def store_platform_def)
  have "sem_limit (synced_sem (demo_scanner SYNCING Syncing_wait)) = 1"
    by (simp add: demo_scanner_def sc_boot_def new_sem_def)
  from scan_syncs_without_signature [OF demo_sem, of "\<lparr>scan_addr = Some [1, 2, 3, 4, 5, 6], scan_ext_adv = True, scan_interval = 2000, scan_sid = 0\<rparr>"
      "[1, 2, 3, 4, 5, 6]" "[]"] this z
  show ?thesis by (simp add: p) blast
qed

section \<open>Events that meet\<close>

lemma data_generated_fields:
  "fault_reason (generate_data pf (generator_config pf) s) = EVT_DATA_GENERATED"
  "default_sync (generate_data pf (generator_config pf) s) = default_sync s"
  "synced_evt_sem (generate_data pf (generator_config pf) s) = k_sem_give pf (synced_evt_sem s)"
  "sc_state (generate_data pf (generator_config pf) s) = sc_state s"
  by (simp_all add: generate_data_def generator_config_def data_generated_cb_def give_synced_evt_def zephyr_do_def Let_def)

text \<open>C37: the loss of the sync and the next data share one semaphore and one event variable: when
  the timer expires after the loss and before the sleeping main thread has run, the loss is
  forgotten. The scanner becomes enabled without a sync, and every later expiry of the timer only
  enables it again: nothing brings it back to syncing.\<close>

theorem lost_sync_is_overwritten:
  assumes "zephyr_sem pf" and "sem_ok (synced_evt_sem s)"
    and "s1 = generate_data pf (generator_config pf) (term_cb pf reason s)"
  shows "(\<exists>s2. sleeping_resume pf s1 = Some s2 \<and> sc_state s2 = ENABLED \<and> default_sync s2 = None) \<and>
    (\<forall>t. sem_ok (synced_evt_sem t) \<and> default_sync t = None \<longrightarrow>
      (\<exists>t'. enabled_resume pf (generate_data pf (generator_config pf) t) = Some t' \<and> sc_state t' = ENABLED \<and> default_sync t' = None))"
proof -
  have take: "\<exists>y. k_sem_take_now pf (k_sem_give pf x) = Some y" if "sem_ok x" for x
    using that assms(1) by (simp add: sem_ok_def zephyr_sem.sem_give zephyr_sem.sem_take)
  have ok: "sem_ok (k_sem_give pf (synced_evt_sem s))"
    using zephyr_sem.sem_ok_ops(1) [OF assms(1,2)] .
  have t: "synced_evt_sem (term_cb pf reason s) = k_sem_give pf (synced_evt_sem s)" "default_sync (term_cb pf reason s) = None"
    by (simp_all add: term_cb_def Let_def)
  obtain y where "k_sem_take_now pf (synced_evt_sem s1) = Some y"
    using take [OF ok] by (auto simp: assms(3) data_generated_fields t)
  then have "\<exists>s2. sleeping_resume pf s1 = Some s2 \<and> sc_state s2 = ENABLED \<and> default_sync s2 = None"
    by (simp add: sleeping_resume_def assms(3) data_generated_fields t sc_return_def)
  moreover have "\<exists>t'. enabled_resume pf (generate_data pf (generator_config pf) u) = Some t' \<and> sc_state t' = ENABLED \<and> default_sync t' = None"
    if u: "sem_ok (synced_evt_sem u)" "default_sync u = None" for u
  proof -
    obtain y where "k_sem_take_now pf (synced_evt_sem (generate_data pf (generator_config pf) u)) = Some y"
      using take [OF u(1)] by (auto simp: data_generated_fields)
    then show ?thesis
      using u(2) by (simp add: enabled_resume_def data_generated_fields sc_return_def)
  qed
  ultimately show ?thesis by blast
qed

theorem lost_sync_is_overwritten_witness:
  "\<exists>s2. sleeping_resume demo (generate_data demo (generator_config demo) (term_cb demo 8 (demo_scanner SLEEPING Sleeping_wait))) = Some s2 \<and>
     sc_state s2 = ENABLED \<and> default_sync s2 = None"
  using lost_sync_is_overwritten [OF demo_sem _ refl, of "demo_scanner SLEEPING Sleeping_wait" 8]
  by (simp add: sem_ok_def)

lemma scan_keeps_event:
  assumes "scan_recv_cb pf info bytes s = Some s'"
  shows "fault_reason s' = fault_reason s \<and> synced_evt_sem s' = synced_evt_sem s"
proof -
  have v: "fault_reason (snd (snd (sc_verify pf b t))) = fault_reason t \<and> synced_evt_sem (snd (snd (sc_verify pf b t))) = synced_evt_sem t"
    for b and t :: "'a scanner"
    by (simp add: sc_verify_def split_beta)
  have d: "fault_reason t' = fault_reason t \<and> synced_evt_sem t' = synced_evt_sem t"
    if "parse_adv_data pf d t = Some (g, e, t')" for d g e and t t' :: "'a scanner"
    using that v by (auto simp: parse_adv_data_def zephyr_do_def Let_def split_beta split: if_splits)
  have e: "fault_reason t' = fault_reason t \<and> synced_evt_sem t' = synced_evt_sem t"
    if "parse_elems pf ds t = Some (e, t')" for ds e and t t' :: "'a scanner"
    using that by (induction ds arbitrary: t) (auto split: option.splits if_splits dest!: d)
  show ?thesis
    using assms by (auto simp: scan_recv_cb_def zephyr_call_def Let_def split: option.splits if_splits dest!: e)
qed

text \<open>\<open>syncing\<close> deletes the sync it still has, and the host reports the deletion, with
  reason 22, on the semaphore that the confirmation waits on. Whatever is then scanned, the
  confirmation ends at once, before any message is received, and the scanner is back in
  \<open>syncing\<close> with a sync to delete: the same happens again.\<close>

lemma stale_deletion_aborts_confirmation:
  assumes "zephyr_sem pf" and "sem_ok (synced_evt_sem s)"
    and "scan_recv_cb pf info bytes (term_cb pf 22 (syncing_enter pf s)) = Some s2" and "syncing_resume pf s2 = Some s3"
  shows "\<exists>s4. confirming_resume pf (confirming_start (confirming_enter s3)) = Some s4 \<and> sc_state s4 = SYNCING \<and>
    recv s4 = No_recv \<and> default_sync s4 = default_sync s2 \<and>
    zlog s4 = zlog s2 @ [K_sleep (unat (sync_interval s2) * 5 div 4)]"
proof -
  have "synced_evt_sem (syncing_enter pf s) = synced_evt_sem s"
    by (simp add: syncing_enter_def zephyr_call_def zephyr_do_def sc_return_def sc_wait_def Let_def)
  then have s2: "fault_reason s2 = EVT_BLE_SYNC_DELETED" "synced_evt_sem s2 = k_sem_give pf (synced_evt_sem s)"
    using scan_keeps_event [OF assms(3)] by (simp_all add: term_cb_def)
  obtain x where s3: "s3 = sc_return CONFIRMING (s2\<lparr>synced_sem := x\<rparr>)"
    using assms(4) by (auto simp: syncing_resume_def split: option.splits)
  obtain y where "k_sem_take_now pf (synced_evt_sem s2) = Some y"
    using assms(1,2) by (simp add: s2 sem_ok_def zephyr_sem.sem_give zephyr_sem.sem_take)
  then show ?thesis
    by (simp add: confirming_resume_def confirming_start_def confirming_enter_def s3 s2 sc_return_def sc_wait_def zephyr_do_def Let_def)
qed

lemma stale_deletion_aborts_confirmation_example:
  "\<exists>s2 s3 s4. syncing_resume demo s2 = Some s3 \<and>
     confirming_resume demo (confirming_start (confirming_enter s3)) = Some s4 \<and> sc_state s4 = SYNCING \<and>
     default_sync s4 \<noteq> None"
proof -
  let ?s = "(demo_scanner SYNCING At_run)\<lparr>default_sync := Some 3\<rparr>"
  let ?info = "\<lparr>scan_addr = Some [1, 2, 3, 4, 5, 6], scan_ext_adv = True, scan_interval = 2000, scan_sid = 0\<rparr>"
  have p: "bt_data_parse_elems demo [] = []" "\<And>l c. zephyr_ret demo l c = 0"
    by (simp_all add: demo_def store_platform_def)
  have "synced_sem (term_cb demo 22 (syncing_enter demo ?s)) = \<lparr>sem_count = 0, sem_limit = 1\<rparr>"
    by (simp add: term_cb_def syncing_enter_def zephyr_call_def zephyr_do_def sc_return_def sc_wait_def Let_def
        demo_scanner_def sc_boot_def new_sem_def)
  then obtain s2 where s2: "scan_recv_cb demo (Some ?info) [] (term_cb demo 22 (syncing_enter demo ?s)) = Some s2"
    "default_sync s2 \<noteq> None" "synced_sem s2 = \<lparr>sem_count = 1, sem_limit = 1\<rparr>"
    by (simp add: scan_recv_cb_def p zephyr_call_def Let_def zephyr_sem.sem_give [OF demo_sem])
  then obtain s3 where s3: "syncing_resume demo s2 = Some s3"
    by (auto simp: syncing_resume_def zephyr_sem.sem_take [OF demo_sem])
  have "sem_ok (synced_evt_sem ?s)" by (simp add: sem_ok_def)
  from stale_deletion_aborts_confirmation [OF demo_sem this s2(1) s3] s2(2) s3 show ?thesis
    by (metis (no_types))
qed

section \<open>The stored counter\<close>

text \<open>C39: the scanner never stores its counter: when it reboots from any reachable state, whatever
  messages it has accepted, it starts again with the counter it was flashed with, so what it
  accepted before it can be made to accept again.\<close>

theorem scanner_forgets_its_counter:
  assumes "pawr_reliable pf key_of mac" and "sc_reach pf i p0 s"
    and "key_of p0 (COUNTER_ID pf) = Some (a, d)" and "psa_key_usage_flags a = PSA_KEY_USAGE_EXPORT" and "length d \<le> 8"
  shows "cc_value (sc_counter (init_resume pf (init_enter (sc_boot pf i (psa_store s))))) = of_le (store (le_bytes 8 (0 :: u64)) 0 d)"
proof -
  have "pawr_platform pf key_of mac" using assms(1) by (simp add: pawr_reliable_def)
  from pawr_platform.sc_reach_stores [OF this assms(2,3)]
  have "key_of (psa_store s) (COUNTER_ID pf) = Some (a, d)" using assms(3) by (simp add: stores_def)
  from pawr_reliable.init_reads_counter [OF assms(1) this assms(4,5)] show ?thesis .
qed

definition flashed_keys :: key_map where
  "flashed_keys = demo_keys(COUNTER_ID demo \<mapsto> (counter_key_attributes demo (COUNTER_ID demo), le_bytes 4 (7 :: u64)))"

theorem scanner_forgets_its_counter_witness:
  "cc_value (sc_counter (init_resume demo (init_enter (sc_boot demo 1
     (psa_store (term_cb demo 8 (init_enter (sc_boot demo 1 flashed_keys)))))))) = of_le (store (le_bytes 8 (0 :: u64)) 0 (le_bytes 4 (7 :: u64)))"
proof -
  have "sc_reach demo 1 flashed_keys (term_cb demo 8 (init_enter (sc_boot demo 1 flashed_keys)))"
    by (rule sc_reach_step [OF reach_init_enter step_term])
  from scanner_forgets_its_counter [OF demo_reliable this] show ?thesis
    by (simp add: flashed_keys_def)
qed

end
