(* ===== verification/Scanner_Data.thy ===== *)
theory Scanner_Data
  imports Scanner_Props
begin

text \<open>
  The timer of the data generator and the data of the responses: the timer runs exactly while the
  scanner is registered, and the scanner answers with the pending response only once data were
  generated.
\<close>

section \<open>What a step changes\<close>

definition timer_step :: "zcall \<Rightarrow> bool \<Rightarrow> bool" where
  "timer_step c on = (case c of K_timer_start _ _ \<Rightarrow> True | K_timer_stop \<Rightarrow> False | _ \<Rightarrow> on)"

lemma timer_running_append: "timer_running (cs @ ds) = fold timer_step ds (timer_running cs)"
  by (induction ds rule: rev_induct) (auto simp: timer_step_def simp flip: append_assoc split: zcall.split)

lemmas timer_log = timer_running_append timer_step_def

definition data_inv :: "'p scanner \<Rightarrow> bool" where
  "data_inv s \<longleftrightarrow> (timer_running (zlog s) \<longleftrightarrow> sc_state s \<in> {SLEEPING, ENABLED}) \<and>
     (fault_reason s = EVT_DATA_GENERATED \<or> recv s = Ack_recv \<or> sc_state s = ENABLED \<longrightarrow> response_has_data s)"

text \<open>The callbacks leave the state of the main thread and the timer alone; the data generator is
  the only one that reports generated data, and nothing takes the data away.\<close>

definition data_frame :: "'p scanner \<Rightarrow> 'p scanner \<Rightarrow> bool" where
  "data_frame s s' \<longleftrightarrow> sc_state s' = sc_state s \<and> timer_running (zlog s') = timer_running (zlog s) \<and>
     (response_has_data s \<longrightarrow> response_has_data s') \<and> (recv s' = recv s \<or> recv s' = No_recv) \<and>
     (fault_reason s' = fault_reason s \<or> fault_reason s' \<noteq> EVT_DATA_GENERATED \<or> response_has_data s')"

lemma data_frame_inv: "data_frame s s' \<Longrightarrow> data_inv s \<Longrightarrow> data_inv s'"
  by (auto simp: data_frame_def data_inv_def)

lemma data_frame_refl [simp]: "data_frame s s"
  by (simp add: data_frame_def)

lemma data_frame_trans: "data_frame s t \<Longrightarrow> data_frame t u \<Longrightarrow> data_frame s u"
  by (auto simp: data_frame_def)

lemma callbacks_frame:
  "data_frame s (sync_cb pf sync s)" "data_frame s (term_cb pf reason s)" "data_frame s (generate_data pf (generator_config pf) s)"
  by (simp_all add: data_frame_def sync_cb_def term_cb_def generate_data_def generator_config_def data_generated_cb_def
      give_synced_evt_def zephyr_call_def zephyr_do_def Let_def)

lemma sc_verify_frame: "data_frame s (snd (snd (sc_verify pf b s)))"
  by (simp add: data_frame_def sc_verify_def split_beta Let_def)

lemma set_rsp_data_frame: "data_frame s (snd (set_rsp_data pf sync info resp s))"
  by (simp add: data_frame_def set_rsp_data_def zephyr_call_def split_beta Let_def)

lemma data_frame_updates [simp]:
  "data_frame s (t\<lparr>unconfirmed_ticks := u\<rparr>) = data_frame s t"
  "data_frame s (t\<lparr>response := r\<rparr>) = data_frame s t"
  by (simp_all add: data_frame_def)

lemma data_frame_give: "data_frame s t \<Longrightarrow> e \<noteq> EVT_DATA_GENERATED \<Longrightarrow> data_frame s (give_synced_evt pf e t)"
  by (simp add: data_frame_def give_synced_evt_def)

lemma data_frame_off: "data_frame s t \<Longrightarrow> data_frame s (t\<lparr>recv := No_recv\<rparr>)"
  by (simp add: data_frame_def)

lemma recv_dispatch_frame:
  assumes "recv s \<noteq> Register_recv"
  shows "data_frame s (recv_dispatch pf sync info buf s)"
proof (cases buf)
  case None
  with assms show ?thesis
    by (cases "recv s") (simp_all add: recv_dispatch_def confirm_recv_cb_def ack_recv_cb_def)
next
  case (Some b)
  obtain e b' t where v: "sc_verify pf b s = (e, b', t)" by (metis prod.exhaust)
  with sc_verify_frame [of s pf b] have t: "data_frame s t" by simp
  then have send: "data_frame s (snd (set_rsp_data pf sync info r u))" if "data_frame t u" for r u
    using that set_rsp_data_frame by (blast intro: data_frame_trans)
  show ?thesis
    using assms Some v t
    by (cases "recv s") (simp_all add: recv_dispatch_def confirm_recv_cb_def ack_recv_cb_def data_frame_give data_frame_off send split_beta Let_def)
qed

lemma parse_adv_data_frame: "parse_adv_data pf d s = Some (g, err, s') \<Longrightarrow> data_frame s s'"
proof -
  assume p: "parse_adv_data pf d s = Some (g, err, s')"
  have keep: "data_frame s (zephyr_do Sys_rand8_get (t\<lparr>sel_info := x, selected_slot := y\<rparr>))" if "data_frame s t" for t x y
    using that by (simp add: data_frame_def zephyr_do_def)
  show ?thesis
    using p sc_verify_frame [of s pf] keep [OF sc_verify_frame]
    by (auto simp: parse_adv_data_def Let_def split_beta split: if_splits)
qed

lemma parse_elems_frame: "parse_elems pf ds s = Some (e, s') \<Longrightarrow> data_frame s s'"
proof (induction ds arbitrary: s)
  case Nil
  then show ?case by simp
next
  case (Cons d ds)
  then obtain g err s1 where p: "parse_adv_data pf d s = Some (g, err, s1)"
    by (auto split: option.splits)
  from parse_adv_data_frame [OF p] Cons p show ?case by (auto split: if_splits intro: data_frame_trans)
qed

lemma scan_recv_cb_frame:
  assumes "scan_recv_cb pf info bytes s = Some s'"
  shows "data_frame s s'"
proof (cases "\<exists>j a. info = Some j \<and> scan_addr j = Some a \<and> scan_ext_adv j \<and> scan_interval j \<noteq> 0")
  case False
  with assms show ?thesis by (auto simp: scan_recv_cb_def split: option.splits if_splits)
next
  case True
  then obtain j a where j: "info = Some j" "scan_addr j = Some a" "scan_ext_adv j" "scan_interval j \<noteq> 0" by blast
  with assms obtain e s1 where p: "parse_elems pf (bt_data_parse_elems pf bytes) s = Some (e, s1)"
    by (auto simp: scan_recv_cb_def split: option.splits)
  have "data_frame s1 s'"
    using assms j p by (auto simp: scan_recv_cb_def data_frame_def zephyr_call_def Let_def timer_log split: if_splits)
  with parse_elems_frame [OF p] show ?thesis by (rule data_frame_trans)
qed

section \<open>The main thread\<close>

lemma init_led_timer: "timer_running (zlog (snd (init_led pf led s))) = timer_running (zlog s)"
  by (simp add: init_led_def zephyr_call_def zephyr_do_def Let_def timer_log split_beta)

lemma init_resume_data:
  assumes "data_inv s" and "sc_state s = SC_INITIALIZE"
  shows "data_inv (init_resume pf s)"
proof -
  obtain l where l: "snd (init_led pf led2 s) = s\<lparr>zlog := l\<rparr>"
    using init_led_log [of pf led2 s] by auto
  with init_led_timer [of pf led2 s] have "timer_running l = timer_running (zlog s)" by simp
  with assms show ?thesis
    by (auto simp: init_resume_def Let_def split_beta l data_inv_def zephyr_call_def zephyr_do_def sc_return_def timer_log)
qed

lemma run_state_data: "data_inv s \<Longrightarrow> sc_state s \<noteq> REGISTERING \<Longrightarrow> data_inv (sc_run_state pf s)"
  by (cases "sc_state s")
     (auto simp: sc_run_state_def data_inv_def init_enter_def handle_fault_enter_def syncing_enter_def confirming_enter_def
        sleeping_enter_def enabled_enter_def sc_wait_def sc_return_def zephyr_do_def zephyr_call_def Let_def timer_log)

lemma sc_main_data:
  assumes "data_inv s" and "sc_inv i s" and "sc_main pf s = Some s'"
  shows "data_inv s'"
proof (cases "sc_at s")
  case At_run
  with assms show ?thesis using run_state_data [of s pf] by (simp add: sc_main_def sc_inv_def)
next
  case Init_slept
  with assms init_resume_data [of s pf] show ?thesis by (simp add: sc_main_def sc_inv_def)
qed (use assms in \<open>auto simp: sc_main_def sc_inv_def data_inv_def syncing_resume_def confirming_start_def confirming_resume_def
    sleeping_resume_def enabled_resume_def data_generator_init_def data_generator_stop_def sc_wait_def sc_return_def zephyr_do_def
    Let_def timer_log split: option.splits if_splits\<close>)

context pawr_platform
begin

lemma step_data:
  assumes "sc_step pf s s'" and "sc_inv i s" and "data_inv s"
  shows "data_inv s'"
  using assms
proof cases
  case step_main
  then show ?thesis using assms sc_main_data by blast
next
  case (step_recv buf sync info)
  then show ?thesis using assms data_frame_inv recv_dispatch_frame by (metis sc_inv_def)
next
  case step_reboot
  then show ?thesis by (simp add: sc_boot_def data_inv_def)
qed (use assms data_frame_inv callbacks_frame scan_recv_cb_frame in blast)+

lemma reach_data: "sc_reach pf i p s \<Longrightarrow> sc_inv i s \<and> data_inv s"
proof (induction rule: sc_reach.induct)
  case sc_reach_boot
  then show ?case by (simp add: sc_inv_boot) (simp add: sc_boot_def data_inv_def)
next
  case (sc_reach_step s s')
  then show ?case using sc_step_inv step_data by blast
qed

end

section \<open>The property\<close>

text \<open>C30: in every reachable state of the scanner, under any interleaving of its main thread, the
  callbacks, the timer and reboots, the timer of the data generator runs exactly while the scanner
  sleeps or is enabled, and a scanner that is enabled, or whose callback for acks is installed, has
  generated data: the response it sends is never the empty initial one.\<close>

theorem timer_runs_iff_registered:
  assumes "pawr_platform pf key_of mac" and "sc_reach pf i p s"
  shows "(timer_running (zlog s) \<longleftrightarrow> sc_state s = SLEEPING \<or> sc_state s = ENABLED) \<and>
    (sc_state s = ENABLED \<or> recv s = Ack_recv \<longrightarrow> response_has_data s)"
  using pawr_platform.reach_data [OF assms] by (auto simp: data_inv_def)

theorem timer_runs_iff_registered_witness:
  "\<not> timer_running (zlog (term_cb demo 8 (init_enter (sc_boot demo 1 demo_keys))))"
proof -
  have "sc_reach demo 1 demo_keys (term_cb demo 8 (init_enter (sc_boot demo 1 demo_keys)))"
    by (rule sc_reach_step [OF reach_init_enter step_term])
  from timer_runs_iff_registered [OF demo_platform this] show ?thesis
    by (simp add: term_cb_def init_enter_def sc_boot_def sc_wait_def zephyr_do_def)
qed

end
