(* ===== verification/Scanner_Control.thy ===== *)
theory Scanner_Control
  imports Scanner_Data
begin

text \<open>
  The state machine of the scanner, without its data: what its main thread does when, as a
  deterministic automaton over what happens to the scanner. Messages enter by their reading on the
  bytes, the host by what it reports; keys, counters, buffers and responses are left out. The
  scanner's code is shown to follow this automaton in every step.
\<close>

section \<open>What happens to the scanner\<close>

datatype sc_event =
    Main_thread | Host_synced sync_ptr | Host_ended u8 | Host_message "net_buf_simple option" sync_ptr bt_le_per_adv_sync_recv_info
  | Host_advert "bt_le_scan_recv_info option" "byte list" | Timer_expired | Reboot

definition sc_exec :: "'p platform \<Rightarrow> sc_event \<Rightarrow> 'p scanner \<Rightarrow> 'p scanner option" where
  "sc_exec pf e s =
     (case e of
        Main_thread \<Rightarrow> sc_main pf s
      | Host_synced sync \<Rightarrow> Some (sync_cb pf sync s)
      | Host_ended reason \<Rightarrow> Some (term_cb pf reason s)
      | Host_message buf sync info \<Rightarrow> Some (recv_dispatch pf sync info buf s)
      | Host_advert info bytes \<Rightarrow> scan_recv_cb pf info bytes s
      | Timer_expired \<Rightarrow> if timer_running (zlog s) then Some (generate_data pf (generator_config pf) s) else None
      | Reboot \<Rightarrow> if sc_at s = Fault_slept then Some (sc_boot pf (CONFIG_SCANNER_ID s) (psa_store s)) else None)"

fun sc_event_ok :: "sc_event \<Rightarrow> bool" where
  "sc_event_ok (Host_message (Some b) sync info) \<longleftrightarrow> nb_wf b"
| "sc_event_ok e \<longleftrightarrow> True"

text \<open>These events are the steps of the system.\<close>

lemma sc_step_exec: "sc_step pf s s' \<longleftrightarrow> (\<exists>e. sc_event_ok e \<and> sc_exec pf e s = Some s')"
proof
  assume "sc_step pf s s'"
  then show "\<exists>e. sc_event_ok e \<and> sc_exec pf e s = Some s'"
  proof cases
    case step_main
    then show ?thesis by (intro exI [of _ Main_thread]) (simp add: sc_exec_def)
  next
    case (step_synced sync)
    then show ?thesis by (intro exI [of _ "Host_synced sync"]) (simp add: sc_exec_def)
  next
    case (step_term reason)
    then show ?thesis by (intro exI [of _ "Host_ended reason"]) (simp add: sc_exec_def)
  next
    case (step_recv buf sync info)
    then show ?thesis by (intro exI [of _ "Host_message buf sync info"]) (cases buf; simp add: sc_exec_def)
  next
    case (step_scan info bytes)
    then show ?thesis by (intro exI [of _ "Host_advert info bytes"]) (simp add: sc_exec_def)
  next
    case step_timer
    then show ?thesis by (intro exI [of _ Timer_expired]) (simp add: sc_exec_def)
  next
    case step_reboot
    then show ?thesis by (intro exI [of _ Reboot]) (simp add: sc_exec_def)
  qed
next
  assume "\<exists>e. sc_event_ok e \<and> sc_exec pf e s = Some s'"
  then obtain e where "sc_event_ok e" "sc_exec pf e s = Some s'" by blast
  then show "sc_step pf s s'"
    by (cases e) (auto simp: sc_exec_def split: if_splits option.splits intro: sc_step.intros elim: sc_event_ok.elims)
qed

section \<open>The automaton\<close>

text \<open>Where the main thread is: about to enter a state, inside it, or in the pause with which
  confirming begins.\<close>

datatype place = Entering sc_fsm_state | Pausing | Inside sc_fsm_state

record control =
  place :: place
  news :: "evt_t option"
  found :: bool
  listens :: recv_cb
  ticks :: u8
  generating :: bool

definition initial_control :: control where
  "initial_control = \<lparr>place = Entering SC_INITIALIZE, news = None, found = False, listens = No_recv, ticks = 0, generating = False\<rparr>"

text \<open>The latest news overwrites what has not been looked at yet. In the fault state nothing is
  waited for any more.\<close>

definition report :: "evt_t \<Rightarrow> control \<Rightarrow> control" where
  "report e c = (if place c \<in> {Entering SC_FAULT_HANDLING, Inside SC_FAULT_HANDLING} then c else c\<lparr>news := Some e\<rparr>)"

definition go_to :: "sc_fsm_state \<Rightarrow> control \<Rightarrow> control" where
  "go_to st c = c\<lparr>place := Entering st\<rparr>"

definition inside :: "sc_fsm_state \<Rightarrow> control \<Rightarrow> control" where
  "inside st c = c\<lparr>place := Inside st\<rparr>"

definition fail :: "control \<Rightarrow> control" where
  "fail c = c\<lparr>place := Entering SC_FAULT_HANDLING, news := None\<rparr>"

text \<open>Where each piece of news leads.\<close>

fun outcome :: "sc_fsm_state \<Rightarrow> evt_t \<Rightarrow> sc_fsm_state" where
  "outcome CONFIRMING EVT_NO_FAULT = SLEEPING"
| "outcome CONFIRMING EVT_INVALID_HASH = SYNCING"
| "outcome CONFIRMING EVT_CONFIRMATION_FAILED = SYNCING"
| "outcome CONFIRMING EVT_BLE_SYNC_DELETED = SYNCING"
| "outcome CONFIRMING EVT_BLE_SYNC_TIMEOUT = SYNCING"
| "outcome SLEEPING EVT_NO_FAULT = SLEEPING"
| "outcome SLEEPING EVT_DATA_GENERATED = ENABLED"
| "outcome SLEEPING EVT_INVALID_HASH = SYNCING"
| "outcome SLEEPING EVT_BLE_SYNC_TIMEOUT = SYNCING"
| "outcome ENABLED EVT_GOT_ACK = SLEEPING"
| "outcome ENABLED EVT_DATA_GENERATED = ENABLED"
| "outcome ENABLED EVT_DIDNT_RECEIVE_ACK = SYNCING"
| "outcome ENABLED EVT_INVALID_HASH = SYNCING"
| "outcome ENABLED EVT_BLE_SYNC_TIMEOUT = SYNCING"
| "outcome st e = SC_FAULT_HANDLING"

text \<open>The main thread looks at the news. The timer runs in the states in which the scanner is
  registered; the callback stays installed where neither confirming has failed nor a sleep ends.\<close>

definition react :: "sc_fsm_state \<Rightarrow> control \<Rightarrow> control option" where
  "react st c =
     (case news c of
        None \<Rightarrow> None
      | Some e \<Rightarrow>
          let st' = outcome st e;
              keeps = (st = ENABLED \<or> (st, st') \<in> {(CONFIRMING, SLEEPING), (CONFIRMING, SC_FAULT_HANDLING), (SLEEPING, SLEEPING)})
          in Some (c\<lparr>news := None, generating := st' \<in> {SLEEPING, ENABLED}, listens := (if keeps then listens c else No_recv),
                   place := (if st = SLEEPING \<and> st' = SLEEPING then Inside SLEEPING else Entering st')\<rparr>))"

definition hear_reading :: "reading \<Rightarrow> control \<Rightarrow> control" where
  "hear_reading r c =
     (let late = 4 \<le> ticks c + 1; c' = c\<lparr>ticks := ticks c + 1\<rparr>
      in case (listens c, r) of
           (Confirm_recv, Unauthentic) \<Rightarrow> report EVT_INVALID_HASH c
         | (Confirm_recv, Ack _) \<Rightarrow> report EVT_NO_FAULT c
         | (Confirm_recv, Nack _) \<Rightarrow> if late then report EVT_CONFIRMATION_FAILED c' else c'
         | (Ack_recv, Unauthentic) \<Rightarrow> report EVT_INVALID_HASH c
         | (Ack_recv, Ack _) \<Rightarrow> report EVT_GOT_ACK (c\<lparr>listens := No_recv\<rparr>)
         | (Ack_recv, Nack _) \<Rightarrow> if late then report EVT_DIDNT_RECEIVE_ACK c' else c'
         | _ \<Rightarrow> c)"

text \<open>What the automaton sees of an event. The main thread's step carries whether the host and
  PSA do what is asked of them in it.\<close>

datatype stimulus = Thread bool | Message reading | Ended u8 | Advert bool | Data | Restart | Nothing | Undefined

fun control_next :: "stimulus \<Rightarrow> control \<Rightarrow> control option" where
  "control_next (Thread ok) c =
     (case place c of
        Entering SYNCING \<Rightarrow> Some (if ok then inside SYNCING c else fail c)
      | Entering CONFIRMING \<Rightarrow> Some (c\<lparr>place := Pausing, ticks := 0\<rparr>)
      | Entering ENABLED \<Rightarrow> Some (inside ENABLED (c\<lparr>listens := Ack_recv, ticks := 0\<rparr>))
      | Entering st \<Rightarrow> Some (inside st c)
      | Pausing \<Rightarrow> Some (inside CONFIRMING (c\<lparr>listens := Confirm_recv\<rparr>))
      | Inside SC_INITIALIZE \<Rightarrow> Some (if ok then go_to SYNCING c else fail c)
      | Inside SYNCING \<Rightarrow> if found c then Some (go_to CONFIRMING (c\<lparr>found := False\<rparr>)) else None
      | Inside SC_FAULT_HANDLING \<Rightarrow> None
      | Inside st \<Rightarrow> react st c)"
| "control_next (Message r) c = Some (hear_reading r c)"
| "control_next (Ended reason) c = Some (report (if reason = 22 then EVT_BLE_SYNC_DELETED else EVT_BLE_SYNC_TIMEOUT) c)"
| "control_next (Advert taken) c = Some (c\<lparr>found := found c \<or> taken\<rparr>)"
| "control_next Data c = (if generating c then Some (report EVT_DATA_GENERATED c) else None)"
| "control_next Restart c = (if place c = Inside SC_FAULT_HANDLING then Some initial_control else None)"
| "control_next Nothing c = Some c"
| "control_next Undefined c = None"

section \<open>The scanner as such an automaton\<close>

text \<open>Whether \<open>init\<close> and the start of a scan succeed.\<close>

definition init_succeeds :: "'p platform \<Rightarrow> 'p scanner \<Rightarrow> bool" where
  "init_succeeds pf s \<longleftrightarrow>
     fst (crypto_init pf (psa_store s)) = PSA_SUCCESS \<and>
     fst (crypto_secure_counter_init pf (sc_counter s) (snd (crypto_init pf (psa_store s)))) = PSA_SUCCESS \<and>
     zephyr_ret pf (zlog (snd (init_led pf led2 s))) Bt_enable = 0"

definition scan_begins :: "'p platform \<Rightarrow> 'p scanner \<Rightarrow> bool" where
  "scan_begins pf s \<longleftrightarrow>
     zephyr_ret pf (zlog s @ (if default_sync s = None then [] else [Bt_le_per_adv_sync_delete (default_sync s)]) @
       [Bt_le_per_adv_sync_cb_register]) Bt_le_scan_start = 0"

text \<open>Whether an advertisement is taken: from a periodic advertiser, parsed without an error, and
  the host creates the sync and stops scanning.\<close>

definition advert_taken :: "'p platform \<Rightarrow> bt_le_scan_recv_info option \<Rightarrow> byte list \<Rightarrow> 'p scanner \<Rightarrow> bool option" where
  "advert_taken pf info bytes s =
     (case info of
        None \<Rightarrow> Some False
      | Some j \<Rightarrow>
          if scan_addr j = None \<or> \<not> scan_ext_adv j \<or> scan_interval j = 0 then Some False
          else
            case parse_elems pf (bt_data_parse_elems pf bytes) s of
              None \<Rightarrow> None
            | Some (err, t) \<Rightarrow>
                let create = Bt_le_per_adv_sync_create \<lparr>sync_addr = the (scan_addr j), sync_options = 0, sync_sid = scan_sid j,
                      sync_skip = 0, sync_timeout = sync_timeout_of (scan_interval j)\<rparr>
                in Some (err = TRANSFER_NO_ERROR \<and> zephyr_ret pf (zlog t) create = 0 \<and>
                     zephyr_ret pf (zlog t @ [create]) Bt_le_scan_stop = 0))"

definition stimulus_of :: "'p platform \<Rightarrow> 'p scanner \<Rightarrow> sc_event \<Rightarrow> stimulus" where
  "stimulus_of pf s e =
     (case e of
        Main_thread \<Rightarrow> Thread (if sc_at s = Init_slept then init_succeeds pf s else scan_begins pf s)
      | Host_synced sync \<Rightarrow> Nothing
      | Host_ended reason \<Rightarrow> Ended reason
      | Host_message buf sync info \<Rightarrow>
          (case buf of None \<Rightarrow> Nothing | Some b \<Rightarrow> if nb_len b = 0 then Nothing else Message (sc_reading pf s (nb_data b)))
      | Host_advert info bytes \<Rightarrow> (case advert_taken pf info bytes s of None \<Rightarrow> Undefined | Some taken \<Rightarrow> Advert taken)
      | Timer_expired \<Rightarrow> Data
      | Reboot \<Rightarrow> Restart)"

definition place_of :: "sc_point \<Rightarrow> sc_fsm_state \<Rightarrow> place" where
  "place_of at st = (case at of At_run \<Rightarrow> Entering st | Confirming_slept \<Rightarrow> Pausing | _ \<Rightarrow> Inside st)"

definition control_of :: "'p scanner \<Rightarrow> control" where
  "control_of s =
     \<lparr>place = place_of (sc_at s) (sc_state s),
      news = (if sc_state s \<noteq> SC_FAULT_HANDLING \<and> sem_count (synced_evt_sem s) = 1 then Some (fault_reason s) else None),
      found = (sem_count (synced_sem s) = 1), listens = recv s, ticks = unconfirmed_ticks s, generating = timer_running (zlog s)\<rparr>"

lemma in_fault: "sc_inv i s \<Longrightarrow> place_of (sc_at s) (sc_state s) \<in> {Entering SC_FAULT_HANDLING, Inside SC_FAULT_HANDLING} \<longleftrightarrow>
    sc_state s = SC_FAULT_HANDLING"
  by (cases "sc_at s") (auto simp: place_of_def sc_inv_def)

lemma control_boot: "control_of (sc_boot pf i p) = initial_control"
  by (simp add: control_of_def sc_boot_def place_of_def initial_control_def new_sem_def)

text \<open>The fields that the callbacks leave alone, and what giving the semaphore amounts to.\<close>

definition same_place :: "'p scanner \<Rightarrow> 'p scanner \<Rightarrow> bool" where
  "same_place s t \<longleftrightarrow> sc_at t = sc_at s \<and> sc_state t = sc_state s \<and> synced_sem t = synced_sem s \<and>
     timer_running (zlog t) = timer_running (zlog s)"

definition same_control :: "'p scanner \<Rightarrow> 'p scanner \<Rightarrow> bool" where
  "same_control s t \<longleftrightarrow> same_place s t \<and> synced_evt_sem t = synced_evt_sem s \<and> fault_reason t = fault_reason s \<and>
     recv t = recv s \<and> unconfirmed_ticks t = unconfirmed_ticks s"

lemma same_control_refl [simp]: "same_control s s"
  by (simp add: same_control_def same_place_def)

lemma recv_same_place:
  assumes "recv s \<noteq> Register_recv"
  shows "same_place s (recv_dispatch pf sync info buf s)"
proof -
  have "synced_sem (recv_dispatch pf sync info buf s) = synced_sem s"
    by (auto simp: recv_dispatch_def register_recv_cb_def confirm_recv_cb_def ack_recv_cb_def sc_verify_def set_rsp_data_def
        give_synced_evt_def zephyr_call_def Let_def split: recv_cb.split option.split prod.split)
  with recv_dispatch_frame [OF assms, of pf sync info buf] show ?thesis
    by (simp add: same_place_def recv_cbs_state data_frame_def)
qed

lemma control_same:
  assumes "same_place s t" and "synced_evt_sem t = synced_evt_sem s" and "fault_reason t = fault_reason s"
  shows "control_of t = (control_of s)\<lparr>listens := recv t, ticks := unconfirmed_ticks t\<rparr>"
  using assms by (simp add: control_of_def same_place_def)

context pawr_platform
begin

lemma control_given:
  assumes "sc_inv i s" and "same_place s t" and "t = give_synced_evt pf e u" and "synced_evt_sem u = synced_evt_sem s"
  shows "control_of t = (report e (control_of s))\<lparr>listens := recv u, ticks := unconfirmed_ticks u\<rparr>"
proof -
  have "synced_evt_sem t = k_sem_give pf (synced_evt_sem s)" "fault_reason t = e" "recv t = recv u" "unconfirmed_ticks t = unconfirmed_ticks u"
    by (simp_all add: assms(3,4) give_synced_evt_def)
  moreover from this assms(1) have "sem_count (synced_evt_sem t) = 1" by (simp add: sc_inv_def sem_ok_def sem_give)
  ultimately show ?thesis
    using assms(2) in_fault [OF assms(1)] by (auto simp: control_of_def report_def same_place_def)
qed

text \<open>A message.\<close>

lemma report_fields [simp]: "listens (report e c) = listens c" "ticks (report e c) = ticks c"
  by (simp_all add: report_def)

lemma control_fields: "listens (control_of s) = recv s" "ticks (control_of s) = unconfirmed_ticks s"
  by (simp_all add: control_of_def)

lemma report_update: "report e (c\<lparr>ticks := u\<rparr>) = (report e c)\<lparr>ticks := u\<rparr>" "report e (c\<lparr>listens := r\<rparr>) = (report e c)\<lparr>listens := r\<rparr>"
  by (simp_all add: report_def)

lemma report_same: "(report e (control_of s))\<lparr>listens := recv s, ticks := u\<rparr> = (report e (control_of s))\<lparr>ticks := u\<rparr>"
    "(report e (control_of s))\<lparr>listens := r, ticks := unconfirmed_ticks s\<rparr> = (report e (control_of s))\<lparr>listens := r\<rparr>"
    "(report e (control_of s))\<lparr>ticks := unconfirmed_ticks s\<rparr> = report e (control_of s)"
    "(control_of s)\<lparr>listens := recv s, ticks := u\<rparr> = (control_of s)\<lparr>ticks := u\<rparr>"
  by (simp_all add: report_def control_of_def)

lemmas hears = hear_reading_def control_fields report_update Let_def report_same

lemma ack_recv_control:
  assumes inv: "sc_inv i s" and wf: "nb_wf b" and ne: "nb_len b \<noteq> 0" and slot: "slot_in_range s" and r: "recv s = Ack_recv"
  shows "control_of (ack_recv_cb pf sync info (Some b) s) = hear_reading (sc_reading pf s (nb_data b)) (control_of s)"
proof -
  let ?s = "ack_recv_cb pf sync info (Some b) s"
  have same: "same_place s ?s"
    using recv_same_place [of s pf sync info "Some b"] r by (simp add: recv_dispatch_def)
  show ?thesis
    using pawr_platform_axioms wf length_stray_acks(1) [of pf] slot
  proof (cases rule: reading_cases)
    case (unauthentic e b' p')
    then have "?s = give_synced_evt pf EVT_INVALID_HASH (sc_with (cc_value (sc_counter s)) p' s)" using ne by (simp add: ack_recv_cb_def)
    from control_given [OF inv same this] show ?thesis by (simp add: unauthentic(1) hears r)
  next
    case (ack b' c' p' d b'')
    then have "?s = give_synced_evt pf EVT_GOT_ACK ((sc_with c' p' s)\<lparr>recv := No_recv\<rparr>)" using ne by (simp add: ack_recv_cb_def own_ack_def)
    from control_given [OF inv same this] show ?thesis by (simp add: ack(1) hears r)
  next
    case (nack b' c' p' err d b'')
    let ?u = "(sc_with c' p' s)\<lparr>unconfirmed_ticks := unconfirmed_ticks s + 1\<rparr>"
    show ?thesis
    proof (cases "4 \<le> unconfirmed_ticks s + 1")
      case True
      then have "?s = give_synced_evt pf EVT_DIDNT_RECEIVE_ACK ?u"
        using nack ne by (auto simp: ack_recv_cb_def Let_def CONFIG_MAX_UNCONFIRMED_TICKS_def)
      from control_given [OF inv same this] True show ?thesis by (simp add: nack(1) hears r)
    next
      case False
      then have "\<exists>resp v. ?s = snd (set_rsp_data pf sync info resp (?u\<lparr>response := v\<rparr>))"
        using nack ne by (auto simp: ack_recv_cb_def Let_def CONFIG_MAX_UNCONFIRMED_TICKS_def)
      then have f: "synced_evt_sem ?s = synced_evt_sem s" "fault_reason ?s = fault_reason s" "recv ?s = recv s"
          "unconfirmed_ticks ?s = unconfirmed_ticks s + 1"
        by (auto simp: set_rsp_data_keeps)
      from control_same [OF same f(1,2)] False show ?thesis by (simp add: f nack(1) hears r)
    qed
  qed
qed

lemma confirm_recv_control:
  assumes inv: "sc_inv i s" and wf: "nb_wf b" and ne: "nb_len b \<noteq> 0" and slot: "slot_in_range s" and r: "recv s = Confirm_recv"
  shows "control_of (confirm_recv_cb pf sync info (Some b) s) = hear_reading (sc_reading pf s (nb_data b)) (control_of s)"
proof -
  let ?s = "confirm_recv_cb pf sync info (Some b) s"
  have same: "same_place s ?s"
    using recv_same_place [of s pf sync info "Some b"] r by (simp add: recv_dispatch_def)
  show ?thesis
    using pawr_platform_axioms wf length_stray_acks(2) slot
  proof (cases rule: reading_cases)
    case (unauthentic e b' p')
    then have "?s = give_synced_evt pf EVT_INVALID_HASH (sc_with (cc_value (sc_counter s)) p' s)" using ne by (simp add: confirm_recv_cb_def)
    from control_given [OF inv same this] show ?thesis by (simp add: unauthentic(1) hears r)
  next
    case (ack b' c' p' d b'')
    then have "?s = give_synced_evt pf EVT_NO_FAULT (sc_with c' p' s)" using ne by (simp add: confirm_recv_cb_def Let_def)
    from control_given [OF inv same this] show ?thesis by (simp add: ack(1) hears r)
  next
    case (nack b' c' p' err d b'')
    define v where "v = snd (set_rsp_data pf sync info
      \<lparr>rsp_metadata = rsp_data_i s, rsp_data = [], data_len = 0, resp_counter = c'\<rparr> (sc_with c' p' s))"
    have v: "synced_evt_sem v = synced_evt_sem s" "fault_reason v = fault_reason s" "recv v = recv s" "unconfirmed_ticks v = unconfirmed_ticks s"
      by (simp_all add: v_def set_rsp_data_keeps)
    have s: "?s = (let u = v\<lparr>unconfirmed_ticks := unconfirmed_ticks s + 1\<rparr>
        in if 4 \<le> unconfirmed_ticks s + 1 then give_synced_evt pf EVT_CONFIRMATION_FAILED u else u)"
      using nack ne v(4) by (auto simp: confirm_recv_cb_def Let_def CONFIG_MAX_UNCONFIRMED_TICKS_def split_beta simp flip: v_def)
    show ?thesis
    proof (cases "4 \<le> unconfirmed_ticks s + 1")
      case True
      then have "?s = give_synced_evt pf EVT_CONFIRMATION_FAILED
          (v\<lparr>unconfirmed_ticks := unconfirmed_ticks s + 1\<rparr>)"
        by (simp add: s)
      from control_given [OF inv same this] True show ?thesis by (simp add: nack(1) hears r v)
    next
      case False
      then have f: "synced_evt_sem ?s = synced_evt_sem s" "fault_reason ?s = fault_reason s" "recv ?s = recv s"
          "unconfirmed_ticks ?s = unconfirmed_ticks s + 1"
        by (simp_all add: s v)
      from control_same [OF same f(1,2)] False show ?thesis by (simp add: f nack(1) hears r)
    qed
  qed
qed

lemma message_control:
  assumes "sc_inv i s" and "slot_in_range s" and "sc_event_ok (Host_message buf sync info)"
  shows "Some (control_of (recv_dispatch pf sync info buf s)) = control_next (stimulus_of pf s (Host_message buf sync info)) (control_of s)"
proof (cases "buf = None \<or> nb_len (the buf) = 0")
  case True
  with assms(1) show ?thesis
    by (cases rule: recv_dispatch_cases [of i s pf sync info buf])
       (auto simp: stimulus_of_def confirm_recv_cb_def ack_recv_cb_def split: option.splits)
next
  case False
  then obtain b where b: "buf = Some b" "nb_len b \<noteq> 0" by auto
  with assms(3) have wf: "nb_wf b" by simp
  from assms(1) show ?thesis
  proof (cases rule: recv_dispatch_cases [of i s pf sync info buf])
    case 1
    then show ?thesis using b by (simp add: stimulus_of_def hear_reading_def control_fields)
  next
    case 2
    then show ?thesis using b confirm_recv_control [OF assms(1) wf b(2) assms(2)] by (simp add: stimulus_of_def)
  next
    case 3
    then show ?thesis using b ack_recv_control [OF assms(1) wf b(2) assms(2)] by (simp add: stimulus_of_def)
  qed
qed

text \<open>The other callbacks.\<close>

lemma term_control:
  assumes "sc_inv i s"
  shows "control_of (term_cb pf reason s) = report (if reason = 22 then EVT_BLE_SYNC_DELETED else EVT_BLE_SYNC_TIMEOUT) (control_of s)"
proof -
  let ?e = "if reason = 22 then EVT_BLE_SYNC_DELETED else EVT_BLE_SYNC_TIMEOUT"
  have "term_cb pf reason s = give_synced_evt pf ?e (s\<lparr>default_sync := None\<rparr>)"
    by (simp add: term_cb_def give_synced_evt_def)
  from control_given [OF assms _ this] show ?thesis by (simp add: same_place_def term_cb_def Let_def report_same)
qed

lemma timer_control:
  assumes "sc_inv i s"
  shows "control_of (generate_data pf (generator_config pf) s) = report EVT_DATA_GENERATED (control_of s)"
proof -
  let ?s = "generate_data pf (generator_config pf) s"
  obtain l b where l: "l = zlog s @ [Sys_rand_get (nb_len (random_buf s))]" and
    s: "?s = data_generated_cb pf (s\<lparr>zlog := l, random_buf := b\<rparr>)"
    by (simp add: generate_data_def generator_config_def zephyr_do_def Let_def)
  have "?s = give_synced_evt pf EVT_DATA_GENERATED (s\<lparr>zlog := l, random_buf := b,
      rsp_data_i := (rsp_data_i s)\<lparr>rsp_counter := rsp_counter (rsp_data_i s) + 1\<rparr>,
      response := (response s)\<lparr>rsp_metadata := (rsp_data_i s)\<lparr>rsp_counter := rsp_counter (rsp_data_i s) + 1\<rparr>,
        data_len := of_nat UNUSED_DATA_LEN\<rparr>, response_has_data := True\<rparr>)"
    unfolding s data_generated_cb_def Let_def by simp
  moreover have "same_place s ?s"
    unfolding calculation by (simp add: same_place_def give_synced_evt_def l)
  ultimately have "\<exists>u. ?s = give_synced_evt pf EVT_DATA_GENERATED u \<and> synced_evt_sem u = synced_evt_sem s \<and> recv u = recv s \<and>
      unconfirmed_ticks u = unconfirmed_ticks s \<and> same_place s ?s"
    by (intro exI conjI) (assumption, simp_all)
  then obtain u where u: "?s = give_synced_evt pf EVT_DATA_GENERATED u" "synced_evt_sem u = synced_evt_sem s" "recv u = recv s"
      "unconfirmed_ticks u = unconfirmed_ticks s" "same_place s ?s"
    by blast
  from control_given [OF assms u(5,1,2)] show ?thesis by (simp add: u(3,4) report_same)
qed

lemma sc_verify_same: "same_control s (snd (snd (sc_verify pf b s)))"
  by (simp add: same_control_def same_place_def sc_verify_def split_beta Let_def)

lemma parse_adv_data_keeps:
  assumes "parse_adv_data pf d s = Some (g, e, t)"
  shows "same_control s t"
proof -
  have "same_control s (zephyr_do Sys_rand8_get (u\<lparr>sel_info := x, selected_slot := y\<rparr>))" if "same_control s u" for u x y
    using that by (simp add: same_control_def same_place_def zephyr_do_def)
  from assms sc_verify_same this [OF sc_verify_same] show ?thesis
    by (auto simp: parse_adv_data_def Let_def split_beta split: if_splits)
qed

lemma parse_elems_keeps: "parse_elems pf ds s = Some (e, t) \<Longrightarrow> same_control s t"
proof (induction ds arbitrary: s)
  case Nil
  then show ?case by (simp add: same_control_def same_place_def)
next
  case (Cons d ds)
  then obtain g err s1 where p: "parse_adv_data pf d s = Some (g, err, s1)"
    by (auto split: option.splits)
  from parse_adv_data_keeps [OF p] Cons p show ?case by (auto simp: same_control_def same_place_def split: if_splits)
qed

lemma scan_control:
  assumes "sc_inv i s"
  shows "map_option control_of (scan_recv_cb pf info bytes s) = control_next (stimulus_of pf s (Host_advert info bytes)) (control_of s)"
proof (cases "\<exists>j a. info = Some j \<and> scan_addr j = Some a \<and> scan_ext_adv j \<and> scan_interval j \<noteq> 0")
  case False
  then show ?thesis
    by (auto simp: scan_recv_cb_def stimulus_of_def advert_taken_def split: option.splits)
next
  case True
  then obtain j a where j: "info = Some j" "scan_addr j = Some a" "scan_ext_adv j" "scan_interval j \<noteq> 0" by blast
  show ?thesis
  proof (cases "parse_elems pf (bt_data_parse_elems pf bytes) s")
    case None
    then show ?thesis by (simp add: scan_recv_cb_def stimulus_of_def advert_taken_def j)
  next
    case (Some p)
    then obtain e t where p: "parse_elems pf (bt_data_parse_elems pf bytes) s = Some (e, t)" by (cases p) simp
    note k = parse_elems_keeps [OF p, unfolded same_control_def same_place_def]
    have one: "sem_count (k_sem_give pf (synced_sem t)) = 1" using assms k by (simp add: sc_inv_def sem_ok_def sem_give)
    show ?thesis
      using k one p by (simp add: scan_recv_cb_def stimulus_of_def advert_taken_def j zephyr_call_def control_of_def timer_log Let_def)
  qed
qed

end

text \<open>The main thread.\<close>

lemma sc_inv_state: "sc_inv i s \<Longrightarrow> sc_state s \<noteq> REGISTERING"
  by (simp add: sc_inv_def)

lemma enter_control:
  assumes "sc_inv i s" and "sc_at s = At_run"
  shows "Some (control_of (sc_run_state pf s)) = control_next (stimulus_of pf s Main_thread) (control_of s)"
  using assms(2) sc_inv_state [OF assms(1)]
  by (cases "sc_state s")
     (simp_all add: sc_run_state_def stimulus_of_def control_of_def place_of_def inside_def fail_def scan_begins_def init_enter_def
       handle_fault_enter_def syncing_enter_def registering_enter_def confirming_enter_def sleeping_enter_def enabled_enter_def
       sc_wait_def sc_return_def zephyr_do_def zephyr_call_def timer_log Let_def)

lemma init_control:
  assumes "sc_inv i s" and "sc_at s = Init_slept"
  shows "Some (control_of (init_resume pf s)) = control_next (stimulus_of pf s Main_thread) (control_of s)"
proof -
  obtain l where l: "snd (init_led pf led2 s) = s\<lparr>zlog := l\<rparr>" "timer_running l = timer_running (zlog s)"
    using init_led_log [of pf led2 s] init_led_timer [of pf led2 s] by auto
  have "sc_state s = SC_INITIALIZE" using assms by (simp add: sc_inv_def)
  then show ?thesis
    using assms(2) l(2)
    by (simp add: init_resume_def stimulus_of_def init_succeeds_def split_beta l(1) Let_def control_of_def place_of_def go_to_def fail_def
        sc_return_def zephyr_call_def zephyr_do_def timer_log)
qed

context pawr_platform
begin

lemma confirming_control:
  assumes "sc_inv i s" and "data_inv s" and "sc_state s = CONFIRMING"
  shows "map_option control_of (confirming_resume pf s) = react CONFIRMING (control_of s)"
proof (cases "sem_count (synced_evt_sem s) = 1")
  case True
  then show ?thesis
    using assms
    by (cases "fault_reason s")
       (simp_all add: confirming_resume_def react_def control_of_def place_of_def sem_take sem_reset sc_return_def data_inv_def data_generator_init_def
         zephyr_do_def Let_def)
next
  case False
  with assms(1) have "sem_count (synced_evt_sem s) = 0" by (simp add: sc_inv_def sem_ok_def)
  then show ?thesis by (simp add: confirming_resume_def react_def control_of_def sem_take)
qed

lemma sleeping_control:
  assumes "sc_inv i s" and "data_inv s" and "sc_state s = SLEEPING" and "sc_at s = Sleeping_wait"
  shows "map_option control_of (sleeping_resume pf s) = react SLEEPING (control_of s)"
proof (cases "sem_count (synced_evt_sem s) = 1")
  case True
  then show ?thesis
    using assms
    by (cases "fault_reason s")
       (simp_all add: sleeping_resume_def react_def control_of_def place_of_def sem_take sem_init sc_return_def data_inv_def data_generator_stop_def
         zephyr_do_def Let_def)
next
  case False
  with assms(1) have "sem_count (synced_evt_sem s) = 0" by (simp add: sc_inv_def sem_ok_def)
  then show ?thesis by (simp add: sleeping_resume_def react_def control_of_def sem_take)
qed

lemma enabled_control:
  assumes "sc_inv i s" and "data_inv s" and "sc_state s = ENABLED"
  shows "map_option control_of (enabled_resume pf s) = react ENABLED (control_of s)"
proof (cases "sem_count (synced_evt_sem s) = 1")
  case True
  then show ?thesis
    using assms
    by (cases "fault_reason s")
       (simp_all add: enabled_resume_def react_def control_of_def place_of_def sem_take sem_reset sc_return_def data_inv_def data_generator_stop_def
         zephyr_do_def Let_def)
next
  case False
  with assms(1) have "sem_count (synced_evt_sem s) = 0" by (simp add: sc_inv_def sem_ok_def)
  then show ?thesis by (simp add: enabled_resume_def react_def control_of_def sem_take)
qed

lemma syncing_control:
  assumes "sc_inv i s" and "sc_at s = Syncing_wait"
  shows "map_option control_of (syncing_resume pf s) = control_next (Thread ok) (control_of s)"
proof (cases "sem_count (synced_sem s) = 1")
  case True
  then show ?thesis
    using assms by (simp add: syncing_resume_def control_of_def place_of_def go_to_def sem_take sem_reset sc_return_def sc_inv_def)
next
  case False
  with assms(1) have "sem_count (synced_sem s) = 0" by (simp add: sc_inv_def sem_ok_def)
  then show ?thesis using assms by (simp add: syncing_resume_def control_of_def place_of_def sem_take sc_inv_def)
qed

lemma main_control:
  assumes "sc_inv i s" and "data_inv s"
  shows "map_option control_of (sc_main pf s) = control_next (stimulus_of pf s Main_thread) (control_of s)"
proof (cases "sc_at s")
  case At_run
  with enter_control [OF assms(1)] show ?thesis by (simp add: sc_main_def)
next
  case Init_slept
  with init_control [OF assms(1)] show ?thesis by (simp add: sc_main_def)
next
  case Syncing_wait
  with syncing_control [OF assms(1)] show ?thesis by (simp add: sc_main_def stimulus_of_def)
next
  case Confirming_slept
  then show ?thesis
    by (simp add: sc_main_def stimulus_of_def confirming_start_def control_of_def place_of_def inside_def sc_wait_def) (use assms in \<open>simp add: sc_inv_def\<close>)
next
  case Confirming_wait
  with assms have "sc_state s = CONFIRMING" "place (control_of s) = Inside CONFIRMING" by (simp_all add: sc_inv_def control_of_def place_of_def)
  with confirming_control [OF assms] Confirming_wait show ?thesis by (simp add: sc_main_def stimulus_of_def)
next
  case Sleeping_wait
  with assms have "sc_state s = SLEEPING" "place (control_of s) = Inside SLEEPING" by (simp_all add: sc_inv_def control_of_def place_of_def)
  with sleeping_control [OF assms] Sleeping_wait show ?thesis by (simp add: sc_main_def stimulus_of_def)
next
  case Enabled_wait
  with assms have "sc_state s = ENABLED" "place (control_of s) = Inside ENABLED" by (simp_all add: sc_inv_def control_of_def place_of_def)
  with enabled_control [OF assms] Enabled_wait show ?thesis by (simp add: sc_main_def stimulus_of_def)
qed (use assms in \<open>auto simp: sc_main_def sc_inv_def stimulus_of_def control_of_def place_of_def\<close>)

lemma exec_control:
  assumes "sc_inv i s" and "data_inv s" and "slot_in_range s" and "sc_event_ok e"
  shows "map_option control_of (sc_exec pf e s) = control_next (stimulus_of pf s e) (control_of s)"
proof (cases e)
  case Main_thread
  with main_control [OF assms(1,2)] show ?thesis by (simp add: sc_exec_def)
next
  case (Host_synced sync)
  then show ?thesis by (simp add: sc_exec_def stimulus_of_def sync_cb_def control_of_def zephyr_call_def timer_log Let_def)
next
  case (Host_ended reason)
  with term_control [OF assms(1)] show ?thesis by (simp add: sc_exec_def stimulus_of_def)
next
  case (Host_message buf sync info)
  with message_control [OF assms(1,3)] assms(4) show ?thesis by (simp add: sc_exec_def)
next
  case (Host_advert info bytes)
  with scan_control [OF assms(1)] show ?thesis by (simp add: sc_exec_def)
next
  case Timer_expired
  with timer_control [OF assms(1)] show ?thesis by (simp add: sc_exec_def stimulus_of_def) (simp add: control_of_def)
next
  case Reboot
  have "place (control_of s) = Inside SC_FAULT_HANDLING \<longleftrightarrow> sc_at s = Fault_slept"
    using assms(1) by (cases "sc_at s") (auto simp: control_of_def place_of_def sc_inv_def)
  with Reboot show ?thesis by (simp add: sc_exec_def stimulus_of_def control_boot)
qed

end

section \<open>The property\<close>

text \<open>C36: the scanner follows its state machine in every step: in every reachable state and for
  every event (a step of the main thread, a message, the end of a sync, an advertisement, the expiry of
  the timer, a reboot), what becomes of the state, the news, the ticks, the installed callback and the timer
  is what the automaton \<open>control_next\<close> says on the bytes of the message and the reports of the host, and the
  main thread is blocked exactly when the automaton is. So it goes on from the confirmation to sleeping only
  when it was confirmed, from enabled to sleeping only on an ack and to syncing only on missed acks, a
  rejected message or the loss of the sync, and never to the registering state that the comments of the confirmation
  callback promise on a failed confirmation.\<close>

theorem scanner_state_machine:
  assumes "pawr_platform pf key_of mac" and "sc_reach pf i p s" and "slot_in_range s" and "sc_event_ok e"
  shows "map_option control_of (sc_exec pf e s) = control_next (stimulus_of pf s e) (control_of s)"
  using pawr_platform.reach_data [OF assms(1,2)] pawr_platform.exec_control [OF assms(1) _ _ assms(3,4)] by blast

text \<open>A sync that ends while the scanner boots.\<close>

theorem scanner_state_machine_witness:
  "news (control_of (term_cb demo 22 (init_enter (sc_boot demo 1 demo_keys)))) = Some EVT_BLE_SYNC_DELETED"
proof -
  let ?s = "init_enter (sc_boot demo 1 demo_keys)"
  have slot: "slot_in_range ?s"
    by (simp add: slot_in_range_def init_enter_def sc_boot_def sc_wait_def zephyr_do_def SCANNER_RSP_SLOTS_def)
  have "place (control_of ?s) = Inside SC_INITIALIZE"
    by (simp add: control_of_def init_enter_def sc_boot_def sc_wait_def zephyr_do_def place_of_def)
  with scanner_state_machine [OF demo_platform reach_init_enter slot, of "Host_ended 22"] show ?thesis
    by (simp add: sc_exec_def stimulus_of_def report_def)
qed

end
