(* ===== verification/Exchange.thy ===== *)
theory Exchange
  imports Advertiser_Props Scanner_Props Protocol
begin

text \<open>
  Two periods of the radio, callback by callback: how the answer of one period leads to the
  acknowledgement of the next, for a registration and for data.
\<close>

section \<open>Registration and delivery\<close>

text \<open>A scanner with a free slot registers in two periods of the advertiser, provided the two
  share their keys: the message of the first period makes it answer, the advertiser takes the
  answer and makes it the holder of the slot, and the message of the second period confirms it.\<close>

lemma registration_completes:
  assumes "pawr_reliable pf key_of mac" and "pawr_reliable pf' key_of' mac" and "adv_sim key_of keys (mac ka) s a"
    and "key_is keys (ADVERTISER_KEY_ID pf) ka" and "key_is keys (scanner_key_id pf i) ks"
    and "key_is (key_of' (psa_store t)) (ADVERTISER_KEY_ID pf') ka" and "key_is (key_of' (psa_store t)) (MIN_SCANNER_KEY_ID pf') ks"
    and "sc_inv i t" and "i \<noteq> 0" and "slot_in_range t" and "cc_value (sc_counter t) \<le> period_counter a"
    and "unconfirmed_ticks t = 0" and "sub < MAX_NUM_SUBEVENTS" and "recv_subevent info = of_nat sub"
    and "view (rsp_slots s ! sub ! unat (rsp_slot (selected_slot t))) = Free"
    and "unat (a_counter a) + unat (a_pending a) + 3 < 2 ^ 64"
    and "s1 = request_cb pf full_period s" and "t1 = confirm_recv_cb pf' sync info (Some (buf_of (new_messages s s1 ! sub))) t"
  shows "\<exists>params m. zlog t1 = zlog t @ [Bt_le_per_adv_set_response_data sync params m] \<and>
    (\<forall>rssi info' s2 t2. s2 = response_cb pf (info_of params rssi) (Some (buf_of m)) s1 \<longrightarrow>
       t2 = confirm_recv_cb pf' sync info' (Some (buf_of (new_messages s2 (request_cb pf full_period s2) ! sub))) t1 \<longrightarrow>
       view (rsp_slots s2 ! sub ! unat (rsp_slot (selected_slot t))) = Held i 0 \<and> fault_reason t2 = EVT_NO_FAULT)"
proof -
  let ?b = "buf_of (new_messages s s1 ! sub)"
  let ?r = "\<lparr>rsp_metadata = rsp_data_i t, rsp_data = [], data_len = 0, resp_counter = period_counter a\<rparr>"
  have pf': "pawr_platform pf' key_of' mac" using assms(2) by (simp add: pawr_reliable_def)
  have id: "CONFIG_SCANNER_ID t = i" "sender_id (rsp_data_i t) = i" using assms(8) by (simp_all add: sc_inv_def)
  note m = period_message [OF assms(1-4,6,13,10,11), folded assms(17)]
  have nack: "sc_reading pf' t (nb_data ?b) = Nack (period_counter a)" and ne: "nb_len ?b \<noteq> 0"
    using m assms(9,15) id by simp_all
  have few: "\<not> (4 :: u8) \<le> 1" by (simp add: word_le_nat_alt)
  from confirm_recv_reading [OF pf' assms(8) _ ne assms(10,18)] nack obtain p where
    c: "cc_value (sc_counter t1) = period_counter a + 1" and p: "key_of' p = key_of' (psa_store t)"
    and resp: "responded pf' sync info ?r t t1 p"
    by auto
  have inv: "sc_inv i t1" unfolding assms(18) by (rule pawr_platform.confirm_recv_cb_inv [OF pf' assms(8)])
  have keys: "key_of' (psa_store t1) = key_of' (psa_store t)"
    using pawr_platform.recv_cbs_store(2) [OF pf', of "key_of' (psa_store t)" "storage_uid (sc_counter t)" sync info "Some ?b" t]
    by (simp add: assms(18) stores_def)
  have slot: "selected_slot t1 = selected_slot t" by (simp add: assms(18) confirm_recv_keeps_slot)
  have wire: "response_sender (response_wire ?r) = Some i" using response_sender_wire [of ?r] id by simp
  have id1: "CONFIG_SCANNER_ID t1 = i" using inv by (simp add: sc_inv_def)
  have slot1: "slot_in_range t1" using assms(10) slot by (simp add: slot_in_range_def)
  from answered [OF assms(1-5) _ _ assms(13,14,10) slot assms(9) id1 _ _ _ wire assms(16) resp c] keys p id assms(6,7,15)
  obtain params m where z: "zlog t1 = zlog t @ [Bt_le_per_adv_set_response_data sync params m]"
    and nxt: "\<And>rssi s2. s2 = response_cb pf (info_of params rssi) (Some (buf_of m)) s1 \<Longrightarrow>
      view (rsp_slots s2 ! sub ! unat (rsp_slot (selected_slot t))) = Held i 0 \<and>
      sc_reading pf' t1 (new_messages s2 (request_cb pf full_period s2) ! sub) = Ack (period_counter a + 2) \<and>
      new_messages s2 (request_cb pf full_period s2) ! sub \<noteq> []"
    by (auto simp: assms(17))
  have "fault_reason (confirm_recv_cb pf' sync info' (Some (buf_of m3)) t1) = EVT_NO_FAULT"
    if "sc_reading pf' t1 m3 = Ack c'" "m3 \<noteq> []" for info' m3 c'
    using confirm_recv_reading [OF pf' inv _ _ slot1 refl, of "buf_of m3" sync info'] that by simp
  with z nxt show ?thesis by blast
qed

lemma demo_advertiser_start:
  "rollover demo_advertiser = 0" "sub < MAX_NUM_SUBEVENTS \<Longrightarrow> j < NUM_RSP_SLOTS \<Longrightarrow> view (rsp_slots demo_advertiser ! sub ! j) = Free"
proof -
  have "rsp_slots demo_advertiser = rsp_slots (adv_boot demo demo_keys)"
    by (simp add: demo_advertiser_def init_bufs_rsp_slots)
  then show "sub < MAX_NUM_SUBEVENTS \<Longrightarrow> j < NUM_RSP_SLOTS \<Longrightarrow> view (rsp_slots demo_advertiser ! sub ! j) = Free"
    by (simp add: adv_boot_def view_def)
  show "rollover demo_advertiser = 0"
    using init_bufs_rollover [of demo demo_keys] by (simp add: demo_advertiser_def)
qed

lemma registration_completes_example:
  "\<exists>params m. zlog (confirm_recv_cb demo 3 \<lparr>recv_subevent = 0, periodic_event_counter = 9\<rparr>
      (Some (buf_of (new_messages demo_advertiser (request_cb demo full_period demo_advertiser) ! 0)))
      (demo_scanner CONFIRMING Confirming_wait)) = [Bt_le_per_adv_set_response_data 3 params m] \<and>
    view (rsp_slots (response_cb demo (info_of params 0) (Some (buf_of m)) (request_cb demo full_period demo_advertiser)) ! 0 ! 0) = Held 1 0"
proof -
  let ?t = "demo_scanner CONFIRMING Confirming_wait"
  have inv: "sc_inv 1 ?t" by (rule demo_scanner_inv) simp_all
  have free: "view (rsp_slots demo_advertiser ! 0 ! unat (rsp_slot (selected_slot ?t))) = Free"
    using demo_advertiser_start(2) [of 0 0] by (simp add: adv_sizes)
  from registration_completes [OF demo_reliable demo_reliable demo_advertiser_sim demo_keys_shared(1,2) _ _ inv _ demo_slot_in_range
      _ _ _ _ free _ refl refl, of "\<lparr>recv_subevent = 0, periodic_event_counter = 9\<rparr>" 3] demo_keys_shared
  show ?thesis
    by (auto simp: abs_of_def demo_advertiser_ok demo_advertiser_start adv_sizes)
qed

text \<open>Generated data are delivered in two periods: an enabled scanner that holds its slot
  answers the message of the first period with its data, the advertiser takes the answer as a
  sign of life, and the message of the second period is the ack that the scanner waits for.\<close>

lemma data_are_acknowledged:
  assumes "pawr_reliable pf key_of mac" and "pawr_reliable pf' key_of' mac" and "adv_sim key_of keys (mac ka) s a"
    and "key_is keys (ADVERTISER_KEY_ID pf) ka" and "key_is keys (scanner_key_id pf i) ks"
    and "key_is (key_of' (psa_store t)) (ADVERTISER_KEY_ID pf') ka" and "key_is (key_of' (psa_store t)) (MIN_SCANNER_KEY_ID pf') ks"
    and "sc_inv i t" and "i \<noteq> 0" and "slot_in_range t" and "cc_value (sc_counter t) \<le> period_counter a"
    and "unconfirmed_ticks t = 0" and "sub < MAX_NUM_SUBEVENTS" and "recv_subevent info = of_nat sub"
    and "view (rsp_slots s ! sub ! unat (rsp_slot (selected_slot t))) = Held i n" and "0 < n" and "n < MAX_SILENT"
    and "unat (a_counter a) + unat (a_pending a) + 3 < 2 ^ 64" and "response_has_data t"
    and "s1 = request_cb pf full_period s" and "t1 = ack_recv_cb pf' sync info (Some (buf_of (new_messages s s1 ! sub))) t"
  shows "\<exists>params m. zlog t1 = zlog t @ [Bt_le_per_adv_set_response_data sync params m] \<and>
    (\<forall>rssi info' s2 t2. s2 = response_cb pf (info_of params rssi) (Some (buf_of m)) s1 \<longrightarrow>
       t2 = ack_recv_cb pf' sync info' (Some (buf_of (new_messages s2 (request_cb pf full_period s2) ! sub))) t1 \<longrightarrow>
       view (rsp_slots s2 ! sub ! unat (rsp_slot (selected_slot t))) = Held i 0 \<and> fault_reason t2 = EVT_GOT_ACK)"
proof -
  let ?b = "buf_of (new_messages s s1 ! sub)" and ?r = "(current_response t)\<lparr>resp_counter := period_counter a\<rparr>"
  have pf': "pawr_platform pf' key_of' mac" using assms(2) by (simp add: pawr_reliable_def)
  have id: "CONFIG_SCANNER_ID t = i" "sender_id (rsp_metadata ?r) = i" "length (rsp_data ?r) = unat (data_len ?r)"
    using assms(8,19) by (simp_all add: sc_inv_def current_response_def UNUSED_DATA_LEN_15)
  note m = period_message [OF assms(1-4,6,13,10,11), folded assms(20)]
  have nack: "sc_reading pf' t (nb_data ?b) = Nack (period_counter a)" and ne: "nb_len ?b \<noteq> 0"
    using m assms(9,15,16) id by simp_all
  have few: "\<not> (4 :: u8) \<le> 1" by (simp add: word_le_nat_alt)
  from ack_recv_reading [OF pf' assms(8) _ ne assms(10,21)] nack few assms(12) obtain p where
    c: "cc_value (sc_counter t1) = period_counter a + 1" and p: "key_of' p = key_of' (psa_store t)"
    and resp: "responded pf' sync info ?r t t1 p"
    by auto
  have inv: "sc_inv i t1" unfolding assms(21) by (rule pawr_platform.ack_recv_cb_inv [OF pf' assms(8)])
  have keys: "key_of' (psa_store t1) = key_of' (psa_store t)"
    using pawr_platform.recv_cbs_store(3) [OF pf', of "key_of' (psa_store t)" "storage_uid (sc_counter t)" sync info "Some ?b" t]
    by (simp add: assms(21) stores_def)
  have slot: "selected_slot t1 = selected_slot t" by (simp add: assms(21) ack_recv_keeps_slot)
  have wire: "response_sender (response_wire ?r) = Some i" using response_sender_wire [OF id(3)] id(2) by simp
  have id1: "CONFIG_SCANNER_ID t1 = i" using inv by (simp add: sc_inv_def)
  have slot1: "slot_in_range t1" using assms(10) slot by (simp add: slot_in_range_def)
  have held: "view (rsp_slots s ! sub ! unat (rsp_slot (selected_slot t))) \<in> {Free} \<union> {Held i n |n. n < MAX_SILENT}"
    using assms(15,17) by auto
  from answered [OF assms(1-5) _ _ assms(13,14,10) slot assms(9) id1 held id(2) _ wire assms(18) resp c] keys p assms(6,7)
  obtain params m where z: "zlog t1 = zlog t @ [Bt_le_per_adv_set_response_data sync params m]"
    and nxt: "\<And>rssi s2. s2 = response_cb pf (info_of params rssi) (Some (buf_of m)) s1 \<Longrightarrow>
      view (rsp_slots s2 ! sub ! unat (rsp_slot (selected_slot t))) = Held i 0 \<and>
      sc_reading pf' t1 (new_messages s2 (request_cb pf full_period s2) ! sub) = Ack (period_counter a + 2) \<and>
      new_messages s2 (request_cb pf full_period s2) ! sub \<noteq> []"
    by (auto simp: assms(20))
  have "fault_reason (ack_recv_cb pf' sync info' (Some (buf_of m3)) t1) = EVT_GOT_ACK"
    if "sc_reading pf' t1 m3 = Ack c'" "m3 \<noteq> []" for info' m3 c'
    using ack_recv_reading [OF pf' inv _ _ slot1 refl, of "buf_of m3" sync info'] that by simp
  with z nxt show ?thesis by blast
qed

definition demo_holding :: "key_map advertiser" where
  "demo_holding = set_slot 0 0 \<lparr>dev_id = 1, inactive_for = 1\<rparr> demo_advertiser"

lemma demo_holding_sim: "adv_sim (\<lambda>p. p) demo_keys tag demo_holding (abs_of demo_holding)"
proof -
  have "adv_inv demo_holding"
    unfolding demo_holding_def by (rule set_slot_inv [OF demo_advertiser_ok(1)]) (simp_all add: slot_ok_def MAX_SILENT_def adv_sizes)
  with adv_sim_abs_of [of demo_holding "\<lambda>p. p" tag] demo_advertiser_ok show ?thesis
    by (simp add: demo_holding_def set_slot_def)
qed

lemma demo_holding_view: "view (rsp_slots demo_holding ! 0 ! 0) = Held 1 1"
proof -
  have "length (rsp_slots demo_advertiser) = MAX_NUM_SUBEVENTS" "length (rsp_slots demo_advertiser ! 0) = NUM_RSP_SLOTS"
    using demo_advertiser_ok(1) rows_ok_row [of "rsp_slots demo_advertiser" 0] by (simp_all add: adv_inv_def rows_ok_def adv_sizes)
  then show ?thesis by (simp add: demo_holding_def set_slot_def view_def adv_sizes)
qed

definition demo_generated :: "key_map scanner" where
  "demo_generated = generate_data demo (generator_config demo) (demo_scanner ENABLED Enabled_wait)"

lemma demo_generated_ok:
  "sc_inv 1 demo_generated" "response_has_data demo_generated" "slot_in_range demo_generated"
  "psa_store demo_generated = demo_keys" "cc_value (sc_counter demo_generated) = 0" "unconfirmed_ticks demo_generated = 0"
  "rsp_slot (selected_slot demo_generated) = 0" "zlog demo_generated = [Sys_rand_get 0]"
proof -
  show "sc_inv 1 demo_generated"
    unfolding demo_generated_def
    by (rule pawr_platform.generate_data_inv [OF demo_platform], rule demo_scanner_inv) simp_all
qed (simp_all add: demo_generated_def generate_data_def generator_config_def data_generated_cb_def give_synced_evt_def
      slot_in_range_def SCANNER_RSP_SLOTS_def zephyr_do_def Let_def, simp add: demo_scanner_def sc_boot_def)

lemma data_are_acknowledged_example:
  "\<exists>params m. zlog (ack_recv_cb demo 3 \<lparr>recv_subevent = 0, periodic_event_counter = 9\<rparr>
      (Some (buf_of (new_messages demo_holding (request_cb demo full_period demo_holding) ! 0))) demo_generated)
      = [Sys_rand_get 0, Bt_le_per_adv_set_response_data 3 params m] \<and>
    view (rsp_slots (response_cb demo (info_of params 0) (Some (buf_of m)) (request_cb demo full_period demo_holding)) ! 0 ! 0) = Held 1 0"
proof -
  have held: "view (rsp_slots demo_holding ! 0 ! unat (rsp_slot (selected_slot demo_generated))) = Held 1 1"
    using demo_holding_view by (simp add: demo_generated_ok)
  have start: "a_counter (abs_of demo_holding) = 0" "a_pending (abs_of demo_holding) = 0"
    by (simp_all add: abs_of_def demo_holding_def set_slot_def demo_advertiser_ok demo_advertiser_start)
  from data_are_acknowledged [OF demo_reliable demo_reliable demo_holding_sim demo_keys_shared(1,2) _ _ demo_generated_ok(1) _
      demo_generated_ok(3) _ _ _ _ held _ _ _ demo_generated_ok(2) refl refl, of "\<lparr>recv_subevent = 0, periodic_event_counter = 9\<rparr>" 3]
    demo_keys_shared
  show ?thesis
    by (auto simp: start demo_generated_ok adv_sizes MAX_SILENT_def)
qed

end
