(* ===== verification/Radio_Link.thy ===== *)
theory Radio_Link
  imports Advertiser_Props Scanner_Props Protocol
begin

text \<open>
  The radio between the advertiser and a scanner: what a period is for each of them, what they say
  about each other's messages, and what the main thread of the scanner does in between. The locale
  \<open>radio_pair\<close> holds what two devices with shared keys promise each other.
\<close>

section \<open>Messages and replies\<close>

text \<open>The host reports periodic advertising while the last call on it was not a disable; a new
  sync reports.\<close>

definition receiving :: "zcall list \<Rightarrow> bool" where
  "receiving cs = fold (\<lambda>c on. case c of Bt_le_per_adv_sync_recv_enable _ \<Rightarrow> True
     | Bt_le_per_adv_sync_recv_disable _ \<Rightarrow> False | Bt_le_per_adv_sync_create _ \<Rightarrow> True | _ \<Rightarrow> on) cs True"

text \<open>What the radio fixes: the subevent the scanner listens to, its sync, what its host says
  about a received message, and the signal strength the advertiser's host reports.\<close>

record link =
  lk_sub :: nat
  lk_sync :: sync_ptr
  lk_info :: bt_le_per_adv_sync_recv_info
  lk_rssi :: int

definition listening :: "'q scanner \<Rightarrow> bool" where
  "listening t \<longleftrightarrow> default_sync t \<noteq> None \<and> receiving (zlog t)"

text \<open>The scanner hears a message if it listens; a message that got lost is reported without data.\<close>

definition hear :: "'q platform \<Rightarrow> link \<Rightarrow> bool \<Rightarrow> byte list \<Rightarrow> 'q scanner \<Rightarrow> 'q scanner" where
  "hear pf l gets_through m t =
     (if listening t
      then recv_dispatch pf (lk_sync l) (lk_info l) (if gets_through then Some (buf_of m) else None) t
      else t)"

text \<open>The responses it has handed to its host meanwhile, as the advertiser's host reports them.\<close>

type_synonym reply = "bt_le_per_adv_response_info \<times> byte list"

definition new_replies :: "link \<Rightarrow> 'q scanner \<Rightarrow> 'q scanner \<Rightarrow> reply list" where
  "new_replies l t t' = map (\<lambda>(params, m). (info_of params (lk_rssi l), m))
     (drop (length (responses_sent (zlog t))) (responses_sent (zlog t')))"

definition take_replies :: "'p platform \<Rightarrow> reply list \<Rightarrow> 'p advertiser \<Rightarrow> 'p advertiser" where
  "take_replies pf rs s = fold (\<lambda>(info, m). response_cb pf info (Some (buf_of m))) rs s"

text \<open>The sync and the wait for a new one.\<close>

definition same_sync :: "'q scanner \<Rightarrow> 'q scanner \<Rightarrow> bool" where
  "same_sync t t' \<longleftrightarrow> default_sync t' = default_sync t \<and> synced_sem t' = synced_sem t"

section \<open>The log\<close>

lemma receiving_snoc [simp]:
  "receiving (cs @ [c]) = (case c of Bt_le_per_adv_sync_recv_enable _ \<Rightarrow> True
     | Bt_le_per_adv_sync_recv_disable _ \<Rightarrow> False | Bt_le_per_adv_sync_create _ \<Rightarrow> True | _ \<Rightarrow> receiving cs)"
  by (simp add: receiving_def split: zcall.split)

lemma log_snoc2 [simp]:
  "receiving (cs @ [c, d]) = (case d of Bt_le_per_adv_sync_recv_enable _ \<Rightarrow> True
     | Bt_le_per_adv_sync_recv_disable _ \<Rightarrow> False | Bt_le_per_adv_sync_create _ \<Rightarrow> True | _ \<Rightarrow> receiving (cs @ [c]))"
  "timer_running (cs @ [c, d]) = (case d of K_timer_start _ _ \<Rightarrow> True | K_timer_stop \<Rightarrow> False | _ \<Rightarrow> timer_running (cs @ [c]))"
  using receiving_snoc [of "cs @ [c]" d] timer_running_snoc [of "cs @ [c]" d] by simp_all

lemma dispatch_same_sync: "same_sync t (recv_dispatch pf sync info buf t)"
  by (auto simp: same_sync_def recv_dispatch_def register_recv_cb_def confirm_recv_cb_def ack_recv_cb_def sc_verify_def set_rsp_data_def
      give_synced_evt_def zephyr_call_def Let_def split: recv_cb.split option.split prod.split)

section \<open>The advertiser in a period\<close>

definition next_counter :: "'p advertiser \<Rightarrow> u64" where
  "next_counter s = cc_value (counter s) + rollover s + 1"

lemma sim_next_counter: "adv_sim key_of keys tag s a \<Longrightarrow> period_counter a = next_counter s"
  by (simp add: adv_sim_def period_counter_def next_counter_def)

lemma sim_adv_time: "adv_sim key_of keys tag s a \<Longrightarrow> adv_time s = unat (a_counter a) + unat (a_pending a)"
  by (simp add: adv_sim_def adv_time_def)

lemma requested:
  assumes "pawr_reliable pf key_of mac" and "adv_sim key_of keys (mac ka) s a" and "key_is keys (ADVERTISER_KEY_ID pf) ka"
    and "adv_time s + 1 < 2 ^ 64" and "s' = request_cb pf full_period s"
  shows "\<exists>b. adv_sim key_of keys (mac ka) s' b" and "adv_time s' = adv_time s + 1" and "next_counter s' = next_counter s + 1"
    and "sub < MAX_NUM_SUBEVENTS \<Longrightarrow> j < NUM_RSP_SLOTS \<Longrightarrow> view (rsp_slots s' ! sub ! j) = age (view (rsp_slots s ! sub ! j))"
proof -
  have "0 < MAX_NUM_SUBEVENTS" by (simp add: MAX_NUM_SUBEVENTS_def)
  from full_period_messages(1) [OF assms(1-3) this] have sim: "adv_sim key_of keys (mac ka) s' (abs_request full_period a)"
    by (simp add: assms(5))
  then show "\<exists>b. adv_sim key_of keys (mac ka) s' b" by blast
  have rows: "length (a_slots a) = MAX_NUM_SUBEVENTS" "\<forall>row \<in> set (a_slots a). length row = NUM_RSP_SLOTS"
    using assms(2) by (auto simp: adv_sim_def adv_inv_def rows_ok_def)
  note a1 = abs_full_period [OF rows(1)]
  have "unat (a_counter a + a_pending a) = unat (a_counter a) + unat (a_pending a)"
    using assms(4) by (simp add: sim_adv_time [OF assms(2)] unat_word_ariths)
  then show "adv_time s' = adv_time s + 1"
    by (simp add: sim_adv_time [OF assms(2)] sim_adv_time [OF sim] a1)
  show "next_counter s' = next_counter s + 1"
    by (simp add: sim_next_counter [OF assms(2), symmetric] sim_next_counter [OF sim, symmetric] period_counter_def a1)
  show "view (rsp_slots s' ! sub ! j) = age (view (rsp_slots s ! sub ! j))" if "sub < MAX_NUM_SUBEVENTS" "j < NUM_RSP_SLOTS"
    using sim_slot [OF sim that] sim_slot [OF assms(2) that] a1(4) [OF that(1)] rows that by simp
qed

text \<open>A reply of device \<open>i\<close> in slot \<open>(sub, j)\<close> with counter \<open>c\<close>.\<close>

definition reply_from ::
    "'p platform \<Rightarrow> (byte list \<Rightarrow> byte list \<Rightarrow> byte list) \<Rightarrow> (psa_key_id_t \<Rightarrow> stored_key option) \<Rightarrow> u64 \<Rightarrow> u16 \<times> nat \<times> nat \<Rightarrow> reply \<Rightarrow> bool" where
  "reply_from pf mac keys c = (\<lambda>(i, sub, j) rep. \<exists>params rssi r k.
     rep = (info_of params rssi, response_body r @ mac k (response_body r)) \<and> key_is keys (scanner_key_id pf i) k \<and>
     response_subevent params = of_nat sub \<and> unat (response_slot params) = j \<and>
     sender_id (rsp_metadata r) = i \<and> resp_counter r = c \<and> response_sender (response_wire r) = Some i)"

lemma reply_fromI:
  assumes "key_is keys (scanner_key_id pf i) k" and "response_subevent params = of_nat sub" and "unat (response_slot params) = j"
    and "sender_id (rsp_metadata r) = i" and "resp_counter r = c" and "response_sender (response_wire r) = Some i"
  shows "reply_from pf mac keys c (i, sub, j) (info_of params rssi, response_body r @ mac k (response_body r))"
  using assms unfolding reply_from_def by blast

text \<open>Slots in range that are free or the device's own.\<close>

definition may_claim :: "adv_abs \<Rightarrow> u16 \<times> nat \<times> nat \<Rightarrow> bool" where
  "may_claim b = (\<lambda>(i, sub, j). sub < MAX_NUM_SUBEVENTS \<and> j < NUM_RSP_SLOTS \<and> i \<noteq> 0 \<and> a_slots b ! sub ! j \<in> {Free} \<union> range (Held i))"

lemma sim_shape: "adv_sim key_of keys tag s a \<Longrightarrow> slots_shape a"
  by (auto simp: slots_shape_def adv_sim_def adv_inv_def rows_ok_def)

lemma take_reply_sim:
  assumes "pawr_reliable pf key_of mac" and "adv_sim key_of keys tag s b" and "reply_from pf mac keys c (i, sub, j) rep"
    and "may_claim b (i, sub, j)" and "a_counter b \<le> c"
  shows "\<exists>b'. adv_sim key_of keys tag (take_replies pf [rep] s) b' \<and> a_counter b' = c \<and> a_pending b' = a_pending b \<and>
    a_slots b' = (a_slots b)[sub := (a_slots b ! sub)[j := Held i 0]]"
proof -
  from assms(3) obtain params rssi r k where
    rep: "rep = (info_of params rssi, response_body r @ mac k (response_body r))" and k: "key_is keys (scanner_key_id pf i) k" and
    at: "response_subevent params = of_nat sub" "unat (response_slot params) = j" and
    r: "sender_id (rsp_metadata r) = i" "resp_counter r = c" "response_sender (response_wire r) = Some i"
    by (auto simp: reply_from_def)
  have claim: "sub < MAX_NUM_SUBEVENTS" "j < NUM_RSP_SLOTS" "i \<noteq> 0" "a_slots b ! sub ! j \<in> {Free} \<union> range (Held i)"
    using assms(4) by (simp_all add: may_claim_def)
  have "take_replies pf [rep] s = response_cb pf (info_of params rssi) (Some (buf_of (response_body r @ mac k (response_body r)))) s"
    by (simp add: take_replies_def rep)
  from replied [OF assms(1,2) k claim(1), of params, unfolded at(2), OF claim(2) at(1) claim(3,4) r(1,3) _ this] assms(5) r(2)
  show ?thesis by simp
qed

lemma take_replies_sim:
  assumes "pawr_reliable pf key_of mac" and "adv_sim key_of keys tag s b" and "a_counter b \<le> c"
    and "\<forall>(p, rep) \<in> set items. reply_from pf mac keys c p rep \<and> may_claim b p" and "distinct (map (snd \<circ> fst) items)"
  shows "\<exists>b'. adv_sim key_of keys tag (take_replies pf (map snd items) s) b' \<and> a_counter b' = (if items = [] then a_counter b else c) \<and>
    a_pending b' = a_pending b \<and> (\<forall>((i, sub, j), rep) \<in> set items. a_slots b' ! sub ! j = Held i 0) \<and>
    (\<forall>sub j. sub < MAX_NUM_SUBEVENTS \<longrightarrow> j < NUM_RSP_SLOTS \<longrightarrow> (sub, j) \<notin> snd ` fst ` set items \<longrightarrow>
       a_slots b' ! sub ! j = a_slots b ! sub ! j)"
  using assms(2-5)
proof (induction items arbitrary: s b)
  case Nil
  then show ?case by (auto simp: take_replies_def)
next
  case (Cons item items)
  obtain i sub j rep where item: "item = ((i, sub, j), rep)" by (metis prod.exhaust)
  from Cons.prems(3) have head: "reply_from pf mac keys c (i, sub, j) rep" "may_claim b (i, sub, j)" by (simp_all add: item)
  from take_reply_sim [OF assms(1) Cons.prems(1) head Cons.prems(2)] obtain b1 where
    b1: "adv_sim key_of keys tag (take_replies pf [rep] s) b1" "a_counter b1 = c" "a_pending b1 = a_pending b"
      "a_slots b1 = (a_slots b)[sub := (a_slots b ! sub)[j := Held i 0]]"
    by blast
  have shape: "length (a_slots b) = MAX_NUM_SUBEVENTS" "\<And>x. x < MAX_NUM_SUBEVENTS \<Longrightarrow> length (a_slots b ! x) = NUM_RSP_SLOTS"
    using sim_shape [OF Cons.prems(1)] by (auto simp: slots_shape_def)
  have ij: "sub < MAX_NUM_SUBEVENTS" "j < NUM_RSP_SLOTS" using head(2) by (simp_all add: may_claim_def)
  have at: "a_slots b1 ! sub' ! j' = (if (sub', j') = (sub, j) then Held i 0 else a_slots b ! sub' ! j')"
    if "sub' < MAX_NUM_SUBEVENTS" for sub' j'
    using that shape ij by (auto simp: b1(4) nth_list_update)
  have new: "(sub, j) \<notin> snd ` fst ` set items" using Cons.prems(4) by (auto simp: item image_image)
  have "\<forall>(p, rep) \<in> set items. reply_from pf mac keys c p rep \<and> may_claim b1 p"
  proof
    fix x assume x: "x \<in> set items"
    obtain i' sub' j' rep' where x': "x = ((i', sub', j'), rep')" by (metis prod.exhaust)
    have "reply_from pf mac keys c (i', sub', j') rep'" "may_claim b (i', sub', j')"
      using Cons.prems(3) x by (auto simp: x')
    moreover have "(sub', j') \<noteq> (sub, j)" using new x by (force simp: x')
    ultimately show "case x of (p, rep) \<Rightarrow> reply_from pf mac keys c p rep \<and> may_claim b1 p"
      using at by (auto simp: x' may_claim_def)
  qed
  from Cons.IH [OF b1(1) _ this] b1(2) Cons.prems(4) obtain b' where
    b': "adv_sim key_of keys tag (take_replies pf (map snd items) (take_replies pf [rep] s)) b'" "a_counter b' = c" "a_pending b' = a_pending b"
      "\<forall>((i, sub, j), rep) \<in> set items. a_slots b' ! sub ! j = Held i 0"
      "\<forall>sub j. sub < MAX_NUM_SUBEVENTS \<longrightarrow> j < NUM_RSP_SLOTS \<longrightarrow> (sub, j) \<notin> snd ` fst ` set items \<longrightarrow> a_slots b' ! sub ! j = a_slots b1 ! sub ! j"
    by (auto simp: b1(3) split: if_splits)
  have "take_replies pf (map snd (item # items)) s = take_replies pf (map snd items) (take_replies pf [rep] s)"
    by (simp add: take_replies_def item)
  moreover have "a_slots b' ! sub ! j = Held i 0" using b'(5) ij new at by simp
  ultimately show ?case
    using b' at by (intro exI [of _ b']) (auto simp: item)
qed

text \<open>A whole period of the advertiser: it ages the slots, then the replies claim theirs.\<close>

definition view_at :: "'p advertiser \<Rightarrow> nat \<times> nat \<Rightarrow> slot_view" where
  "view_at s = (\<lambda>(sub, j). view (rsp_slots s ! sub ! j))"

definition slot_exists :: "nat \<times> nat \<Rightarrow> bool" where
  "slot_exists = (\<lambda>(sub, j). sub < MAX_NUM_SUBEVENTS \<and> j < NUM_RSP_SLOTS)"

lemma next_counter_unat: "adv_time s + 1 < 2 ^ 64 \<Longrightarrow> unat (next_counter s) = adv_time s + 1"
  by (simp add: next_counter_def adv_time_def unat_word_ariths)

lemma period_replies:
  assumes rel: "pawr_reliable pf key_of mac" and sim: "adv_sim key_of keys (mac ka) s a" and ka: "key_is keys (ADVERTISER_KEY_ID pf) ka"
    and room: "adv_time s + 3 < 2 ^ 64" and s': "s' = take_replies pf (map snd items) (request_cb pf full_period s)"
    and items: "\<forall>((i, p), rep) \<in> set items. reply_from pf mac keys (next_counter s) (i, p) rep \<and> slot_exists p \<and> i \<noteq> 0 \<and>
      view_at s p \<in> {Free} \<union> range (Held i)"
    and dist: "distinct (map (snd \<circ> fst) items)"
  shows "\<exists>b. adv_sim key_of keys (mac ka) s' b" and "adv_time s' = adv_time s + (if items = [] then 1 else 2)"
    and "next_counter s + 1 \<le> next_counter s'"
    and "((i, p), rep) \<in> set items \<Longrightarrow> view_at s' p = Held i 0"
    and "slot_exists p \<Longrightarrow> p \<notin> snd ` fst ` set items \<Longrightarrow> view_at s' p = age (view_at s p)"
    and "rollover s' = 1"
proof -
  let ?s1 = "request_cb pf full_period s"
  have room1: "adv_time s + 1 < 2 ^ 64" using room by simp
  note req = requested [OF rel sim ka room1 refl]
  from req(1) obtain b where b: "adv_sim key_of keys (mac ka) ?s1 b" by blast
  have shape: "length (a_slots a) = MAX_NUM_SUBEVENTS" using sim_shape [OF sim] by (simp add: slots_shape_def)
  have "0 < MAX_NUM_SUBEVENTS" by (simp add: MAX_NUM_SUBEVENTS_def)
  from full_period_messages(1) [OF rel sim ka this] have sim1: "adv_sim key_of keys (mac ka) ?s1 (abs_request full_period a)" .
  note a1 = abs_full_period [OF shape]
  have pend: "rollover ?s1 = 1" and cnt: "cc_value (counter ?s1) = next_counter s - 1"
    using sim1 a1(1,2) sim by (simp_all add: adv_sim_def next_counter_def)
  have next1: "unat (next_counter s) = adv_time s + 1" by (rule next_counter_unat [OF room1])
  have b1: "a_pending b = 1" "a_counter b = next_counter s - 1" using b pend cnt by (simp_all add: adv_sim_def)
  have prev: "unat (next_counter s - 1) = adv_time s"
    using room1 by (simp add: next_counter_def adv_time_def unat_word_ariths)
  then have le: "a_counter b \<le> next_counter s"
    using next1 by (simp add: b1 word_le_nat_alt)
  have at1: "a_slots b ! sub ! j = age (view_at s (sub, j))" if "slot_exists (sub, j)" for sub j
    using sim_slot [OF b, of sub j] req(4) [of sub j] that by (simp add: slot_exists_def view_at_def)
  have "\<forall>(p, rep) \<in> set items. reply_from pf mac keys (next_counter s) p rep \<and> may_claim b p"
  proof
    fix x assume x: "x \<in> set items"
    obtain i sub j rep where x': "x = ((i, sub, j), rep)" by (metis prod.exhaust)
    have "slot_exists (sub, j)" "i \<noteq> 0" "view_at s (sub, j) \<in> {Free} \<union> range (Held i)" "reply_from pf mac keys (next_counter s) (i, sub, j) rep"
      using items x by (auto simp: x')
    with at1 [of sub j] show "case x of (p, rep) \<Rightarrow> reply_from pf mac keys (next_counter s) p rep \<and> may_claim b p"
      by (auto simp: x' may_claim_def slot_exists_def)
  qed
  from take_replies_sim [OF rel b le this dist] obtain b' where
    b': "adv_sim key_of keys (mac ka) s' b'" "a_counter b' = (if items = [] then a_counter b else next_counter s)" "a_pending b' = 1"
      "\<forall>((i, sub, j), rep) \<in> set items. a_slots b' ! sub ! j = Held i 0"
      "\<forall>sub j. sub < MAX_NUM_SUBEVENTS \<longrightarrow> j < NUM_RSP_SLOTS \<longrightarrow> (sub, j) \<notin> snd ` fst ` set items \<longrightarrow> a_slots b' ! sub ! j = a_slots b ! sub ! j"
    by (auto simp: s' b1(1))
  from b'(1) show "\<exists>b. adv_sim key_of keys (mac ka) s' b" by blast
  show "rollover s' = 1" using b'(1,3) by (simp add: adv_sim_def)
  show time: "adv_time s' = adv_time s + (if items = [] then 1 else 2)"
    using b'(2,3) next1 prev by (simp add: sim_adv_time [OF b'(1)] b1)
  have "adv_time s' + 1 < 2 ^ 64" using time room by (simp split: if_splits)
  from next_counter_unat [OF this] time next1 room show "next_counter s + 1 \<le> next_counter s'"
    by (auto simp: word_le_nat_alt unat_word_ariths split: if_splits)
  show "view_at s' p = Held i 0" if "((i, p), rep) \<in> set items"
  proof -
    obtain sub j where p: "p = (sub, j)" by (metis prod.exhaust)
    have "slot_exists (sub, j)" using items that by (auto simp: p)
    then show ?thesis using sim_slot [OF b'(1), of sub j] b'(4) that by (auto simp: p view_at_def slot_exists_def)
  qed
  show "view_at s' p = age (view_at s p)" if ex: "slot_exists p" and new: "p \<notin> snd ` fst ` set items"
  proof -
    obtain sub j where p: "p = (sub, j)" by (metis prod.exhaust)
    have "a_slots b' ! sub ! j = a_slots b ! sub ! j" using b'(5) ex new by (auto simp: p slot_exists_def)
    then show ?thesis using sim_slot [OF b'(1), of sub j] at1 [of sub j] ex by (simp add: p view_at_def slot_exists_def)
  qed
qed

section \<open>The two together\<close>

text \<open>Scanner \<open>i\<close> and the advertiser can talk to each other.\<close>

definition linked ::
    "('p \<Rightarrow> psa_key_id_t \<Rightarrow> stored_key option) \<Rightarrow> (psa_key_id_t \<Rightarrow> stored_key option) \<Rightarrow> (byte list \<Rightarrow> byte list) \<Rightarrow>
     ('q \<Rightarrow> psa_key_id_t \<Rightarrow> stored_key option) \<Rightarrow> (psa_key_id_t \<Rightarrow> stored_key option) \<Rightarrow> u16 \<Rightarrow> 'p advertiser \<Rightarrow> 'q scanner \<Rightarrow> bool" where
  "linked key_of keys tag key_of' keys' i s t \<longleftrightarrow>
     (\<exists>a. adv_sim key_of keys tag s a) \<and> key_of' (psa_store t) = keys' \<and> sc_inv i t \<and> slot_in_range t \<and>
     cc_value (sc_counter t) \<le> next_counter s"

definition own_slot :: "link \<Rightarrow> 'q scanner \<Rightarrow> nat \<times> nat" where
  "own_slot l t = (lk_sub l, unat (rsp_slot (selected_slot t)))"

definition holder :: "link \<Rightarrow> 'p advertiser \<Rightarrow> 'q scanner \<Rightarrow> slot_view" where
  "holder l s t = view_at s (own_slot l t)"

text \<open>The slot is free or its holder was not heard in the last period, so it is not acked.\<close>

definition unheard :: "u16 \<Rightarrow> slot_view \<Rightarrow> bool" where
  "unheard i v \<longleftrightarrow> v = Free \<or> (\<exists>n. v = Held i (Suc n))"

text \<open>What the wait of the scanner depends on and a message does not change.\<close>

definition same_wait :: "'q scanner \<Rightarrow> 'q scanner \<Rightarrow> bool" where
  "same_wait t t' \<longleftrightarrow> sc_at t' = sc_at t \<and> listening t' = listening t \<and>
     timer_running (zlog t') = timer_running (zlog t) \<and> selected_slot t' = selected_slot t \<and> same_sync t t'"

lemma adv_time_next: "adv_time s + 2 < 2 ^ 64 \<Longrightarrow> next_counter s \<le> next_counter s + 1"
  using next_counter_unat [of s] by (simp add: word_le_nat_alt unat_word_ariths)

lemma unheard_age: "unheard i v \<Longrightarrow> unheard i (age v)"
  by (auto simp: unheard_def)

text \<open>The scanner waits for an acknowledgement and has counted \<open>k\<close> messages without one.\<close>

definition waits :: "nat \<Rightarrow> 'q scanner \<Rightarrow> bool" where
  "waits k t \<longleftrightarrow> (recv t = Confirm_recv \<or> recv t = Ack_recv \<and> response_has_data t) \<and> unconfirmed_ticks t = of_nat k"

lemma last_tick: "k < 4 \<Longrightarrow> (4 :: u8) \<le> of_nat k + 1 \<longleftrightarrow> k = 3"
proof -
  assume "k < 4"
  then have "k = 0 \<or> k = 1 \<or> k = 2 \<or> k = 3" by linarith
  then show ?thesis by (auto simp: word_le_nat_alt)
qed

lemma set_rsp_has_data: "response_has_data (snd (set_rsp_data pf sync info resp t)) = response_has_data t"
  by (simp add: set_rsp_data_def zephyr_call_def Let_def split_beta)

text \<open>Two programs on platforms with the same MAC, with the keys they share.\<close>

locale radio_pair = adv: pawr_reliable pf key_of mac + sca: pawr_reliable pf' key_of' mac
  for pf :: "'p platform" and key_of and pf' :: "'q platform" and key_of' and mac +
  fixes keys keys' :: "psa_key_id_t \<Rightarrow> stored_key option" and ka ks :: "byte list" and i :: u16 and l :: link
  assumes advertiser_key: "key_is keys (ADVERTISER_KEY_ID pf) ka" and device_key: "key_is keys (scanner_key_id pf i) ks"
    and known_key: "key_is keys' (ADVERTISER_KEY_ID pf') ka" and own_key: "key_is keys' (MIN_SCANNER_KEY_ID pf') ks"
    and valid_id: "i \<noteq> 0" and valid_sub: "lk_sub l < MAX_NUM_SUBEVENTS" and same_sub: "recv_subevent (lk_info l) = of_nat (lk_sub l)"
begin

lemmas rel = adv.pawr_reliable_axioms sca.pawr_reliable_axioms

abbreviation talk where "talk \<equiv> linked key_of keys (mac ka) key_of' keys' i"

text \<open>A received message leaves the scanner its keys and its slot.\<close>

lemma dispatch_keeps:
  assumes "sc_inv i t" and "t' = recv_dispatch pf' sync info buf t"
  shows "sc_inv i t'" and "key_of' (psa_store t') = key_of' (psa_store t)" and "selected_slot t' = selected_slot t"
    and "same_sync t t'" and "sc_at t' = sc_at t"
proof -
  show "sc_inv i t'" by (simp add: assms(2) sca.recv_dispatch_inv [OF assms(1)])
  show "key_of' (psa_store t') = key_of' (psa_store t)"
    using sca.recv_dispatch_stores [of "key_of' (psa_store t)" "storage_uid (sc_counter t)" sync info buf t]
    by (simp add: assms(2) stores_def)
  show "selected_slot t' = selected_slot t"
    using assms by (auto elim: recv_dispatch_cases [of i t pf' sync info buf] simp: confirm_recv_keeps_slot ack_recv_keeps_slot)
  show "same_sync t t'" by (simp add: assms(2) dispatch_same_sync)
  show "sc_at t' = sc_at t" by (simp add: assms(2) recv_cbs_state)
qed

text \<open>A message that does not acknowledge the scanner is counted, and answered unless the scanner
  gives up waiting for an ack; the fourth one ends the wait.\<close>

lemma nack_keeps:
  assumes "slot_in_range t" and "m \<noteq> []" and "waits k t" and "k < 4"
    and "t' = recv_dispatch pf' sync info (Some (buf_of m)) t" and "sc_reading pf' t m = Nack c"
  shows "synced_evt_sem t' = (if k = 3 then k_sem_give pf' (synced_evt_sem t) else synced_evt_sem t)"
    and "response_has_data t' = response_has_data t" and "recv t' = recv t"
proof -
  have wf: "nb_wf (buf_of m)" by simp
  have len: "length (if recv t = Confirm_recv then no_acks else stray_acks pf') = SCANNER_RSP_SLOTS" by (simp add: length_stray_acks)
  have ne: "nb_len (buf_of m) \<noteq> 0" using assms(2) by simp
  have "synced_evt_sem t' = (if k = 3 then k_sem_give pf' (synced_evt_sem t) else synced_evt_sem t) \<and>
      response_has_data t' = response_has_data t \<and> recv t' = recv t"
    using sca.pawr_platform_axioms wf len assms(1)
  proof (cases rule: reading_cases)
    case (nack b' c' p' err d b'')
    have "recv t = Confirm_recv \<or> recv t = Ack_recv" using assms(3) by (auto simp: waits_def)
    then show ?thesis
    proof
      assume recv: "recv t = Confirm_recv"
      define r where "r = snd (set_rsp_data pf' sync info
        \<lparr>rsp_metadata = rsp_data_i t, rsp_data = [], data_len = 0, resp_counter = c'\<rparr> (sc_with c' p' t))"
      have r: "synced_evt_sem r = synced_evt_sem t" "response_has_data r = response_has_data t" "recv r = Confirm_recv"
          "unconfirmed_ticks r = of_nat k"
        using assms(3) recv by (simp_all add: r_def recv_keeps set_rsp_has_data waits_def)
      have "t' = (let u = r\<lparr>unconfirmed_ticks := of_nat k + 1\<rparr> in if k = 3 then give_synced_evt pf' EVT_CONFIRMATION_FAILED u else u)"
        using nack recv ne r(4) last_tick [OF assms(4)]
        by (simp add: assms(5) recv_dispatch_def confirm_recv_cb_def Let_def split_beta CONFIG_MAX_UNCONFIRMED_TICKS_def flip: r_def)
      then show ?thesis by (simp add: r recv give_synced_evt_def Let_def)
    next
      assume recv: "recv t = Ack_recv"
      define u where "u = (sc_with c' p' t)\<lparr>unconfirmed_ticks := unconfirmed_ticks t + 1\<rparr>"
      define v where "v = u\<lparr>response := (response u)\<lparr>resp_counter := c'\<rparr>\<rparr>"
      have "t' = (if k = 3 then give_synced_evt pf' EVT_DIDNT_RECEIVE_ACK u
          else snd (set_rsp_data pf' sync info (current_response v) v))"
        using nack recv ne last_tick [OF assms(4)] assms(3)
        by (auto simp: assms(5) recv_dispatch_def ack_recv_cb_def Let_def CONFIG_MAX_UNCONFIRMED_TICKS_def waits_def u_def v_def)
      moreover have "synced_evt_sem u = synced_evt_sem t" "response_has_data u = response_has_data t" "recv u = Ack_recv"
        "synced_evt_sem v = synced_evt_sem t" "response_has_data v = response_has_data t" "recv v = Ack_recv"
        using recv by (simp_all add: u_def v_def)
      ultimately show ?thesis by (simp add: recv recv_keeps set_rsp_has_data give_synced_evt_def)
    qed
  qed (use assms(6) in simp_all)
  then show "synced_evt_sem t' = (if k = 3 then k_sem_give pf' (synced_evt_sem t) else synced_evt_sem t)"
    "response_has_data t' = response_has_data t" "recv t' = recv t" by blast+
qed

lemma dispatch_nack:
  assumes "sc_inv i t" and "slot_in_range t" and "m \<noteq> []" and "waits k t" and "k < 4"
    and "t' = recv_dispatch pf' sync info (Some (buf_of m)) t" and "sc_reading pf' t m = Nack c"
  shows "unconfirmed_ticks t' = of_nat (Suc k)"
    and "k = 3 \<Longrightarrow> fault_reason t' = (if recv t = Confirm_recv then EVT_CONFIRMATION_FAILED else EVT_DIDNT_RECEIVE_ACK)"
    and "if recv t = Ack_recv \<and> k = 3 then cc_value (sc_counter t') = c \<and> zlog t' = zlog t
      else cc_value (sc_counter t') = c + 1 \<and>
        (\<exists>r p. key_of' p = key_of' (psa_store t) \<and> responded pf' sync info r t t' p \<and> sender_id (rsp_metadata r) = i \<and>
          resp_counter r = c \<and> response_sender (response_wire r) = Some i)"
proof -
  have ne: "nb_len (buf_of m) \<noteq> 0" and wf: "nb_wf (buf_of m)" using assms(3) by simp_all
  have ticks: "unconfirmed_ticks t = of_nat k" using assms(4) by (simp add: waits_def)
  note last = last_tick [OF assms(5)]
  have "unconfirmed_ticks t' = of_nat (Suc k) \<and>
    (k = 3 \<longrightarrow> fault_reason t' = (if recv t = Confirm_recv then EVT_CONFIRMATION_FAILED else EVT_DIDNT_RECEIVE_ACK)) \<and>
    (if recv t = Ack_recv \<and> k = 3 then cc_value (sc_counter t') = c \<and> zlog t' = zlog t
      else cc_value (sc_counter t') = c + 1 \<and>
        (\<exists>r p. key_of' p = key_of' (psa_store t) \<and> responded pf' sync info r t t' p \<and> sender_id (rsp_metadata r) = i \<and>
          resp_counter r = c \<and> response_sender (response_wire r) = Some i))"
  proof (cases "recv t = Confirm_recv")
    case True
    then have t': "t' = confirm_recv_cb pf' sync info (Some (buf_of m)) t" by (simp add: assms(6) recv_dispatch_def)
    let ?r = "\<lparr>rsp_metadata = rsp_data_i t, rsp_data = [], data_len = 0, resp_counter = c\<rparr>"
    have id: "sender_id (rsp_data_i t) = i" using assms(1) by (simp add: sc_inv_def)
    have "response_sender (response_wire ?r) = Some i" using response_sender_wire [of ?r] id by simp
    with confirm_recv_reading [OF sca.pawr_platform_axioms assms(1) wf ne assms(2) t'] assms(7) ticks last id True show ?thesis
      by (auto intro!: exI [of _ ?r] simp: add.commute)
  next
    case False
    then have ack: "recv t = Ack_recv" "response_has_data t" using assms(4) by (auto simp: waits_def)
    then have t': "t' = ack_recv_cb pf' sync info (Some (buf_of m)) t" by (simp add: assms(6) recv_dispatch_def)
    let ?r = "(current_response t)\<lparr>resp_counter := c\<rparr>"
    have id: "sender_id (rsp_metadata ?r) = i" "length (rsp_data ?r) = unat (data_len ?r)"
      using assms(1) ack by (simp_all add: sc_inv_def current_response_def UNUSED_DATA_LEN_15)
    have "response_sender (response_wire ?r) = Some i" using response_sender_wire [OF id(2)] id(1) by simp
    with ack_recv_reading [OF sca.pawr_platform_axioms assms(1) wf ne assms(2) t'] assms(7) ticks last id ack show ?thesis
      by (auto intro!: exI [of _ ?r] simp: add.commute)
  qed
  then show "unconfirmed_ticks t' = of_nat (Suc k)"
    "k = 3 \<Longrightarrow> fault_reason t' = (if recv t = Confirm_recv then EVT_CONFIRMATION_FAILED else EVT_DIDNT_RECEIVE_ACK)"
    "if recv t = Ack_recv \<and> k = 3 then cc_value (sc_counter t') = c \<and> zlog t' = zlog t
      else cc_value (sc_counter t') = c + 1 \<and>
        (\<exists>r p. key_of' p = key_of' (psa_store t) \<and> responded pf' sync info r t t' p \<and> sender_id (rsp_metadata r) = i \<and>
          resp_counter r = c \<and> response_sender (response_wire r) = Some i)"
    by blast+
qed

text \<open>A message that acknowledges it wakes the main thread.\<close>

lemma dispatch_acked:
  assumes "sc_inv i t" and "slot_in_range t" and "m \<noteq> []" and "recv t = Confirm_recv \<or> recv t = Ack_recv"
    and "t' = recv_dispatch pf' sync info (Some (buf_of m)) t" and "sc_reading pf' t m = Ack c"
  shows "cc_value (sc_counter t') = c \<and> zlog t' = zlog t \<and> sem_count (synced_evt_sem t') = 1 \<and>
    fault_reason t' = (if recv t = Confirm_recv then EVT_NO_FAULT else EVT_GOT_ACK)"
proof -
  have sem: "sem_count (k_sem_give pf' (synced_evt_sem t)) = 1"
    using assms(1) by (simp add: sca.sem_give sc_inv_def sem_ok_def)
  have wf: "nb_wf (buf_of m)" by simp
  have len: "length (if recv t = Confirm_recv then no_acks else stray_acks pf') = SCANNER_RSP_SLOTS" by (simp add: length_stray_acks)
  show ?thesis
    using sca.pawr_platform_axioms wf len assms(2)
  proof (cases rule: reading_cases)
    case (ack b' c' p' d b'')
    then show ?thesis
      using assms(3-6) sem
      by (auto simp: recv_dispatch_def confirm_recv_cb_def ack_recv_cb_def own_ack_def Let_def) (simp_all add: give_synced_evt_def sc_with_def)
  qed (use assms(6) in simp_all)
qed


subsection \<open>What the scanner hears in a period\<close>

text \<open>\<open>kept\<close>: it is still the scanner that can talk to the advertiser.\<close>

definition kept where
  "kept t t' \<longleftrightarrow> sc_inv i t' \<and> key_of' (psa_store t') = keys' \<and> slot_in_range t' \<and> same_wait t t'"

lemma kept_talk:
  assumes "kept t t'" and "adv_sim key_of keys (mac ka) s' a" and "cc_value (sc_counter t') \<le> next_counter s'"
  shows "talk s' t'"
  using assms by (auto simp: kept_def linked_def)

lemma kept_slot: "kept t t' \<Longrightarrow> own_slot l t' = own_slot l t"
  by (simp add: kept_def same_wait_def own_slot_def)

lemma own_slot_exists: "talk s t \<Longrightarrow> slot_exists (own_slot l t)"
  using valid_sub by (simp add: linked_def slot_exists_def own_slot_def slot_in_range_def SCANNER_RSP_SLOTS_def NUM_RSP_SLOTS_def)

lemma dispatch_kept:
  assumes "talk s t" and "t' = recv_dispatch pf' sync info buf t" and "receiving (zlog t') = receiving (zlog t)"
    and "timer_running (zlog t') = timer_running (zlog t)"
  shows "kept t t'"
proof -
  have "sc_inv i t" "slot_in_range t" "key_of' (psa_store t) = keys'" using assms(1) by (simp_all add: linked_def)
  with dispatch_keeps [OF this(1) assms(2)] assms(3,4) show ?thesis
    by (simp add: kept_def same_wait_def slot_in_range_def listening_def same_sync_def)
qed

lemma hears_message:
  assumes "talk s t"
  shows "sc_reading pf' t (new_messages s (request_cb pf full_period s) ! lk_sub l) =
      (if holder l s t = Held i 0 then Ack (next_counter s) else Nack (next_counter s))"
    and "new_messages s (request_cb pf full_period s) ! lk_sub l \<noteq> []"
proof -
  obtain a where sim: "adv_sim key_of keys (mac ka) s a" using assms by (auto simp: linked_def)
  have k: "key_is (key_of' (psa_store t)) (ADVERTISER_KEY_ID pf') ka" and slot: "slot_in_range t"
    and c: "cc_value (sc_counter t) \<le> period_counter a" and id: "CONFIG_SCANNER_ID t = i"
    using assms known_key by (simp_all add: linked_def sim_next_counter [OF sim] sc_inv_def)
  note m = period_message [OF rel sim advertiser_key k valid_sub slot c]
  have "ack_of v = i \<longleftrightarrow> v = Held i 0" for v
    using valid_id by (cases v) (auto split: if_splits)
  with m(1) show "sc_reading pf' t (new_messages s (request_cb pf full_period s) ! lk_sub l) =
      (if holder l s t = Held i 0 then Ack (next_counter s) else Nack (next_counter s))"
    by (simp add: holder_def own_slot_def view_at_def id sim_next_counter [OF sim])
  show "new_messages s (request_cb pf full_period s) ! lk_sub l \<noteq> []" by (rule m(2))
qed

lemma hear_acked:
  assumes "talk s t" and "listening t" and "recv t = Confirm_recv \<or> recv t = Ack_recv" and "holder l s t = Held i 0"
    and "t' = hear pf' l True (new_messages s (request_cb pf full_period s) ! lk_sub l) t"
  shows "kept t t'" and "cc_value (sc_counter t') = next_counter s" and "zlog t' = zlog t" and "sem_count (synced_evt_sem t') = 1"
    and "fault_reason t' = (if recv t = Confirm_recv then EVT_NO_FAULT else EVT_GOT_ACK)"
proof -
  note m = hears_message [OF assms(1)]
  have t': "t' = recv_dispatch pf' (lk_sync l) (lk_info l) (Some (buf_of (new_messages s (request_cb pf full_period s) ! lk_sub l))) t"
    using assms(2,5) by (simp add: hear_def)
  have "sc_inv i t" "slot_in_range t" using assms(1) by (simp_all add: linked_def)
  note a = dispatch_acked [OF this m(2) assms(3) t'] 
  from a m(1) assms(4) show r: "cc_value (sc_counter t') = next_counter s" "zlog t' = zlog t" "sem_count (synced_evt_sem t') = 1"
    "fault_reason t' = (if recv t = Confirm_recv then EVT_NO_FAULT else EVT_GOT_ACK)" by simp_all
  show "kept t t'" using dispatch_kept [OF assms(1) t'] r(2) by simp
qed

lemma hear_unacked:
  assumes "talk s t" and "listening t" and "waits k t" and "k < 4" and "unheard i (holder l s t)" and "adv_time s + 3 < 2 ^ 64"
    and "t' = hear pf' l True (new_messages s (request_cb pf full_period s) ! lk_sub l) t"
  shows "kept t t'" and "cc_value (sc_counter t') \<le> next_counter s + 1" and "waits (Suc k) t'" and "recv t' = recv t"
    and "k < 3 \<Longrightarrow> synced_evt_sem t' = synced_evt_sem t"
    and "k = 3 \<Longrightarrow> sem_count (synced_evt_sem t') = 1 \<and>
      fault_reason t' = (if recv t = Confirm_recv then EVT_CONFIRMATION_FAILED else EVT_DIDNT_RECEIVE_ACK)"
    and "if recv t = Ack_recv \<and> k = 3 then new_replies l t t' = []
      else \<exists>rep. new_replies l t t' = [rep] \<and> reply_from pf mac keys (next_counter s) (i, own_slot l t) rep"
    and "length (responses_sent (zlog t')) = length (responses_sent (zlog t)) + (if recv t = Ack_recv \<and> k = 3 then 0 else 1)"
proof -
  let ?m = "new_messages s (request_cb pf full_period s) ! lk_sub l"
  note m = hears_message [OF assms(1)]
  have t': "t' = recv_dispatch pf' (lk_sync l) (lk_info l) (Some (buf_of ?m)) t"
    using assms(2,7) by (simp add: hear_def)
  have t: "sc_inv i t" "slot_in_range t" "key_of' (psa_store t) = keys'" using assms(1) by (simp_all add: linked_def)
  have nack: "sc_reading pf' t ?m = Nack (next_counter s)"
    using m(1) assms(5) by (auto simp: unheard_def)
  note n = dispatch_nack [OF t(1,2) m(2) assms(3,4) t' nack] nack_keeps [OF t(2) m(2) assms(3,4) t' nack]
  have le: "next_counter s \<le> next_counter s + 1" by (rule adv_time_next) (use assms(6) in simp)
  have "if recv t = Ack_recv \<and> k = 3 then cc_value (sc_counter t') = next_counter s \<and> zlog t' = zlog t
    else cc_value (sc_counter t') = next_counter s + 1 \<and> (\<exists>r. zlog t' = zlog t @ [Bt_le_per_adv_set_response_data (lk_sync l)
        (response_params (lk_info l) t) (response_body r @ mac ks (response_body r))] \<and>
      sender_id (rsp_metadata r) = i \<and> resp_counter r = next_counter s \<and> response_sender (response_wire r) = Some i)"
  proof (cases "recv t = Ack_recv \<and> k = 3")
    case False
    with n(3) obtain r p where p: "key_of' p = keys'" "responded pf' (lk_sync l) (lk_info l) r t t' p" and c: "cc_value (sc_counter t') = next_counter s + 1"
      and r: "sender_id (rsp_metadata r) = i" "resp_counter r = next_counter s" "response_sender (response_wire r) = Some i"
      by (auto simp: t(3))
    have "mac_of pf' (MIN_SCANNER_KEY_ID pf') p (response_body r) = Some (mac ks (response_body r))"
      using key_mac_key [OF own_key] by (simp add: mac_of_key_mac [OF rel(2)] p(1))
    with p(2) c r False show ?thesis by (auto simp: responded_def)
  qed (use n(3) in simp)
  note z = this
  from z le show "cc_value (sc_counter t') \<le> next_counter s + 1" by (auto split: if_splits)
  from z have "receiving (zlog t') = receiving (zlog t)" "timer_running (zlog t') = timer_running (zlog t)" by (auto split: if_splits)
  from dispatch_kept [OF assms(1) t' this] show "kept t t'" .
  show "recv t' = recv t" by (rule n(6))
  show "waits (Suc k) t'" using n(1,5,6) assms(3) by (simp add: waits_def)
  show "synced_evt_sem t' = synced_evt_sem t" if "k < 3" using n(4) that by simp
  show "sem_count (synced_evt_sem t') = 1 \<and>
      fault_reason t' = (if recv t = Confirm_recv then EVT_CONFIRMATION_FAILED else EVT_DIDNT_RECEIVE_ACK)" if "k = 3"
    using n(2,4) that t(1) by (simp add: sca.sem_give sc_inv_def sem_ok_def)
  from z show "length (responses_sent (zlog t')) = length (responses_sent (zlog t)) + (if recv t = Ack_recv \<and> k = 3 then 0 else 1)"
    by (auto split: if_splits)
  have params: "response_slot (response_params (lk_info l) t) = rsp_slot (selected_slot t)"
      "response_subevent (response_params (lk_info l) t) = of_nat (lk_sub l)"
    using same_sub by (simp_all add: response_params_def)
  show "if recv t = Ack_recv \<and> k = 3 then new_replies l t t' = []
      else \<exists>rep. new_replies l t t' = [rep] \<and> reply_from pf mac keys (next_counter s) (i, own_slot l t) rep"
    using z params device_key by (auto simp: new_replies_def own_slot_def split: if_splits intro!: reply_fromI)
qed
end

section \<open>The main thread in between\<close>

text \<open>The main thread of the scanner leaves a wait and enters the next state function.\<close>

definition wake :: "'q platform \<Rightarrow> 'q scanner \<Rightarrow> 'q scanner option" where
  "wake pf t = Option.bind (sc_main pf t) (sc_main pf)"

text \<open>The scanner is asleep and its timer runs; it has been woken by the timer and waits for an
  ack; it has given up, or lost its sync, and looks for a new one, or for a reboot.\<close>

definition asleep :: "'q scanner \<Rightarrow> bool" where
  "asleep t \<longleftrightarrow> sc_at t = Sleeping_wait \<and> sem_count (synced_evt_sem t) = 0 \<and> default_sync t \<noteq> None \<and>
     \<not> receiving (zlog t) \<and> timer_running (zlog t)"

definition awake :: "'q scanner \<Rightarrow> bool" where
  "awake t \<longleftrightarrow> sc_at t = Enabled_wait \<and> sem_count (synced_evt_sem t) = 0 \<and> listening t \<and> timer_running (zlog t) \<and>
     recv t = Ack_recv \<and> response_has_data t"

definition gone :: "'q scanner \<Rightarrow> bool" where
  "gone t \<longleftrightarrow> default_sync t = None \<and> \<not> timer_running (zlog t) \<and> sem_count (synced_sem t) = 0 \<and> sem_count (synced_evt_sem t) = 0 \<and>
     (sc_at t = Syncing_wait \<or> sc_at t = Fault_slept \<or> sc_at t = At_run \<and> sc_state t = SC_FAULT_HANDLING)"

definition scan_starts :: "'q platform \<Rightarrow> bool" where
  "scan_starts pf \<longleftrightarrow> (\<forall>l. zephyr_ret pf l Bt_le_scan_start = 0)"

text \<open>What the link sees of the scanner.\<close>

definition same_link :: "'q scanner \<Rightarrow> 'q scanner \<Rightarrow> bool" where
  "same_link t t' \<longleftrightarrow> sc_frame t t' \<and> selected_slot t' = selected_slot t \<and> same_sync t t'"

lemma linked_same: "linked key_of keys tag key_of' keys' i s t \<Longrightarrow> same_link t t' \<Longrightarrow> sc_inv i t' \<Longrightarrow>
    linked key_of keys tag key_of' keys' i s t' \<and> holder l s t' = holder l s t"
  by (simp add: linked_def holder_def own_slot_def same_link_def sc_frame_def slot_in_range_def)

context pawr_platform
begin

lemma wake_enter:
  assumes "sc_inv i t" and "sc_main pf t = Some t1" and "sc_at t1 = At_run" and "t' = sc_run_state pf t1"
  shows "wake pf t = Some t'" and "sc_inv i t'"
proof -
  have t': "sc_main pf t1 = Some t'" using assms(3,4) by (simp add: sc_main_def)
  then show "wake pf t = Some t'" by (simp add: wake_def assms(2))
  show "sc_inv i t'" by (rule sc_main_inv [OF sc_main_inv [OF assms(1,2)] t'])
qed

lemmas main_thread_defs = same_link_def same_sync_def sc_frame_def sc_wait_def sc_return_def data_generator_init_def
  data_generator_stop_def zephyr_do_def

lemma wake_confirmed:
  assumes "sc_inv i t" and "sc_at t = Confirming_wait" and "sem_count (synced_evt_sem t) = 1" and "fault_reason t = EVT_NO_FAULT"
    and "default_sync t \<noteq> None"
  shows "\<exists>t'. wake pf t = Some t' \<and> sc_inv i t' \<and> same_link t t' \<and> asleep t' \<and> fault_reason t' = EVT_NO_FAULT"
proof -
  let ?t1 = "sc_return SLEEPING (data_generator_init (generator_config pf) (t\<lparr>synced_evt_sem := (synced_evt_sem t)\<lparr>sem_count := 0\<rparr>\<rparr>))"
  have "sc_main pf t = Some ?t1"
    using assms(2-4) by (simp add: sc_main_def confirming_resume_def sem_take sem_reset)
  note w = wake_enter [OF assms(1) this _ refl]
  have "sc_run_state pf ?t1 = sleeping_enter ?t1" by (simp add: sc_run_state_def)
  moreover have "same_link t (sleeping_enter ?t1) \<and> asleep (sleeping_enter ?t1) \<and> fault_reason (sleeping_enter ?t1) = EVT_NO_FAULT"
    using assms(4,5) by (auto simp: asleep_def sleeping_enter_def main_thread_defs)
  ultimately show ?thesis using w by simp
qed

lemma wake_acked:
  assumes "sc_inv i t" and "sc_at t = Enabled_wait" and "sem_count (synced_evt_sem t) = 1" and "fault_reason t = EVT_GOT_ACK"
    and "default_sync t \<noteq> None" and "timer_running (zlog t)"
  shows "\<exists>t'. wake pf t = Some t' \<and> sc_inv i t' \<and> same_link t t' \<and> asleep t' \<and> fault_reason t' = EVT_GOT_ACK"
proof -
  let ?t1 = "sc_return SLEEPING (zephyr_do (Bt_le_per_adv_sync_recv_disable (default_sync t)) (t\<lparr>synced_evt_sem := (synced_evt_sem t)\<lparr>sem_count := 0\<rparr>\<rparr>))"
  have "sc_main pf t = Some ?t1"
    using assms(2-4) by (simp add: sc_main_def enabled_resume_def sem_take sem_reset)
  note w = wake_enter [OF assms(1) this _ refl]
  have "sc_run_state pf ?t1 = sleeping_enter ?t1" by (simp add: sc_run_state_def)
  moreover have "same_link t (sleeping_enter ?t1) \<and> asleep (sleeping_enter ?t1) \<and> fault_reason (sleeping_enter ?t1) = EVT_GOT_ACK"
    using assms(4-6) by (auto simp: asleep_def sleeping_enter_def main_thread_defs)
  ultimately show ?thesis using w by simp
qed

text \<open>The timer expires, while the scanner sleeps or while it waits for an ack: it is enabled, with
  data, and listens.\<close>

lemma wake_generated:
  assumes "sc_inv i t" and "sc_at t = Sleeping_wait \<or> sc_at t = Enabled_wait" and "default_sync t \<noteq> None" and "timer_running (zlog t)"
  shows "\<exists>t'. wake pf (generate_data pf (generator_config pf) t) = Some t' \<and> sc_inv i t' \<and> same_link t t' \<and>
    awake t' \<and> unconfirmed_ticks t' = 0"
proof -
  define u where "u = generate_data pf (generator_config pf) t"
  have inv: "sc_inv i u" unfolding u_def by (rule generate_data_inv [OF assms(1)])
  have u: "sem_count (synced_evt_sem u) = 1" "fault_reason u = EVT_DATA_GENERATED" "sc_at u = sc_at t" "response_has_data u"
      "timer_running (zlog u)" "default_sync u \<noteq> None" "same_link t u"
    using assms by (simp_all add: u_def generate_data_def generator_config_def data_generated_cb_def
        give_synced_evt_def main_thread_defs sem_give sc_inv_def sem_ok_def Let_def)
  obtain t1 where t1: "sc_main pf u = Some t1" "sc_at t1 = At_run" "sc_state t1 = ENABLED" "same_link u t1" "response_has_data t1"
      "timer_running (zlog t1)" "sem_count (synced_evt_sem t1) = 0"
    using assms(2)
  proof
    assume "sc_at t = Sleeping_wait"
    then show thesis
      using that [of "sc_return ENABLED (u\<lparr>synced_evt_sem := k_sem_init pf 0 1, recv := No_recv\<rparr>)"] u
      by (simp add: sc_main_def sleeping_resume_def sem_take sem_init main_thread_defs)
  next
    assume "sc_at t = Enabled_wait"
    then show thesis
      using that [of "sc_return ENABLED (u\<lparr>synced_evt_sem := (synced_evt_sem u)\<lparr>sem_count := 0\<rparr>\<rparr>)"] u
      by (simp add: sc_main_def enabled_resume_def sem_take sem_reset main_thread_defs)
  qed
  note w = wake_enter [OF inv t1(1,2) refl]
  have "sc_run_state pf t1 = enabled_enter t1" by (simp add: sc_run_state_def t1(3))
  moreover have "same_link u (enabled_enter t1) \<and> awake (enabled_enter t1) \<and> unconfirmed_ticks (enabled_enter t1) = 0"
    using t1(4-7) u(6) by (auto simp: awake_def listening_def enabled_enter_def main_thread_defs Let_def)
  ultimately show ?thesis
    using u(7) w by (auto simp: same_link_def same_sync_def sc_frame_def simp flip: u_def)
qed

text \<open>A scanner that leaves for \<open>SYNCING\<close> or for a reboot is gone; one that gives up deletes its sync.\<close>

lemma wake_gone:
  assumes "sc_inv i t" and "sc_main pf t = Some t1" and "sc_at t1 = At_run"
    and "sc_state t1 = SYNCING \<or> sc_state t1 = SC_FAULT_HANDLING \<and> default_sync t1 = None"
    and "\<not> timer_running (zlog t1)" and "sem_count (synced_sem t1) = 0" and "sem_count (synced_evt_sem t1) = 0"
  shows "\<exists>t'. wake pf t = Some t' \<and> gone t' \<and> sc_counter t' = sc_counter t1 \<and>
    (sc_state t1 = SYNCING \<and> scan_starts pf \<longrightarrow> sc_at t' = Syncing_wait)"
proof -
  have "gone (sc_run_state pf t1) \<and> sc_counter (sc_run_state pf t1) = sc_counter t1 \<and> (sc_state t1 = SYNCING \<and> scan_starts pf \<longrightarrow> sc_at (sc_run_state pf t1) = Syncing_wait)"
    using assms(4)
  proof
    assume "sc_state t1 = SYNCING"
    then show ?thesis
      using assms(5-7) by (simp add: sc_run_state_def gone_def syncing_enter_def zephyr_call_def scan_starts_def main_thread_defs Let_def)
  next
    assume "sc_state t1 = SC_FAULT_HANDLING \<and> default_sync t1 = None"
    then show ?thesis
      using assms(5-7) by (simp add: sc_run_state_def gone_def handle_fault_enter_def main_thread_defs)
  qed
  with wake_enter [OF assms(1-3) refl] show ?thesis by simp
qed

lemma wake_failed:
  assumes "sc_inv i t" and "sem_count (synced_evt_sem t) = 1" and "sem_count (synced_sem t) = 0"
    and "sc_at t = Confirming_wait \<and> fault_reason t = EVT_CONFIRMATION_FAILED \<and> \<not> timer_running (zlog t) \<or>
      sc_at t = Enabled_wait \<and> fault_reason t = EVT_DIDNT_RECEIVE_ACK"
  shows "\<exists>t'. wake pf t = Some t' \<and> gone t'"
proof -
  obtain t1 where t1: "sc_main pf t = Some t1" "sc_at t1 = At_run" "sc_state t1 = SYNCING" "\<not> timer_running (zlog t1)"
      "sem_count (synced_sem t1) = 0" "sem_count (synced_evt_sem t1) = 0"
    using assms(2-4) by (auto simp: sc_main_def confirming_resume_def enabled_resume_def sem_take sem_reset main_thread_defs)
  with wake_gone [OF assms(1)] show ?thesis by blast
qed

text \<open>A scanner that is told of the loss of its sync before anything else happens looks for a new one; if
  the host says that the sync was deleted (22), it may reboot instead.\<close>

lemma wake_lost:
  assumes "sc_inv i t" and "sc_at t \<in> {Confirming_wait, Sleeping_wait, Enabled_wait}" and "sem_count (synced_sem t) = 0"
    and "sc_at t = Confirming_wait \<Longrightarrow> \<not> timer_running (zlog t)"
  shows "\<exists>t'. wake pf (term_cb pf reason t) = Some t' \<and> gone t' \<and> sc_counter t' = sc_counter t \<and>
    (reason \<noteq> 22 \<and> scan_starts pf \<longrightarrow> sc_at t' = Syncing_wait)"
proof -
  define u where "u = term_cb pf reason t"
  have inv: "sc_inv i u" unfolding u_def by (rule term_cb_inv [OF assms(1)])
  have u: "sem_count (synced_evt_sem u) = 1" "sc_at u = sc_at t" "synced_sem u = synced_sem t" "zlog u = zlog t" "default_sync u = None"
      "reason = 22 \<and> fault_reason u = EVT_BLE_SYNC_DELETED \<or> reason \<noteq> 22 \<and> fault_reason u = EVT_BLE_SYNC_TIMEOUT" "sc_counter u = sc_counter t"
    using assms(1) by (simp_all add: u_def term_cb_def sem_give sc_inv_def sem_ok_def Let_def)
  have "\<exists>t1. sc_main pf u = Some t1 \<and> sc_at t1 = At_run \<and> (sc_state t1 = SYNCING \<or> sc_state t1 = SC_FAULT_HANDLING \<and> default_sync t1 = None) \<and>
      \<not> timer_running (zlog t1) \<and> sem_count (synced_sem t1) = 0 \<and> sem_count (synced_evt_sem t1) = 0 \<and> sc_counter t1 = sc_counter t \<and>
      (reason \<noteq> 22 \<longrightarrow> sc_state t1 = SYNCING)"
    using assms(2)
  proof (elim insertE emptyE)
    assume at: "sc_at t = Confirming_wait"
    then have "sc_main pf u = Some (sc_return SYNCING (u\<lparr>synced_evt_sem := (synced_evt_sem u)\<lparr>sem_count := 0\<rparr>, recv := No_recv\<rparr>))"
      using u by (auto simp: sc_main_def confirming_resume_def sem_take sem_reset Let_def)
    then show ?thesis using u assms(3) assms(4) [OF at] by (simp add: main_thread_defs)
  next
    assume "sc_at t = Sleeping_wait"
    then show ?thesis
      using u assms(3) by (elim disjE; simp add: sc_main_def sleeping_resume_def sem_take sem_init main_thread_defs)
  next
    assume "sc_at t = Enabled_wait"
    then show ?thesis
      using u assms(3) by (elim disjE; simp add: sc_main_def enabled_resume_def sem_take sem_reset main_thread_defs)
  qed
  then obtain t1 where t1: "sc_main pf u = Some t1" "sc_at t1 = At_run" "sc_state t1 = SYNCING \<or> sc_state t1 = SC_FAULT_HANDLING \<and> default_sync t1 = None"
      "\<not> timer_running (zlog t1)" "sem_count (synced_sem t1) = 0" "sem_count (synced_evt_sem t1) = 0"
      "sc_counter t1 = sc_counter t"
    and at: "reason \<noteq> 22 \<Longrightarrow> sc_state t1 = SYNCING"
    by blast
  from wake_gone [OF inv t1(1-6)] t1(7) at show ?thesis by (auto simp: u_def)
qed

end

interpretation ref_pair: radio_pair "store_platform h ret rnd parse" "\<lambda>p. p" "store_platform h ret' rnd' parse'" "\<lambda>p. p" "mac32 h"
  demo_keys demo_keys "demo_key 7" "demo_key 9" 1 "\<lparr>lk_sub = 0, lk_sync = sync, lk_info = \<lparr>recv_subevent = 0, periodic_event_counter = e\<rparr>, lk_rssi = q\<rparr>"
proof unfold_locales
  show "key_is demo_keys (ADVERTISER_KEY_ID (store_platform h ret rnd parse)) (demo_key 7)"
    "key_is demo_keys (scanner_key_id (store_platform h ret rnd parse) 1) (demo_key 9)"
    "key_is demo_keys (ADVERTISER_KEY_ID (store_platform h ret' rnd' parse')) (demo_key 7)"
    "key_is demo_keys (MIN_SCANNER_KEY_ID (store_platform h ret' rnd' parse')) (demo_key 9)"
    using demo_keys_shared by (simp_all add: key_ids demo_def store_platform_def)
qed (simp_all add: adv_sizes)

end
