(* ===== verification/Fleet.thy ===== *)
theory Fleet
  imports Radio_Link Exchange
begin

text \<open>
  The advertiser and any number of scanners, round by round: timers expire, main threads run until
  they wait, the advertiser is asked for a period, and syncs are kept or lost, messages and responses get
  through or are lost. Each scanner goes through the phases of a small automaton, whatever the others do.
\<close>

section \<open>A round of the network\<close>

record 'q station =
  st_platform :: "'q platform"
  st_link :: link
  st_id :: u16
  st_dev :: "'q scanner"

text \<open>What happens to a station in a round: its timer expires, the host loses its sync, for some reason,
  the message of its subevent reaches it, its response reaches the advertiser.\<close>

record fate =
  ft_timer :: bool
  ft_lost :: "u8 option"
  ft_down :: bool
  ft_up :: bool

text \<open>The main thread runs until it waits: it leaves its wait, if it can, and enters the next
  state function.\<close>

definition settle :: "'q platform \<Rightarrow> 'q scanner \<Rightarrow> 'q scanner" where
  "settle pf t =
     (case sc_main pf t of None \<Rightarrow> t | Some t1 \<Rightarrow> (case sc_main pf t1 of None \<Rightarrow> t1 | Some t2 \<Rightarrow> t2))"

definition expire :: "'q platform \<Rightarrow> bool \<Rightarrow> 'q scanner \<Rightarrow> 'q scanner" where
  "expire pf f t = (if f \<and> timer_running (zlog t) then generate_data pf (generator_config pf) t else t)"

definition lose :: "'q platform \<Rightarrow> u8 option \<Rightarrow> 'q scanner \<Rightarrow> 'q scanner" where
  "lose pf r t = (case r of None \<Rightarrow> t | Some reason \<Rightarrow> if default_sync t = None then t else term_cb pf reason t)"

definition prepare :: "fate \<Rightarrow> 'q station \<Rightarrow> 'q station" where
  "prepare f q = q\<lparr>st_dev := settle (st_platform q)
     (lose (st_platform q) (ft_lost f) (expire (st_platform q) (ft_timer f) (st_dev q)))\<rparr>"

definition downlink :: "byte list list \<Rightarrow> fate \<Rightarrow> 'q station \<Rightarrow> 'q station" where
  "downlink ms f q = q\<lparr>st_dev := hear (st_platform q) (st_link q) (ft_down f) (ms ! lk_sub (st_link q)) (st_dev q)\<rparr>"

definition uplink :: "fate \<Rightarrow> 'q station \<Rightarrow> 'q station \<Rightarrow> reply list" where
  "uplink f q q' = (if ft_up f then new_replies (st_link q) (st_dev q) (st_dev q') else [])"

definition network_round :: "'p platform \<Rightarrow> fate list \<Rightarrow> 'p advertiser \<times> 'q station list \<Rightarrow> 'p advertiser \<times> 'q station list" where
  "network_round pf fs = (\<lambda>(s, qs).
     let qs1 = map2 prepare fs qs;
         s1 = request_cb pf full_period s;
         qs2 = map2 (downlink (new_messages s s1)) fs qs1;
         rs = concat (map (\<lambda>n. uplink (fs ! n) (qs1 ! n) (qs2 ! n)) [0..<length qs2])
     in (take_replies pf rs s1, qs2))"

section \<open>The phases of a station\<close>

text \<open>\<open>True\<close>: it waits for the confirmation of its registration, \<open>False\<close>: for the ack of its data.
  \<open>Asking c k\<close>: the advertiser has not heard it since the last message it acked, and the station has
  counted \<open>k\<close> messages; \<open>Heard c k\<close>: the next message will be the ack.\<close>

datatype phase = Asleep | Asking bool nat | Heard bool nat | Told bool | Failed bool | Gone

fun after_timer :: "bool \<Rightarrow> phase \<Rightarrow> phase" where
  "after_timer f Asleep = (if f then Asking False 0 else Asleep)"
| "after_timer f (Asking c k) = (if f \<and> \<not> c then Asking False 0 else Asking c k)"
| "after_timer f (Heard c k) = (if f \<and> \<not> c then Heard False 0 else Heard c k)"
| "after_timer f (Told c) = (if f \<and> \<not> c then Asking False 0 else Asleep)"
| "after_timer f (Failed c) = (if f \<and> \<not> c then Asking False 0 else Gone)"
| "after_timer f Gone = Gone"

fun after_air :: "bool \<Rightarrow> bool \<Rightarrow> phase \<Rightarrow> phase" where
  "after_air down up (Asking c k) =
     (if \<not> down then Asking c k else if 3 \<le> k then Failed c else if up then Heard c (Suc k) else Asking c (Suc k))"
| "after_air down up (Heard c k) = (if down then Told c else Asking c k)"
| "after_air down up ph = ph"

text \<open>The timer and the loss of the sync come before the messages.\<close>

definition after_wait :: "fate \<Rightarrow> phase \<Rightarrow> phase" where
  "after_wait f ph = (if ft_lost f = None then after_timer (ft_timer f) ph else Gone)"

text \<open>Whether a response of the station reaches the advertiser: it answers every message that it counts
  as a missed confirmation, and the first three that it counts as a missed ack.\<close>

fun answers :: "bool \<Rightarrow> bool \<Rightarrow> phase \<Rightarrow> bool" where
  "answers down up (Asking c k) = (down \<and> up \<and> (c \<or> k < 3))"
| "answers down up ph = False"

fun waiting_phase :: "phase \<Rightarrow> bool" where
  "waiting_phase Asleep = True"
| "waiting_phase (Asking c k) = True"
| "waiting_phase (Heard c k) = True"
| "waiting_phase ph = False"

lemma after_wait_waiting: "waiting_phase (after_wait f ph) \<or> after_wait f ph = Gone"
  by (cases ph) (auto simp: after_wait_def)

definition next_phase :: "fate \<Rightarrow> phase \<Rightarrow> phase" where
  "next_phase f ph = after_air (ft_down f) (ft_up f) (after_wait f ph)"

definition sends :: "fate \<Rightarrow> phase \<Rightarrow> bool" where
  "sends f ph = answers (ft_down f) (ft_up f) (after_wait f ph)"

text \<open>What a phase says of the scanner and of its slot.\<close>

definition wait_point :: "bool \<Rightarrow> sc_point" where
  "wait_point c = (if c then Confirming_wait else Enabled_wait)"

definition expects :: "bool \<Rightarrow> nat \<Rightarrow> 'q scanner \<Rightarrow> bool" where
  "expects c k t \<longleftrightarrow> sc_at t = wait_point c \<and> recv t = (if c then Confirm_recv else Ack_recv) \<and> listening t \<and> waits k t \<and> k < 4 \<and>
     timer_running (zlog t) = (\<not> c) \<and> sem_count (synced_evt_sem t) = 0"

definition informed :: "bool \<Rightarrow> evt_t \<Rightarrow> 'q scanner \<Rightarrow> bool" where
  "informed c e t \<longleftrightarrow> sc_at t = wait_point c \<and> listening t \<and> timer_running (zlog t) = (\<not> c) \<and>
     sem_count (synced_evt_sem t) = 1 \<and> fault_reason t = e"

fun in_phase :: "u16 \<Rightarrow> phase \<Rightarrow> slot_view \<Rightarrow> 'q scanner \<Rightarrow> bool" where
  "in_phase i Asleep v t \<longleftrightarrow> asleep t \<and> unheard i v"
| "in_phase i (Asking c k) v t \<longleftrightarrow> expects c k t \<and> unheard i v"
| "in_phase i (Heard c k) v t \<longleftrightarrow> expects c k t \<and> v = Held i 0"
| "in_phase i (Told c) v t \<longleftrightarrow> informed c (if c then EVT_NO_FAULT else EVT_GOT_ACK) t \<and> unheard i v"
| "in_phase i (Failed c) v t \<longleftrightarrow> informed c (if c then EVT_CONFIRMATION_FAILED else EVT_DIDNT_RECEIVE_ACK) t \<and> (c \<or> unheard i v)"
| "in_phase i Gone v t \<longleftrightarrow> gone t"

definition station_slot :: "'q station \<Rightarrow> nat \<times> nat" where
  "station_slot q = own_slot (st_link q) (st_dev q)"

definition station_ok ::
    "'p platform \<Rightarrow> ('p \<Rightarrow> psa_key_id_t \<Rightarrow> stored_key option) \<Rightarrow> ('q \<Rightarrow> psa_key_id_t \<Rightarrow> stored_key option) \<Rightarrow>
     (byte list \<Rightarrow> byte list \<Rightarrow> byte list) \<Rightarrow> (psa_key_id_t \<Rightarrow> stored_key option) \<Rightarrow> byte list \<Rightarrow>
     'p advertiser \<Rightarrow> 'q station \<Rightarrow> phase \<Rightarrow> bool" where
  "station_ok pf key_of key_of' mac keys ka s q ph \<longleftrightarrow> pawr_platform (st_platform q) key_of' mac \<and> in_phase (st_id q) ph (view_at s (station_slot q)) (st_dev q) \<and>
     (ph \<noteq> Gone \<longrightarrow> sem_count (synced_sem (st_dev q)) = 0 \<and> (\<exists>keys' ks.
        radio_pair pf key_of (st_platform q) key_of' mac keys keys' ka ks (st_id q) (st_link q) \<and>
        linked key_of keys (mac ka) key_of' keys' (st_id q) s (st_dev q)))"

text \<open>The fleet: the stations that are still there have slots of their own.\<close>

definition fleet_ok where
  "fleet_ok pf key_of key_of' mac keys ka s qs phs \<longleftrightarrow>
     (\<exists>a. adv_sim key_of keys (mac ka) s a) \<and> length phs = length qs \<and>
     (\<forall>n < length qs. station_ok pf key_of key_of' mac keys ka s (qs ! n) (phs ! n)) \<and>
     (\<forall>m < length qs. \<forall>n < length qs. m \<noteq> n \<longrightarrow> phs ! m \<noteq> Gone \<longrightarrow> phs ! n \<noteq> Gone \<longrightarrow>
        station_slot (qs ! m) \<noteq> station_slot (qs ! n))"

section \<open>Between the periods\<close>

lemma settle_wake: "wake pf t = Some t' \<Longrightarrow> settle pf t = t'"
  by (auto simp: wake_def settle_def split: option.splits Option.bind_splits)

context pawr_platform
begin

lemma settle_waiting: "sem_count (synced_evt_sem t) = 0 \<Longrightarrow> sc_at t \<in> {Confirming_wait, Sleeping_wait, Enabled_wait} \<Longrightarrow> settle pf t = t"
  by (auto simp: settle_def sc_main_def confirming_resume_def sleeping_resume_def enabled_resume_def sem_take)

lemma settle_scanning: "sc_at t = Syncing_wait \<Longrightarrow> sem_count (synced_sem t) = 0 \<Longrightarrow> settle pf t = t"
  by (simp add: settle_def sc_main_def syncing_resume_def sem_take)

lemma settle_gone:
  assumes "gone t"
  shows "gone (settle pf t) \<and> sc_counter (settle pf t) = sc_counter t"
proof -
  have "sc_at t = Syncing_wait \<or> sc_at t = Fault_slept \<or> sc_at t = At_run \<and> sc_state t = SC_FAULT_HANDLING"
    using assms by (simp add: gone_def)
  then show ?thesis
  proof (elim disjE conjE)
    assume "sc_at t = At_run" "sc_state t = SC_FAULT_HANDLING"
    then have "settle pf t = handle_fault_enter t"
      by (simp add: settle_def sc_main_def sc_run_state_def handle_fault_enter_def sc_wait_def zephyr_do_def)
    with assms show ?thesis by (simp add: gone_def handle_fault_enter_def sc_wait_def zephyr_do_def)
  qed (use assms in \<open>simp_all add: settle_def sc_main_def syncing_resume_def sem_take gone_def\<close>)
qed

end

context radio_pair
begin

subsection \<open>The timer and the main thread\<close>

abbreviation goes_on where
  "goes_on s t ph' t' \<equiv> in_phase i ph' (holder l s t') t' \<and>
     (ph' \<noteq> Gone \<longrightarrow> talk s t' \<and> sem_count (synced_sem t') = 0 \<and> own_slot l t' = own_slot l t)"

lemma phase_timer:
  assumes "in_phase i ph v t" and "ph \<noteq> Gone"
  shows "after_timer f ph = after_timer (f \<and> timer_running (zlog t)) ph"
    and "timer_running (zlog t) \<Longrightarrow> (sc_at t = Sleeping_wait \<or> sc_at t = Enabled_wait) \<and> default_sync t \<noteq> None"
    and "timer_running (zlog t) \<Longrightarrow> expects False 0 u \<Longrightarrow> in_phase i (after_timer True ph) v u"
  using assms by (cases ph; auto simp: asleep_def expects_def informed_def wait_point_def listening_def)+

lemma linked_on:
  assumes "talk s t" and "sem_count (synced_sem t) = 0" and "sc_inv i u" and "same_link t u"
  shows "talk s u \<and> holder l s u = holder l s t \<and> sem_count (synced_sem u) = 0 \<and> own_slot l u = own_slot l t"
  using linked_same [OF assms(1,4,3), of l] assms(2,4) by (simp add: same_link_def same_sync_def own_slot_def)

lemma timer_fires:
  assumes "talk s t" and "sem_count (synced_sem t) = 0" and "in_phase i ph (holder l s t) t" and "ph \<noteq> Gone" and "timer_running (zlog t)"
  shows "goes_on s t (after_timer True ph) (settle pf' (generate_data pf' (generator_config pf') t))"
proof -
  have inv: "sc_inv i t" using assms(1) by (simp add: linked_def)
  note p = phase_timer(2,3) [OF assms(3-5)]
  from sca.wake_generated [OF inv _ _ assms(5)] p(1) obtain u where
    u: "wake pf' (generate_data pf' (generator_config pf') t) = Some u" "sc_inv i u" "same_link t u" "awake u" "unconfirmed_ticks u = 0"
    by blast
  have "expects False 0 u" using u(4,5) by (simp add: awake_def expects_def waits_def wait_point_def)
  from p(2) [OF this] linked_on [OF assms(1,2) u(2,3)] settle_wake [OF u(1)] show ?thesis by simp
qed

lemma main_thread_runs:
  assumes "talk s t" and "sem_count (synced_sem t) = 0" and "in_phase i ph (holder l s t) t" and "ph \<noteq> Gone"
  shows "goes_on s t (after_timer False ph) (settle pf' t)"
proof -
  have inv: "sc_inv i t" using assms(1) by (simp add: linked_def)
  have stays: ?thesis if "waiting_phase ph"
  proof -
    have "settle pf' t = t"
      using assms(3) that by (cases ph) (auto simp: asleep_def expects_def wait_point_def sca.settle_waiting)
    moreover have "after_timer False ph = ph" using that by (cases ph) simp_all
    ultimately show ?thesis using assms by simp
  qed
  have sleeps: ?thesis if "wake pf' t = Some u" "sc_inv i u" "same_link t u" "asleep u" "unheard i (holder l s t)" "after_timer False ph = Asleep" for u
    using that linked_on [OF assms(1,2) that(2,3)] settle_wake [OF that(1)] by simp
  show ?thesis
  proof (cases ph)
    case (Told c)
    with assms(3) have t: "sc_at t = wait_point c" "default_sync t \<noteq> None" "timer_running (zlog t) = (\<not> c)" "sem_count (synced_evt_sem t) = 1"
        "fault_reason t = (if c then EVT_NO_FAULT else EVT_GOT_ACK)" "unheard i (holder l s t)"
      by (simp_all add: informed_def listening_def)
    then obtain u where "wake pf' t = Some u" "sc_inv i u" "same_link t u" "asleep u"
      using sca.wake_confirmed [OF inv _ t(4) _ t(2)] sca.wake_acked [OF inv _ t(4) _ t(2)] by (cases c) (auto simp: wait_point_def)
    from sleeps [OF this t(6)] Told show ?thesis by simp
  next
    case (Failed c)
    with assms(3) have "sc_at t = wait_point c" "timer_running (zlog t) = (\<not> c)" "sem_count (synced_evt_sem t) = 1"
        "fault_reason t = (if c then EVT_CONFIRMATION_FAILED else EVT_DIDNT_RECEIVE_ACK)"
      by (simp_all add: informed_def)
    then obtain u where "wake pf' t = Some u" "gone u"
      using sca.wake_failed [OF inv _ assms(2)] by (cases c) (auto simp: wait_point_def)
    with settle_wake [of pf' t u] Failed show ?thesis by simp
  qed (use stays assms(4) in simp_all)
qed

lemma expired:
  assumes "talk s t" and "sem_count (synced_sem t) = 0" and "in_phase i ph (holder l s t) t" and "ph \<noteq> Gone"
  shows "goes_on s t (after_timer f ph) (settle pf' (expire pf' f t))"
proof (cases "f \<and> timer_running (zlog t)")
  case True
  with timer_fires [OF assms(1-4)] show ?thesis by (simp add: expire_def)
next
  case False
  have "after_timer f ph = after_timer (f \<and> timer_running (zlog t)) ph" by (rule phase_timer(1) [OF assms(3,4)])
  also have "\<dots> = after_timer False ph" using False by (simp only: refl)
  finally have ph': "after_timer f ph = after_timer False ph" .
  have t': "expire pf' f t = t" using False by (simp only: expire_def if_False)
  show ?thesis unfolding ph' t' by (rule main_thread_runs [OF assms(1-4)])
qed

text \<open>The sync is lost, and the main thread runs before anything else happens.\<close>

lemma sync_lost:
  assumes "sc_inv i t" and "sem_count (synced_sem t) = 0" and "in_phase i ph v t" and "ph \<noteq> Gone"
  shows "gone (settle pf' (lose pf' (Some reason) (expire pf' f t))) \<and>
    sc_counter (settle pf' (lose pf' (Some reason) (expire pf' f t))) = sc_counter t \<and>
    (reason \<noteq> 22 \<and> scan_starts pf' \<longrightarrow> sc_at (settle pf' (lose pf' (Some reason) (expire pf' f t))) = Syncing_wait)"
proof -
  let ?u = "expire pf' f t"
  have inv: "sc_inv i ?u" using sca.generate_data_inv [OF assms(1)] assms(1) by (simp add: expire_def)
  have u: "sc_at ?u = sc_at t" "timer_running (zlog ?u) = timer_running (zlog t)" "synced_sem ?u = synced_sem t" "default_sync ?u = default_sync t"
      "sc_counter ?u = sc_counter t"
    by (simp_all add: expire_def generate_data_def generator_config_def data_generated_cb_def give_synced_evt_def zephyr_do_def Let_def)
  have t: "sc_at t \<in> {Confirming_wait, Sleeping_wait, Enabled_wait}" "sc_at t = Confirming_wait \<Longrightarrow> \<not> timer_running (zlog t)" "default_sync t \<noteq> None"
    using assms(3,4) by (cases ph; auto simp: asleep_def expects_def informed_def wait_point_def listening_def)+
  from sca.wake_lost [OF inv, of reason] assms(2) t(1,2) obtain t' where "wake pf' (term_cb pf' reason ?u) = Some t'" "gone t'" "sc_counter t' = sc_counter t" "reason \<noteq> 22 \<and> scan_starts pf' \<longrightarrow> sc_at t' = Syncing_wait"
    unfolding u by blast
  then show ?thesis using settle_wake t(3) by (fastforce simp: lose_def u(4))
qed

subsection \<open>The air\<close>

text \<open>The message of the period, if it gets through, and the answer to it, if that does.\<close>

lemma lost_message: "sc_inv i t \<Longrightarrow> hear pf' l False m t = t"
  by (auto simp: hear_def confirm_recv_cb_def ack_recv_cb_def elim: recv_dispatch_cases [of i t pf' "lk_sync l" "lk_info l" None])

lemma expects_answers:
  assumes "expects c k t"
  shows "listening t" and "waits k t" and "k < 4" and "recv t = Confirm_recv \<or> recv t = Ack_recv"
  using assms by (auto simp: expects_def)

lemma kept_expects:
  assumes "expects c k t" and "kept t t'" and "waits k' t'" and "recv t' = recv t" and "k' < 4" and "synced_evt_sem t' = synced_evt_sem t"
  shows "expects c k' t'"
  using assms by (auto simp: expects_def kept_def same_wait_def)

lemma kept_informed:
  assumes "expects c k t" and "kept t t'" and "sem_count (synced_evt_sem t') = 1" and "fault_reason t' = e"
  shows "informed c e t'"
  using assms by (auto simp: expects_def informed_def kept_def same_wait_def)

lemma talk_later:
  assumes "talk s t" and "\<exists>b. adv_sim key_of keys (mac ka) s' b" and "next_counter s + 1 \<le> next_counter s'" and "adv_time s + 3 < 2 ^ 64"
  shows "talk s' t"
  using assms adv_time_next [of s] by (force simp: linked_def)

text \<open>The advertiser's side of the period comes afterwards: \<open>s'\<close> is its state at the end.\<close>

abbreviation moves_on where
  "moves_on s t rs ph' t' \<equiv> (\<forall>s'. (\<exists>b. adv_sim key_of keys (mac ka) s' b) \<longrightarrow> next_counter s + 1 \<le> next_counter s' \<longrightarrow>
     view_at s' (own_slot l t) = (if rs = [] then age (holder l s t) else Held i 0) \<longrightarrow>
     talk s' t' \<and> sem_count (synced_sem t') = 0 \<and> own_slot l t' = own_slot l t \<and> in_phase i ph' (holder l s' t') t')"

lemma moves_on_kept:
  assumes "kept t t'" and "sem_count (synced_sem t) = 0" and "cc_value (sc_counter t') \<le> next_counter s + 1"
    and "in_phase i ph' (if rs = [] then age (holder l s t) else Held i 0) t'"
  shows "moves_on s t rs ph' t'"
proof (intro allI impI)
  fix s' assume s': "\<exists>b. adv_sim key_of keys (mac ka) s' b" "next_counter s + 1 \<le> next_counter s'"
    "view_at s' (own_slot l t) = (if rs = [] then age (holder l s t) else Held i 0)"
  have "talk s' t'" using kept_talk [OF assms(1)] s'(1,2) assms(3) by auto
  moreover have "sem_count (synced_sem t') = 0" using assms(1,2) by (simp add: kept_def same_wait_def same_sync_def)
  ultimately show "talk s' t' \<and> sem_count (synced_sem t') = 0 \<and> own_slot l t' = own_slot l t \<and> in_phase i ph' (holder l s' t') t'"
    using kept_slot [OF assms(1)] assms(4) s'(3) by (simp add: holder_def)
qed

lemma air_silent:
  assumes "talk s t" and "sem_count (synced_sem t) = 0" and "adv_time s + 3 < 2 ^ 64" and "in_phase i ph' (age (holder l s t)) t"
  shows "moves_on s t [] ph' t"
  using talk_later [OF assms(1) _ _ assms(3)] assms(2,4) by (auto simp: holder_def)

lemma air_answered:
  assumes "talk s t" and "sem_count (synced_sem t) = 0" and "adv_time s + 3 < 2 ^ 64" and e: "expects c k t" "unheard i (holder l s t)"
    and t': "t' = hear pf' l True (new_messages s (request_cb pf full_period s) ! lk_sub l) t" and rs: "rs = (if up then new_replies l t t' else [])"
  shows "rs = [] \<or> (\<exists>rep. rs = [rep] \<and> reply_from pf mac keys (next_counter s) (i, own_slot l t) rep)"
    and "rs = [] \<longleftrightarrow> \<not> answers True up (Asking c k)" and "moves_on s t rs (after_air True up (Asking c k)) t'"
proof -
  note x = expects_answers [OF e(1)]
  note h = hear_unacked [OF assms(1) x(1,2,3) e(2) assms(3) t']
  have c: "recv t = Ack_recv \<longleftrightarrow> \<not> c" using e(1) by (simp add: expects_def)
  show "rs = [] \<longleftrightarrow> \<not> answers True up (Asking c k)"
    using h(7) x(3) c by (cases "k = 3") (auto simp: rs split: if_splits)
  show "rs = [] \<or> (\<exists>rep. rs = [rep] \<and> reply_from pf mac keys (next_counter s) (i, own_slot l t) rep)"
    using h(7) by (auto simp: rs split: if_splits)
  have "in_phase i (after_air True up (Asking c k)) (if rs = [] then age (holder l s t) else Held i 0) t'"
  proof (cases "k = 3")
    case True
    then have "informed c (if c then EVT_CONFIRMATION_FAILED else EVT_DIDNT_RECEIVE_ACK) t'"
      using kept_informed [OF e(1) h(1)] h(6) e(1) by (cases c) (simp_all add: expects_def)
    moreover have "rs = []" if "\<not> c" using h(7) True c that by (simp add: rs)
    ultimately show ?thesis using unheard_age [OF e(2)] True by (cases c) simp_all
  next
    case False
    with x(3) have k: "k < 3" by simp
    have "rs = [] \<longleftrightarrow> \<not> up" using h(7) False by (auto simp: rs)
    moreover have "expects c (Suc k) t'" using kept_expects [OF e(1) h(1,3,4)] h(5) k by simp
    ultimately show ?thesis using k unheard_age [OF e(2)] by simp
  qed
  then show "moves_on s t rs (after_air True up (Asking c k)) t'" by (rule moves_on_kept [OF h(1) assms(2) h(2)])
qed

lemma air_acked:
  assumes "talk s t" and "sem_count (synced_sem t) = 0" and "adv_time s + 3 < 2 ^ 64" and e: "expects c k t" "holder l s t = Held i 0"
    and t': "t' = hear pf' l True (new_messages s (request_cb pf full_period s) ! lk_sub l) t"
  shows "new_replies l t t' = []" and "moves_on s t [] (Told c) t'"
proof -
  note x = expects_answers [OF e(1)]
  note h = hear_acked [OF assms(1) x(1,4) e(2) t']
  show "new_replies l t t' = []" using h(3) by (simp add: new_replies_def)
  have "informed c (if c then EVT_NO_FAULT else EVT_GOT_ACK) t'"
    using kept_informed [OF e(1) h(1,4)] h(5) e(1) by (cases c) (simp_all add: expects_def)
  then have "in_phase i (Told c) (age (holder l s t)) t'"
    by (simp add: e(2) unheard_def MAX_SILENT_def EVENTS_PER_BLOCK_def)
  moreover have "cc_value (sc_counter t') \<le> next_counter s + 1" using h(2) adv_time_next [of s] assms(3) by simp
  ultimately show "moves_on s t [] (Told c) t'" using moves_on_kept [OF h(1) assms(2), of s "Told c" "[]"] by simp
qed

lemma aired:
  assumes talk: "talk s t" and sem: "sem_count (synced_sem t) = 0" and ph: "in_phase i ph (holder l s t) t"
    and settled: "waiting_phase ph" and room: "adv_time s + 3 < 2 ^ 64"
    and t': "t' = hear pf' l down (new_messages s (request_cb pf full_period s) ! lk_sub l) t" and rs: "rs = (if up then new_replies l t t' else [])"
  shows "rs = [] \<or> (\<exists>rep. rs = [rep] \<and> reply_from pf mac keys (next_counter s) (i, own_slot l t) rep \<and> unheard i (holder l s t))"
    and "rs = [] \<longleftrightarrow> \<not> answers down up ph" and "moves_on s t rs (after_air down up ph) t'"
proof -
  have inv: "sc_inv i t" using talk by (simp add: linked_def)
  have lost: "t' = t \<and> rs = []" if "\<not> down \<or> ph = Asleep"
    using that lost_message [OF inv] ph by (auto simp: t' rs new_replies_def hear_def asleep_def listening_def)
  have "(rs = [] \<or> (\<exists>rep. rs = [rep] \<and> reply_from pf mac keys (next_counter s) (i, own_slot l t) rep \<and> unheard i (holder l s t))) \<and>
    (rs = [] \<longleftrightarrow> \<not> answers down up ph) \<and> moves_on s t rs (after_air down up ph) t'"
  proof (cases "\<not> down \<or> ph = Asleep")
    case True
    have "in_phase i (after_air down up ph) (age (holder l s t)) t"
      using True ph settled unheard_age [of i "holder l s t"] by (cases ph) (auto simp: unheard_def MAX_SILENT_def EVENTS_PER_BLOCK_def)
    moreover have "\<not> answers down up ph" using True by (cases ph) auto
    ultimately show ?thesis using air_silent [OF talk sem room, of "after_air down up ph"] lost [OF True] by simp
  next
    case False
    then have down: "down" "t' = hear pf' l True (new_messages s (request_cb pf full_period s) ! lk_sub l) t" using t' by simp_all
    show ?thesis
    proof (cases ph)
      case (Asking c k)
      with ph have e: "expects c k t" "unheard i (holder l s t)" by simp_all
      from air_answered [OF talk sem room e down(2) rs] Asking down(1) e(2) show ?thesis by auto
    next
      case (Heard c k)
      with ph have e: "expects c k t" "holder l s t = Held i 0" by simp_all
      from air_acked [OF talk sem room e down(2)] Heard down(1) show ?thesis by (simp add: rs)
    qed (use settled False in simp_all)
  qed
  then show "rs = [] \<or> (\<exists>rep. rs = [rep] \<and> reply_from pf mac keys (next_counter s) (i, own_slot l t) rep \<and> unheard i (holder l s t))"
    and "rs = [] \<longleftrightarrow> \<not> answers down up ph" and "moves_on s t rs (after_air down up ph) t'" by blast+
qed

end

section \<open>All stations\<close>

lemma prepare_simps [simp]:
  "st_platform (prepare f q) = st_platform q" "st_link (prepare f q) = st_link q" "st_id (prepare f q) = st_id q"
  "st_platform (downlink ms f q) = st_platform q" "st_link (downlink ms f q) = st_link q" "st_id (downlink ms f q) = st_id q"
  by (simp_all add: prepare_def downlink_def)

lemma station_okE:
  assumes "station_ok pf key_of key_of' mac keys ka s q ph" and "ph \<noteq> Gone"
  obtains keys' ks where "radio_pair pf key_of (st_platform q) key_of' mac keys keys' ka ks (st_id q) (st_link q)"
    "linked key_of keys (mac ka) key_of' keys' (st_id q) s (st_dev q)" "sem_count (synced_sem (st_dev q)) = 0"
    "in_phase (st_id q) ph (holder (st_link q) s (st_dev q)) (st_dev q)"
  using assms by (auto simp: station_ok_def station_slot_def holder_def)

lemma prepare_station:
  assumes "station_ok pf key_of key_of' mac keys ka s q ph"
  shows "station_ok pf key_of key_of' mac keys ka s (prepare f q) (after_wait f ph)"
    and "after_wait f ph \<noteq> Gone \<Longrightarrow> ph \<noteq> Gone \<and> station_slot (prepare f q) = station_slot q"
proof -
  have pf: "pawr_platform (st_platform q) key_of' mac" using assms by (simp add: station_ok_def)
  have "station_ok pf key_of key_of' mac keys ka s (prepare f q) (after_wait f ph) \<and>
    (after_wait f ph \<noteq> Gone \<longrightarrow> ph \<noteq> Gone \<and> station_slot (prepare f q) = station_slot q)"
  proof (cases "ph = Gone")
    case True
    with assms have g: "gone (st_dev q)" by (simp add: station_ok_def)
    then have "st_dev (prepare f q) = settle (st_platform q) (st_dev q)" by (simp add: prepare_def gone_def expire_def lose_def split: option.split)
    with pawr_platform.settle_gone [OF pf g] True pf show ?thesis by (simp add: station_ok_def after_wait_def)
  next
    case False
    from station_okE [OF assms False] obtain keys' ks where
      pair: "radio_pair pf key_of (st_platform q) key_of' mac keys keys' ka ks (st_id q) (st_link q)" and
      t: "linked key_of keys (mac ka) key_of' keys' (st_id q) s (st_dev q)" "sem_count (synced_sem (st_dev q)) = 0"
        "in_phase (st_id q) ph (holder (st_link q) s (st_dev q)) (st_dev q)"
      by blast
    show ?thesis
    proof (cases "ft_lost f")
      case None
      then have "st_dev (prepare f q) = settle (st_platform q) (expire (st_platform q) (ft_timer f) (st_dev q))"
        by (simp add: prepare_def lose_def)
      with radio_pair.expired [OF pair t False, of "ft_timer f"] pair pf False None show ?thesis
        by (auto simp: station_ok_def station_slot_def holder_def after_wait_def)
    next
      case (Some reason)
      have "sc_inv (st_id q) (st_dev q)" using t(1) by (simp add: linked_def)
      from radio_pair.sync_lost [OF pair this t(2,3) False] Some pf show ?thesis
        by (simp add: station_ok_def after_wait_def prepare_def)
    qed
  qed
  then show "station_ok pf key_of key_of' mac keys ka s (prepare f q) (after_wait f ph)"
    and "after_wait f ph \<noteq> Gone \<Longrightarrow> ph \<noteq> Gone \<and> station_slot (prepare f q) = station_slot q"
    by blast+
qed

lemma air_station:
  assumes ok: "station_ok pf key_of key_of' mac keys ka s q ph" and ph: "waiting_phase ph \<or> ph = Gone" and room: "adv_time s + 3 < 2 ^ 64"
    and q': "q' = downlink (new_messages s (request_cb pf full_period s)) f q"
  shows "uplink f q q' = [] \<or> ph \<noteq> Gone \<and> st_id q \<noteq> 0 \<and> (\<exists>rep. uplink f q q' = [rep] \<and>
      reply_from pf mac keys (next_counter s) (st_id q, station_slot q) rep \<and> unheard (st_id q) (view_at s (station_slot q)))"
    and "ph \<noteq> Gone \<Longrightarrow> slot_exists (station_slot q)"
    and "uplink f q q' = [] \<longleftrightarrow> \<not> answers (ft_down f) (ft_up f) ph"
    and "\<lbrakk>\<exists>b. adv_sim key_of keys (mac ka) s' b; next_counter s + 1 \<le> next_counter s'; ph \<noteq> Gone \<Longrightarrow>
      view_at s' (station_slot q) = (if uplink f q q' = [] then age (view_at s (station_slot q)) else Held (st_id q) 0)\<rbrakk> \<Longrightarrow>
      station_ok pf key_of key_of' mac keys ka s' q' (after_air (ft_down f) (ft_up f) ph) \<and>
      (ph \<noteq> Gone \<longrightarrow> station_slot q' = station_slot q)"
proof -
  have pf: "pawr_platform (st_platform q) key_of' mac" using ok by (simp add: station_ok_def)
  have t': "st_dev q' = hear (st_platform q) (st_link q) (ft_down f) (new_messages s (request_cb pf full_period s) ! lk_sub (st_link q)) (st_dev q)"
    by (simp add: q' downlink_def)
  have "(uplink f q q' = [] \<or> ph \<noteq> Gone \<and> st_id q \<noteq> 0 \<and> (\<exists>rep. uplink f q q' = [rep] \<and>
      reply_from pf mac keys (next_counter s) (st_id q, station_slot q) rep \<and> unheard (st_id q) (view_at s (station_slot q)))) \<and>
    (ph \<noteq> Gone \<longrightarrow> slot_exists (station_slot q)) \<and>
    (uplink f q q' = [] \<longleftrightarrow> \<not> answers (ft_down f) (ft_up f) ph) \<and>
    ((\<exists>b. adv_sim key_of keys (mac ka) s' b) \<longrightarrow> next_counter s + 1 \<le> next_counter s' \<longrightarrow> (ph \<noteq> Gone \<longrightarrow>
      view_at s' (station_slot q) = (if uplink f q q' = [] then age (view_at s (station_slot q)) else Held (st_id q) 0)) \<longrightarrow>
      station_ok pf key_of key_of' mac keys ka s' q' (after_air (ft_down f) (ft_up f) ph) \<and>
      (ph \<noteq> Gone \<longrightarrow> station_slot q' = station_slot q))"
  proof (cases "ph = Gone")
    case True
    with ok have g: "gone (st_dev q)" by (simp add: station_ok_def)
    then have "st_dev q' = st_dev q" by (simp add: t' hear_def listening_def gone_def)
    with True g pf show ?thesis by (simp add: station_ok_def uplink_def new_replies_def q')
  next
    case False
    from station_okE [OF ok False] obtain keys' ks where
      pair: "radio_pair pf key_of (st_platform q) key_of' mac keys keys' ka ks (st_id q) (st_link q)" and
      t: "linked key_of keys (mac ka) key_of' keys' (st_id q) s (st_dev q)" "sem_count (synced_sem (st_dev q)) = 0"
        "in_phase (st_id q) ph (holder (st_link q) s (st_dev q)) (st_dev q)"
      by blast
    have w: "waiting_phase ph" using ph False by simp
    have up: "uplink f q q' = (if ft_up f then new_replies (st_link q) (st_dev q) (st_dev q') else [])" by (simp add: uplink_def)
    note a = radio_pair.aired [OF pair t w room t' up]
    have keep: "after_air (ft_down f) (ft_up f) ph \<noteq> Gone" using w by (cases ph) auto
    have "station_ok pf key_of key_of' mac keys ka s' q' (after_air (ft_down f) (ft_up f) ph) \<and> station_slot q' = station_slot q"
      if sim: "\<exists>b. adv_sim key_of keys (mac ka) s' b" and le: "next_counter s + 1 \<le> next_counter s'"
        and slot: "view_at s' (station_slot q) = (if uplink f q q' = [] then age (view_at s (station_slot q)) else Held (st_id q) 0)"
    proof -
      have "view_at s' (own_slot (st_link q) (st_dev q)) = (if uplink f q q' = [] then age (holder (st_link q) s (st_dev q)) else Held (st_id q) 0)"
        using slot by (simp add: station_slot_def holder_def)
      from mp [OF mp [OF mp [OF spec [OF a(3)] sim] le] this] pair pf keep show ?thesis
        by (auto simp: station_ok_def station_slot_def q' holder_def [of "st_link q" s' "st_dev (downlink ms f q)" for ms])
    qed
    with a(1,2) radio_pair.valid_id [OF pair] radio_pair.own_slot_exists [OF pair t(1)] False show ?thesis
      by (auto simp: station_slot_def holder_def)
  qed
  then show "uplink f q q' = [] \<or> ph \<noteq> Gone \<and> st_id q \<noteq> 0 \<and> (\<exists>rep. uplink f q q' = [rep] \<and>
      reply_from pf mac keys (next_counter s) (st_id q, station_slot q) rep \<and> unheard (st_id q) (view_at s (station_slot q)))"
    and "ph \<noteq> Gone \<Longrightarrow> slot_exists (station_slot q)"
    and "uplink f q q' = [] \<longleftrightarrow> \<not> answers (ft_down f) (ft_up f) ph"
    and "\<lbrakk>\<exists>b. adv_sim key_of keys (mac ka) s' b; next_counter s + 1 \<le> next_counter s'; ph \<noteq> Gone \<Longrightarrow>
      view_at s' (station_slot q) = (if uplink f q q' = [] then age (view_at s (station_slot q)) else Held (st_id q) 0)\<rbrakk> \<Longrightarrow>
      station_ok pf key_of key_of' mac keys ka s' q' (after_air (ft_down f) (ft_up f) ph) \<and>
      (ph \<noteq> Gone \<longrightarrow> station_slot q' = station_slot q)"
    by blast+
qed

section \<open>The network\<close>

lemma distinct_slots:
  assumes "\<forall>n < N. length (u n) \<le> 1" and "\<forall>m < N. \<forall>n < N. m \<noteq> n \<longrightarrow> u m \<noteq> [] \<longrightarrow> u n \<noteq> [] \<longrightarrow> p m \<noteq> p n"
  shows "distinct (map (snd \<circ> fst) (concat (map (\<lambda>n. map (Pair (i n, p n)) (u n)) [0..<N])))"
  using assms
proof (induction N)
  case (Suc N)
  let ?items = "concat (map (\<lambda>n. map (Pair (i n, p n)) (u n)) [0..<N])"
  have "distinct (map (snd \<circ> fst) ?items)" by (rule Suc.IH) (use Suc.prems in auto)
  moreover have "\<forall>m < N. u m \<noteq> [] \<longrightarrow> p m \<noteq> p N" if "u N \<noteq> []"
    using Suc.prems(2) that by (metis less_Suc_eq nat_neq_iff)
  moreover have "u N = [] \<or> (\<exists>x. u N = [x])" using Suc.prems(1) by (cases "u N") auto
  ultimately show ?case by (fastforce simp: comp_def)
qed simp

text \<open>What the stations send, each at most one response, labelled with its id and slot.\<close>

lemma own_items:
  assumes items: "items = concat (map (\<lambda>n. map (Pair (i n, p n)) (u n)) [0..<N])"
    and single: "\<forall>n < N. u n = [] \<or> (\<exists>rep. u n = [rep] \<and> P (i n) (p n) rep)"
    and own: "\<forall>m < N. \<forall>n < N. m \<noteq> n \<longrightarrow> u m \<noteq> [] \<longrightarrow> u n \<noteq> [] \<longrightarrow> p m \<noteq> p n"
  shows "\<forall>((j, q), rep) \<in> set items. P j q rep" and "distinct (map (snd \<circ> fst) items)"
    and "n < N \<Longrightarrow> u n \<noteq> [] \<Longrightarrow> \<exists>rep. ((i n, p n), rep) \<in> set items"
    and "(\<And>m. \<lbrakk>m < N; u m \<noteq> []\<rbrakk> \<Longrightarrow> p m \<noteq> q) \<Longrightarrow> q \<notin> snd ` fst ` set items"
proof -
  have mem: "((j, q), rep) \<in> set items \<longleftrightarrow> (\<exists>n < N. j = i n \<and> q = p n \<and> rep \<in> set (u n))" for j q rep
    by (auto simp: items)
  then show "\<forall>((j, q), rep) \<in> set items. P j q rep" using single by fastforce
  have "\<forall>n < N. length (u n) \<le> 1" using single by fastforce
  then show "distinct (map (snd \<circ> fst) items)" unfolding items using own by (rule distinct_slots)
  show "\<exists>rep. ((i n, p n), rep) \<in> set items" if "n < N" "u n \<noteq> []"
  proof -
    from that single obtain rep where "u n = [rep]" by blast
    with that(1) show ?thesis unfolding mem by (intro exI [of _ rep] exI [of _ n]) simp
  qed
  show "q \<notin> snd ` fst ` set items" if "\<And>m. \<lbrakk>m < N; u m \<noteq> []\<rbrakk> \<Longrightarrow> p m \<noteq> q"
  proof
    assume "q \<in> snd ` fst ` set items"
    then obtain j rep where "((j, q), rep) \<in> set items" by force
    then obtain m where "m < N" "q = p m" "rep \<in> set (u m)" by (auto simp: mem)
    then show False using that [of m] by (cases "u m") auto
  qed
qed

definition ready :: "fate list \<Rightarrow> 'q station list \<Rightarrow> nat \<Rightarrow> 'q station" where
  "ready fs qs n = prepare (fs ! n) (qs ! n)"

definition reached :: "'p platform \<Rightarrow> 'p advertiser \<Rightarrow> fate list \<Rightarrow> 'q station list \<Rightarrow> nat \<Rightarrow> 'q station" where
  "reached pf s fs qs n = downlink (new_messages s (request_cb pf full_period s)) (fs ! n) (ready fs qs n)"

definition sent_by :: "'p platform \<Rightarrow> 'p advertiser \<Rightarrow> fate list \<Rightarrow> 'q station list \<Rightarrow> nat \<Rightarrow> reply list" where
  "sent_by pf s fs qs n = uplink (fs ! n) (ready fs qs n) (reached pf s fs qs n)"

lemma network_round_eq:
  assumes "length fs = length qs"
  shows "network_round pf fs (s, qs) = (take_replies pf (concat (map (sent_by pf s fs qs) [0..<length qs])) (request_cb pf full_period s),
    map (reached pf s fs qs) [0..<length qs])"
proof -
  let ?Q1 = "map2 prepare fs qs"
  let ?Q2 = "map2 (downlink (new_messages s (request_cb pf full_period s))) fs ?Q1"
  have l: "length ?Q2 = length qs" using assms by simp
  have n: "?Q1 ! n = ready fs qs n" "?Q2 ! n = reached pf s fs qs n" if "n < length qs" for n
    using assms that by (simp_all add: ready_def reached_def)
  have "map (\<lambda>n. uplink (fs ! n) (?Q1 ! n) (?Q2 ! n)) [0..<length ?Q2] = map (sent_by pf s fs qs) [0..<length qs]"
    unfolding l by (rule map_cong [OF refl]) (simp only: set_upt atLeastLessThan_iff n sent_by_def)
  moreover have "?Q2 = map (reached pf s fs qs) [0..<length qs]"
    by (rule nth_equalityI) (use assms in \<open>simp_all add: ready_def reached_def\<close>)
  ultimately show ?thesis unfolding network_round_def Let_def prod.case by (simp only:)
qed

text \<open>A round, for one station and for the advertiser.\<close>

lemma station_ready:
  assumes "fleet_ok pf key_of key_of' mac keys ka s qs phs" and "n < length qs"
  shows "station_ok pf key_of key_of' mac keys ka s (ready fs qs n) (after_wait (fs ! n) (phs ! n))"
    and "\<lbrakk>m < length qs; m \<noteq> n; after_wait (fs ! m) (phs ! m) \<noteq> Gone; after_wait (fs ! n) (phs ! n) \<noteq> Gone\<rbrakk> \<Longrightarrow>
      station_slot (ready fs qs m) \<noteq> station_slot (ready fs qs n)"
proof -
  have st: "station_ok pf key_of key_of' mac keys ka s (qs ! n) (phs ! n)" if "n < length qs" for n
    using assms(1) that by (simp add: fleet_ok_def)
  show "station_ok pf key_of key_of' mac keys ka s (ready fs qs n) (after_wait (fs ! n) (phs ! n))"
    unfolding ready_def by (rule prepare_station(1) [OF st [OF assms(2)]])
  show "station_slot (ready fs qs m) \<noteq> station_slot (ready fs qs n)"
    if "m < length qs" "m \<noteq> n" "after_wait (fs ! m) (phs ! m) \<noteq> Gone" "after_wait (fs ! n) (phs ! n) \<noteq> Gone"
    using prepare_station(2) [OF st [OF that(1)] that(3)] prepare_station(2) [OF st [OF assms(2)] that(4)] that(1,2) assms
    by (simp add: ready_def fleet_ok_def)
qed

text \<open>The responses of a round, labelled with the sender and its slot.\<close>

definition responses_of ::
    "'p platform \<Rightarrow> (byte list \<Rightarrow> byte list \<Rightarrow> byte list) \<Rightarrow> (psa_key_id_t \<Rightarrow> stored_key option) \<Rightarrow> 'p advertiser \<Rightarrow> fate list \<Rightarrow>
     'q station list \<Rightarrow> phase list \<Rightarrow> ((u16 \<times> nat \<times> nat) \<times> reply) list \<Rightarrow> bool" where
  "responses_of pf mac keys s fs qs phs items \<longleftrightarrow>
     concat (map (sent_by pf s fs qs) [0..<length qs]) = map snd items \<and> distinct (map (snd \<circ> fst) items) \<and>
     (\<forall>((j, p), rep) \<in> set items. reply_from pf mac keys (next_counter s) (j, p) rep \<and> slot_exists p \<and> j \<noteq> 0 \<and>
        view_at s p \<in> {Free} \<union> range (Held j) \<and> (\<exists>n < length qs. sends (fs ! n) (phs ! n) \<and> j = st_id (qs ! n) \<and> p = station_slot (qs ! n))) \<and>
     (\<forall>n < length qs. sends (fs ! n) (phs ! n) \<longrightarrow> (\<exists>rep. ((st_id (qs ! n), station_slot (qs ! n)), rep) \<in> set items)) \<and>
     (\<forall>n < length qs. after_wait (fs ! n) (phs ! n) \<noteq> Gone \<longrightarrow> \<not> sends (fs ! n) (phs ! n) \<longrightarrow>
        station_slot (qs ! n) \<notin> snd ` fst ` set items)"

lemma responses_ofD:
  assumes "responses_of pf mac keys s fs qs phs items"
  shows "concat (map (sent_by pf s fs qs) [0..<length qs]) = map snd items" and "distinct (map (snd \<circ> fst) items)"
    and "\<forall>((j, p), rep) \<in> set items. reply_from pf mac keys (next_counter s) (j, p) rep \<and> slot_exists p \<and> j \<noteq> 0 \<and>
      view_at s p \<in> {Free} \<union> range (Held j)"
    and "((j, p), rep) \<in> set items \<Longrightarrow> \<exists>n < length qs. sends (fs ! n) (phs ! n) \<and> j = st_id (qs ! n) \<and> p = station_slot (qs ! n)"
    and "n < length qs \<Longrightarrow> sends (fs ! n) (phs ! n) \<Longrightarrow> \<exists>rep. ((st_id (qs ! n), station_slot (qs ! n)), rep) \<in> set items"
    and "n < length qs \<Longrightarrow> after_wait (fs ! n) (phs ! n) \<noteq> Gone \<Longrightarrow> \<not> sends (fs ! n) (phs ! n) \<Longrightarrow>
      station_slot (qs ! n) \<notin> snd ` fst ` set items"
  using assms unfolding responses_of_def by (simp_all only: conj_assoc) fast+

lemma round_responses:
  assumes ok: "fleet_ok pf key_of key_of' mac keys ka s qs phs" and room: "adv_time s + 3 < 2 ^ 64"
  shows "\<exists>items. responses_of pf mac keys s fs qs phs items"
proof -
  let ?N = "length qs" and ?q1 = "ready fs qs" and ?u = "sent_by pf s fs qs"
  define ph where "ph n = after_wait (fs ! n) (phs ! n)" for n
  define items where "items = concat (map (\<lambda>n. map (Pair (st_id (qs ! n), station_slot (qs ! n))) (?u n)) [0..<?N])"
  have w: "waiting_phase (ph n) \<or> ph n = Gone" for n by (simp add: ph_def after_wait_waiting)
  note air = air_station [OF station_ready(1) [OF ok, of _ fs, folded ph_def] w room reached_def, folded sent_by_def]
  have sent: "?u n = [] \<longleftrightarrow> \<not> sends (fs ! n) (phs ! n)" if "n < ?N" for n
    using air(3) [OF that] by (simp add: sends_def ph_def)
  have same: "station_slot (?q1 n) = station_slot (qs ! n)" "st_id (?q1 n) = st_id (qs ! n)" "phs ! n \<noteq> Gone"
    if "n < ?N" "ph n \<noteq> Gone" for n
    using prepare_station(2) [of pf key_of key_of' mac keys ka s "qs ! n" "phs ! n" "fs ! n"] ok that
    by (simp_all add: fleet_ok_def ready_def ph_def)
  have here: "ph n \<noteq> Gone" if "n < ?N" "?u n \<noteq> []" for n using air(1) [OF that(1)] that(2) by blast
  have own: "station_slot (qs ! m) \<noteq> station_slot (qs ! n)" if "m < ?N" "n < ?N" "m \<noteq> n" "ph m \<noteq> Gone" "ph n \<noteq> Gone" for m n
    using station_ready(2) [OF ok that(2,1,3), of fs, folded ph_def] same that by simp
  let ?claim = "\<lambda>j p rep. reply_from pf mac keys (next_counter s) (j, p) rep \<and> slot_exists p \<and> j \<noteq> 0 \<and> view_at s p \<in> {Free} \<union> range (Held j) \<and>
    (\<exists>n < ?N. sends (fs ! n) (phs ! n) \<and> j = st_id (qs ! n) \<and> p = station_slot (qs ! n))"
  have single: "\<forall>n < ?N. ?u n = [] \<or> (\<exists>rep. ?u n = [rep] \<and> ?claim (st_id (qs ! n)) (station_slot (qs ! n)) rep)"
  proof (intro allI impI)
    fix n assume n: "n < ?N"
    from air(1,2) [OF n] sent [OF n] same [OF n] n
    show "?u n = [] \<or> (\<exists>rep. ?u n = [rep] \<and> ?claim (st_id (qs ! n)) (station_slot (qs ! n)) rep)"
      by (auto simp: unheard_def)
  qed
  have "\<forall>m < ?N. \<forall>n < ?N. m \<noteq> n \<longrightarrow> ?u m \<noteq> [] \<longrightarrow> ?u n \<noteq> [] \<longrightarrow> station_slot (qs ! m) \<noteq> station_slot (qs ! n)"
    using own here by blast
  note it = own_items [OF items_def single this]
  have "\<exists>rep. ((st_id (qs ! n), station_slot (qs ! n)), rep) \<in> set items" if "n < ?N" "sends (fs ! n) (phs ! n)" for n
    using it(3) [OF that(1)] sent [OF that(1)] that(2) by blast
  moreover have "station_slot (qs ! n) \<notin> snd ` fst ` set items"
    if n: "n < ?N" "after_wait (fs ! n) (phs ! n) \<noteq> Gone" "\<not> sends (fs ! n) (phs ! n)" for n
  proof (rule it(4))
    fix m assume m: "m < ?N" "?u m \<noteq> []"
    with n sent have "m \<noteq> n" by auto
    from own [OF m(1) n(1) this here [OF m]] n(2) show "station_slot (qs ! m) \<noteq> station_slot (qs ! n)" by (simp add: ph_def)
  qed
  moreover have "concat (map ?u [0..<?N]) = map snd items" by (simp add: items_def map_concat comp_def)
  ultimately show ?thesis unfolding responses_of_def using it(1,2) by (intro exI [of _ items]) blast
qed

text \<open>What a station that is still there sees of its slot after a round.\<close>

definition slot_moves :: "'p advertiser \<Rightarrow> fate \<Rightarrow> phase \<Rightarrow> 'q station \<Rightarrow> 'p advertiser \<Rightarrow> 'q station \<Rightarrow> bool" where
  "slot_moves s f ph q s' q' \<longleftrightarrow> station_slot q' = station_slot q \<and>
     view_at s' (station_slot q) = (if sends f ph then Held (st_id q) 0 else age (view_at s (station_slot q)))"

lemma network_round_ok:
  assumes rel: "pawr_reliable pf key_of mac" and ka: "key_is keys (ADVERTISER_KEY_ID pf) ka"
    and ok: "fleet_ok pf key_of key_of' mac keys ka s qs phs" and len: "length fs = length qs" and room: "adv_time s + 3 < 2 ^ 64"
    and round: "network_round pf fs (s, qs) = (s', qs')"
  shows "fleet_ok pf key_of key_of' mac keys ka s' qs' (map2 next_phase fs phs)" and "adv_time s' \<le> adv_time s + 2"
    and "\<lbrakk>n < length qs; next_phase (fs ! n) (phs ! n) \<noteq> Gone\<rbrakk> \<Longrightarrow> slot_moves s (fs ! n) (phs ! n) (qs ! n) s' (qs' ! n)"
    and "adv_time s < adv_time s'" and "rollover s' = 1"
proof -
  let ?N = "length qs" and ?q1 = "ready fs qs" and ?q2 = "reached pf s fs qs"
  define ph where "ph n = after_wait (fs ! n) (phs ! n)" for n
  from ok obtain a where sim: "adv_sim key_of keys (mac ka) s a" and lp: "length phs = ?N" by (auto simp: fleet_ok_def)
  from round_responses [OF ok room, of fs] obtain items where "responses_of pf mac keys s fs qs phs items" by blast
  note items = responses_ofD [OF this]
  have qs': "qs' = map ?q2 [0..<?N]" and s': "s' = take_replies pf (map snd items) (request_cb pf full_period s)"
    using round by (simp_all add: network_round_eq [OF len] items(1))
  have w: "waiting_phase (ph n) \<or> ph n = Gone" for n by (simp add: ph_def after_wait_waiting)
  note air = air_station [OF station_ready(1) [OF ok, of _ fs, folded ph_def] w room reached_def, folded sent_by_def]
  have same: "station_slot (?q1 n) = station_slot (qs ! n)" "st_id (?q1 n) = st_id (qs ! n)" if "n < ?N" "ph n \<noteq> Gone" for n
    using prepare_station(2) [of pf key_of key_of' mac keys ka s "qs ! n" "phs ! n" "fs ! n"] ok that
    by (simp_all add: fleet_ok_def ready_def ph_def)
  note p = period_replies [OF rel sim ka room s' items(3,2)]
  have slot: "view_at s' (station_slot (qs ! n)) = (if sends (fs ! n) (phs ! n) then Held (st_id (qs ! n)) 0 else age (view_at s (station_slot (qs ! n))))"
    if n: "n < ?N" and g: "ph n \<noteq> Gone" for n
  proof (cases "sends (fs ! n) (phs ! n)")
    case True
    from items(5) [OF n this] obtain rep where "((st_id (qs ! n), station_slot (qs ! n)), rep) \<in> set items" by blast
    from p(4) [OF this] True show ?thesis by simp
  next
    case False
    from p(5) [OF air(2) [OF n g, unfolded same [OF n g]] items(6) [OF n g [unfolded ph_def] False]] False show ?thesis by simp
  qed
  have after: "station_ok pf key_of key_of' mac keys ka s' (?q2 n) (next_phase (fs ! n) (phs ! n)) \<and>
      (ph n \<noteq> Gone \<longrightarrow> station_slot (?q2 n) = station_slot (?q1 n))" if n: "n < ?N" for n
    unfolding next_phase_def ph_def [symmetric]
    by (rule air(4) [OF n p(1,3)]) (use slot [OF n] same [OF n] air(3) [OF n] in \<open>simp add: sends_def ph_def\<close>)
  have there: "ph n \<noteq> Gone" if "next_phase (fs ! n) (phs ! n) \<noteq> Gone" for n
    using that by (auto simp: next_phase_def ph_def)
  have np: "map2 next_phase fs phs ! n = next_phase (fs ! n) (phs ! n)" if "n < ?N" for n
    using that len lp by simp
  have "station_slot (qs' ! m) \<noteq> station_slot (qs' ! n)"
    if mn: "m < ?N" "n < ?N" "m \<noteq> n" "map2 next_phase fs phs ! m \<noteq> Gone" "map2 next_phase fs phs ! n \<noteq> Gone" for m n
  proof -
    have g: "ph m \<noteq> Gone" "ph n \<noteq> Gone" using there mn np by simp_all
    from station_ready(2) [OF ok mn(2,1,3), of fs, folded ph_def] g after [OF mn(1)] after [OF mn(2)] mn(1,2) show ?thesis by (simp add: qs')
  qed
  moreover have "station_ok pf key_of key_of' mac keys ka s' (qs' ! n) (map2 next_phase fs phs ! n)" if "n < ?N" for n
    using after [OF that] np [OF that] that by (simp add: qs')
  moreover have "length (map2 next_phase fs phs) = ?N" "length qs' = ?N" using len lp by (simp_all add: qs')
  ultimately show "fleet_ok pf key_of key_of' mac keys ka s' qs' (map2 next_phase fs phs)"
    unfolding fleet_ok_def using p(1) by auto
  show "adv_time s' \<le> adv_time s + 2" and "adv_time s < adv_time s'" using p(2) by simp_all
  show "rollover s' = 1" by (rule p(6))
  show "slot_moves s (fs ! n) (phs ! n) (qs ! n) s' (qs' ! n)" if "n < ?N" "next_phase (fs ! n) (phs ! n) \<noteq> Gone"
    using slot [OF that(1) there [OF that(2)]] after [OF that(1)] same [OF that(1)] there [OF that(2)] that(1)
    by (simp add: slot_moves_def qs')
qed

section \<open>Runs\<close>

definition network_run :: "'p platform \<Rightarrow> fate list list \<Rightarrow> 'p advertiser \<times> 'q station list \<Rightarrow> 'p advertiser \<times> 'q station list" where
  "network_run pf fss = fold (network_round pf) fss"

lemma network_runs:
  assumes "pawr_reliable pf key_of mac" and "key_is keys (ADVERTISER_KEY_ID pf) ka"
    and "fleet_ok pf key_of key_of' mac keys ka s qs phs" and "\<forall>fs \<in> set fss. length fs = length qs"
    and "adv_time s + 2 * length fss + 1 < 2 ^ 64" and "network_run pf fss (s, qs) = (s', qs')"
  shows "fleet_ok pf key_of key_of' mac keys ka s' qs' (fold (map2 next_phase) fss phs) \<and> adv_time s' \<le> adv_time s + 2 * length fss"
  using assms(3-)
proof (induction fss arbitrary: s qs phs)
  case Nil
  then show ?case by (simp add: network_run_def)
next
  case (Cons fs fss)
  obtain s1 qs1 where r: "network_round pf fs (s, qs) = (s1, qs1)" by (metis prod.exhaust)
  from Cons.prems have "length fs = length qs" "adv_time s + 3 < 2 ^ 64" by simp_all
  note 1 = network_round_ok(1,2) [OF assms(1,2) Cons.prems(1) this r]
  have "length qs1 = length qs" using 1(1) Cons.prems(1,2) by (simp add: fleet_ok_def)
  with Cons.IH [OF 1(1)] Cons.prems 1(2) r show ?case by (auto simp: network_run_def)
qed

text \<open>One station's share of a run.\<close>

definition column :: "nat \<Rightarrow> fate list list \<Rightarrow> fate list" where
  "column n fss = map (\<lambda>fs. fs ! n) fss"

lemma column_phase: "\<lbrakk>\<forall>fs \<in> set fss. length fs = length phs; n < length phs\<rbrakk> \<Longrightarrow>
    fold (map2 next_phase) fss phs ! n = fold next_phase (column n fss) (phs ! n)"
  by (induction fss arbitrary: phs) (simp_all add: column_def)

definition lossy :: "fate \<Rightarrow> bool" where
  "lossy f \<longleftrightarrow> \<not> (ft_down f \<and> ft_up f)"

definition losses :: "fate list \<Rightarrow> nat" where
  "losses fs = length (filter lossy fs)"

lemma losses_simps [simp]:
  "losses [] = 0" "losses (f # fs) = (if lossy f then 1 else 0) + losses fs" "losses (fs @ gs) = losses fs + losses gs"
  by (simp_all add: losses_def)

definition in_sync :: "fate list \<Rightarrow> bool" where
  "in_sync fs \<longleftrightarrow> list_all (\<lambda>f. ft_lost f = None) fs"

lemma in_sync_simps [simp]: "in_sync []" "in_sync (f # fs) \<longleftrightarrow> ft_lost f = None \<and> in_sync fs" "in_sync (fs @ gs) \<longleftrightarrow> in_sync fs \<and> in_sync gs"
  by (simp_all add: in_sync_def)

lemma in_sync_part: "in_sync fs \<Longrightarrow> in_sync (take n fs)" "in_sync fs \<Longrightarrow> in_sync (drop n fs)"
  by (auto simp: in_sync_def list_all_iff dest: in_set_takeD in_set_dropD)

subsection \<open>What the automaton does with losses\<close>

text \<open>A station that asks is told, two rounds later or four when a message or response is lost, or six
  when two are, whenever its timer expires meanwhile.\<close>

lemma told_in_time:
  "\<lbrakk>in_sync fs; k + losses fs \<le> 2; 2 + 2 * losses fs \<le> length fs\<rbrakk> \<Longrightarrow> \<exists>m \<le> length fs. fold next_phase (take m fs) (Asking c k) = Told c"
  "\<lbrakk>in_sync fs; k + losses fs \<le> 3; 1 + 2 * losses fs \<le> length fs\<rbrakk> \<Longrightarrow> \<exists>m \<le> length fs. fold next_phase (take m fs) (Heard c k) = Told c"
proof (induction fs arbitrary: k)
  case (Cons f fs)
  have later: "\<exists>m \<le> length (f # fs). fold next_phase (take m (f # fs)) ph = Told c"
    if "\<exists>m \<le> length fs. fold next_phase (take m fs) (next_phase f ph) = Told c" for ph
  proof -
    from that obtain m where "m \<le> length fs" "fold next_phase (take m fs) (next_phase f ph) = Told c" by blast
    then show ?thesis by (intro exI [of _ "Suc m"]) simp
  qed
  {
    case 1
    have "next_phase f (Asking c k) = Heard c (Suc k) \<or> next_phase f (Asking c k) = Heard c 1" if "\<not> lossy f"
      using that 1 by (simp add: next_phase_def after_wait_def lossy_def)
    moreover have "\<exists>k' \<le> Suc k. next_phase f (Asking c k) = Asking c k'" if "lossy f"
      using that 1 by (auto simp: next_phase_def after_wait_def lossy_def)
    ultimately show ?case
      using Cons.IH 1 by (intro later) (cases "lossy f"; force)
  next
    case 2
    have "next_phase f (Heard c k) = Told c" if "ft_down f"
      using that 2 by (simp add: next_phase_def after_wait_def)
    moreover have "\<exists>k' \<le> k. next_phase f (Heard c k) = Asking c k'" if "\<not> ft_down f"
      using that 2 by (auto simp: next_phase_def after_wait_def)
    moreover have "fold next_phase (take 0 fs) (Told c) = Told c" by simp
    ultimately show ?case
      using Cons.IH(1) 2 by (intro later) (cases "ft_down f"; force simp: lossy_def)
  }
qed simp_all

text \<open>The sync holds and there are at most two losses in any six consecutive rounds: the station never gives
  up.\<close>

definition few_losses :: "fate list \<Rightarrow> bool" where
  "few_losses fs \<longleftrightarrow> in_sync fs \<and> (\<forall>i < length fs. losses (take 6 (drop i fs)) \<le> 2)"

fun persists :: "fate list \<Rightarrow> phase \<Rightarrow> bool" where
  "persists fs Asleep = True"
| "persists fs (Asking c k) = (\<exists>us vs. fs = us @ vs \<and> losses vs \<le> 2 \<and> k \<le> losses vs \<and> length vs \<le> 2 * losses vs)"
| "persists fs (Heard c k) = (\<exists>us vs. fs = us @ vs \<and> losses vs \<le> 2 \<and> k \<le> Suc (losses vs) \<and> length vs \<le> Suc (2 * losses vs))"
| "persists fs (Told c) = True"
| "persists fs (Failed c) = False"
| "persists fs Gone = False"

lemma few_losses_window: "few_losses (us @ vs) \<Longrightarrow> length vs \<le> 6 \<Longrightarrow> losses vs \<le> 2"
  by (cases vs) (auto simp: few_losses_def dest: spec [of _ "length us"])

lemma few_losses_in_sync: "few_losses fs \<Longrightarrow> in_sync fs"
  by (simp add: few_losses_def)

lemma few_losses_prefix: "few_losses (us @ vs) \<Longrightarrow> few_losses us"
proof -
  assume few: "few_losses (us @ vs)"
  have "losses (take 6 (drop i us)) \<le> losses (take 6 (drop i (us @ vs)))" for i by simp
  with few show ?thesis unfolding few_losses_def by (metis in_sync_simps(3) le_trans length_append trans_less_add1)
qed

lemma persistsI:
  "\<lbrakk>losses vs \<le> 2; k \<le> losses vs; length vs \<le> 2 * losses vs\<rbrakk> \<Longrightarrow> persists (us @ vs) (Asking c k)"
  "\<lbrakk>losses vs \<le> 2; k \<le> Suc (losses vs); length vs \<le> Suc (2 * losses vs)\<rbrakk> \<Longrightarrow> persists (us @ vs) (Heard c k)"
  by fastforce+

lemma persists_timer: "persists fs ph \<Longrightarrow> persists fs (after_timer f ph)"
  using persistsI [of "[]" 0 fs] by (cases ph) (auto simp del: persists.simps(2,3) simp: persists.simps(4-6))

lemma persists_wait: "persists fs ph \<Longrightarrow> ft_lost f = None \<Longrightarrow> persists fs (after_wait f ph)"
  using persists_timer by (simp add: after_wait_def)

lemma persists_air:
  assumes "persists fs ph" and "few_losses (fs @ [f])"
  shows "persists (fs @ [f]) (after_air (ft_down f) (ft_up f) ph)"
proof (cases ph)
  case (Asking c k)
  with assms(1) obtain us vs where v: "fs = us @ vs" "losses vs \<le> 2" "k \<le> losses vs" "length vs \<le> 2 * losses vs" by auto
  have "losses (vs @ [f]) \<le> 2" by (rule few_losses_window [of us]) (use assms(2) v in simp_all)
  with v persistsI [of "vs @ [f]" _ us] show ?thesis
    by (auto simp: Asking lossy_def simp del: persists.simps split: if_splits)
next
  case (Heard c k)
  with assms(1) obtain us vs where v: "fs = us @ vs" "losses vs \<le> 2" "k \<le> Suc (losses vs)" "length vs \<le> Suc (2 * losses vs)" by auto
  have "losses (vs @ [f]) \<le> 2" by (rule few_losses_window [of us]) (use assms(2) v in simp_all)
  with v persistsI [of "vs @ [f]" _ us] show ?thesis
    by (auto simp: Heard lossy_def simp del: persists.simps(2,3) split: if_splits)
qed (use assms in simp_all)

lemma never_gives_up:
  assumes "few_losses fs" and "persists [] ph"
  shows "persists fs (fold next_phase fs ph)"
  using assms(1)
proof (induction fs rule: rev_induct)
  case (snoc f fs)
  have f: "ft_lost f = None" using few_losses_in_sync [OF snoc.prems] by simp
  from persists_air [OF persists_wait [OF snoc.IH [OF few_losses_prefix [OF snoc.prems]] f] snoc.prems]
  show ?case by (simp add: next_phase_def)
qed (use assms(2) in simp)

section \<open>What the network promises\<close>

lemma columns:
  assumes "\<forall>fs \<in> set fss. length fs = length phs"
  shows "fold (map2 next_phase) fss phs = map (\<lambda>n. fold next_phase (column n fss) (phs ! n)) [0..<length phs]"
proof -
  have "length (fold (map2 next_phase) fss phs) = length phs"
    using assms by (induction fss arbitrary: phs) simp_all
  then show ?thesis
    by (intro nth_equalityI) (simp_all add: column_phase [OF assms])
qed

lemma network_round_ids: "length fs = length qs \<Longrightarrow> map st_id (snd (network_round pf fs (s, qs))) = map st_id qs"
  by (rule nth_equalityI) (simp_all add: network_round_def Let_def)

lemma network_run_ids:
  "\<lbrakk>\<forall>fs \<in> set fss. length fs = length qs; network_run pf fss (s, qs) = (s', qs')\<rbrakk> \<Longrightarrow> map st_id qs' = map st_id qs"
proof (induction fss arbitrary: s qs)
  case (Cons fs fss)
  obtain s1 qs1 where r: "network_round pf fs (s, qs) = (s1, qs1)" by (metis prod.exhaust)
  with network_round_ids [of fs qs pf s] Cons.prems(1) have 1: "map st_id qs1 = map st_id qs" by simp
  then have l: "length qs1 = length qs" by (metis length_map)
  have "map st_id qs' = map st_id qs1"
    by (rule Cons.IH) (use Cons.prems r l in \<open>simp_all add: network_run_def\<close>)
  with 1 show ?case by simp
qed (simp add: network_run_def)

section \<open>A small network, for the witnesses\<close>

text \<open>An advertiser that knows two devices, and the two of them waiting for their confirmation in
  slots of the same subevent; four rounds in which the second one loses its first response and
  the first one's timer expires.\<close>

definition fleet_keys :: key_map where
  "fleet_keys = demo_keys(4 \<mapsto> (sign_attributes 4, demo_key 10))"

definition demo_host :: "key_map advertiser" where
  "demo_host = demo_advertiser\<lparr>psa_store := fleet_keys\<rparr>"

definition demo_station :: "u16 \<Rightarrow> nat \<Rightarrow> u8 \<Rightarrow> key_map station" where
  "demo_station i k j = \<lparr>st_platform = demo,
     st_link = \<lparr>lk_sub = 0, lk_sync = 3, lk_info = \<lparr>recv_subevent = 0, periodic_event_counter = 9\<rparr>, lk_rssi = 0\<rparr>, st_id = i,
     st_dev = (sc_boot demo i (demo_keys(3 \<mapsto> (sign_attributes 3, demo_key k))))\<lparr>sc_state := CONFIRMING, sc_at := Confirming_wait,
       recv := Confirm_recv, default_sync := Some 3, selected_slot := \<lparr>subevent = 0, rsp_slot = j\<rparr>\<rparr>\<rparr>"

definition demo_fleet :: "key_map station list" where
  "demo_fleet = [demo_station 1 9 0, demo_station 2 10 7]"

definition demo_fates :: "fate list list" where
  "demo_fates =
     [[\<lparr>ft_timer = False, ft_lost = None, ft_down = True, ft_up = True\<rparr>, \<lparr>ft_timer = False, ft_lost = None, ft_down = True, ft_up = False\<rparr>],
      [\<lparr>ft_timer = False, ft_lost = None, ft_down = True, ft_up = True\<rparr>, \<lparr>ft_timer = False, ft_lost = None, ft_down = True, ft_up = True\<rparr>],
      [\<lparr>ft_timer = False, ft_lost = None, ft_down = False, ft_up = True\<rparr>, \<lparr>ft_timer = False, ft_lost = None, ft_down = True, ft_up = True\<rparr>],
      [\<lparr>ft_timer = True, ft_lost = None, ft_down = True, ft_up = True\<rparr>, \<lparr>ft_timer = False, ft_lost = None, ft_down = True, ft_up = True\<rparr>]]"

lemma demo_host_sim: "adv_sim (\<lambda>p. p) fleet_keys tag demo_host (abs_of demo_host)"
  using adv_sim_abs_of [of demo_host "\<lambda>p. p" tag] demo_advertiser_ok by (simp add: demo_host_def adv_inv_def)

lemma demo_host_start:
  "adv_time demo_host = 0" "next_counter demo_host = 1" "slot_exists p \<Longrightarrow> view_at demo_host p = Free"
  using demo_advertiser_ok demo_advertiser_start
  by (auto simp: demo_host_def adv_time_def next_counter_def view_at_def slot_exists_def)

lemma demo_pair:
  assumes "i \<noteq> 0" and "key_is fleet_keys (scanner_key_id demo i) (demo_key k)"
  shows "radio_pair demo (\<lambda>p. p) demo (\<lambda>p. p) (mac32 demo_hash) fleet_keys (psa_store (st_dev (demo_station i k j)))
    (demo_key 7) (demo_key k) i (st_link (demo_station i k j))"
proof -
  have "MIN_SCANNER_KEY_ID demo = 3" by (simp add: key_ids demo_def store_platform_def)
  moreover have "key_is fleet_keys (ADVERTISER_KEY_ID demo) (demo_key 7)"
    using demo_keys_shared(1) by (simp add: fleet_keys_def key_is_def demo_key_ids)
  ultimately show ?thesis
    using assms demo_keys_shared(1)
    by (intro radio_pair.intro radio_pair_axioms.intro demo_reliable)
       (simp_all add: demo_station_def sc_boot_def key_is_def demo_key_ids adv_sizes)
qed

lemma demo_station_ok:
  assumes "i \<noteq> 0" and "key_is fleet_keys (scanner_key_id demo i) (demo_key k)" and "j < 103"
  shows "station_ok demo (\<lambda>p. p) (\<lambda>p. p) (mac32 demo_hash) fleet_keys (demo_key 7) demo_host (demo_station i k j) (Asking True 0)"
proof -
  let ?q = "demo_station i k j"
  have j: "unat j < 103" using assms(3) by (simp add: word_less_nat_alt)
  have inv: "sc_inv i (st_dev ?q)"
    using sc_inv_boot [of i demo "demo_keys(3 \<mapsto> (sign_attributes 3, demo_key k))"] by (simp add: demo_station_def sc_inv_def)
  have "slot_exists (station_slot ?q)" using j by (simp add: station_slot_def own_slot_def demo_station_def slot_exists_def adv_sizes)
  then have "view_at demo_host (station_slot ?q) = Free" by (rule demo_host_start(3))
  moreover have "linked (\<lambda>p. p) fleet_keys (mac32 demo_hash (demo_key 7)) (\<lambda>p. p) (psa_store (st_dev ?q)) i demo_host (st_dev ?q)"
    using demo_host_sim inv j
    by (auto simp: linked_def demo_station_def slot_in_range_def SCANNER_RSP_SLOTS_def sc_boot_def)
  moreover have "expects True 0 (st_dev ?q)" "sem_count (synced_sem (st_dev ?q)) = 0" "st_id ?q = i" "st_platform ?q = demo"
    by (simp_all add: demo_station_def expects_def wait_point_def waits_def listening_def receiving_def sc_boot_def new_sem_def)
  ultimately show ?thesis
    using demo_pair [OF assms(1,2), of j] demo_platform by (auto simp: station_ok_def unheard_def)
qed

lemma demo_fleet_ok:
  "fleet_ok demo (\<lambda>p. p) (\<lambda>p. p) (mac32 demo_hash) fleet_keys (demo_key 7) demo_host demo_fleet [Asking True 0, Asking True 0]"
  "key_is fleet_keys (ADVERTISER_KEY_ID demo) (demo_key 7)"
proof -
  have k: "key_is fleet_keys (scanner_key_id demo 1) (demo_key 9)" "key_is fleet_keys (scanner_key_id demo 2) (demo_key 10)"
    using demo_key_ids by (simp_all add: fleet_keys_def key_is_def) (simp_all add: key_ids demo_def store_platform_def)
  show "key_is fleet_keys (ADVERTISER_KEY_ID demo) (demo_key 7)"
    using demo_keys_shared(1) by (simp add: fleet_keys_def key_is_def demo_key_ids)
  have "station_slot (demo_station 1 9 0) = (0, 0)" "station_slot (demo_station 2 10 7) = (0, 7)"
    by (simp_all add: demo_station_def station_slot_def own_slot_def)
  then show "fleet_ok demo (\<lambda>p. p) (\<lambda>p. p) (mac32 demo_hash) fleet_keys (demo_key 7) demo_host demo_fleet [Asking True 0, Asking True 0]"
    using demo_station_ok [OF _ k(1), of 0] demo_station_ok [OF _ k(2), of 7] demo_host_sim
    by (auto simp: fleet_ok_def demo_fleet_def less_Suc_eq)
qed

lemma demo_fates_ok: "\<forall>fs \<in> set demo_fates. length fs = length demo_fleet" "length demo_fates = 4" "length demo_fleet = 2"
  by (simp_all add: demo_fates_def demo_fleet_def)

section \<open>The properties\<close>

text \<open>C6: any number of scanners share the advertiser and none disturbs another: as long as their
  slots are their own, a run of the network, with any losses, of messages, responses and syncs, and any expiries of the timers,
  implements for every station the automaton of its phases, driven by that station's timer and
  losses alone; the slots stay their own, and the advertiser's counter goes up by at most two a
  round.\<close>

theorem network_refines:
  assumes "pawr_reliable pf key_of mac" and "key_is keys (ADVERTISER_KEY_ID pf) ka"
    and "fleet_ok pf key_of key_of' mac keys ka s qs phs" and "\<forall>fs \<in> set fss. length fs = length qs"
    and "adv_time s + 2 * length fss + 1 < 2 ^ 64" and "network_run pf fss (s, qs) = (s', qs')"
  shows "fleet_ok pf key_of key_of' mac keys ka s' qs'
      (map (\<lambda>n. fold next_phase (column n fss) (phs ! n)) [0..<length qs]) \<and>
    map st_id qs' = map st_id qs \<and> adv_time s' \<le> adv_time s + 2 * length fss"
proof -
  have "length phs = length qs" using assms(3) by (simp add: fleet_ok_def)
  with network_runs [OF assms] network_run_ids [OF assms(4,6)] columns [of fss phs] assms(4) show ?thesis by simp
qed

theorem network_refines_witness:
  "fleet_ok demo (\<lambda>p. p) (\<lambda>p. p) (mac32 demo_hash) fleet_keys (demo_key 7) (fst (network_run demo demo_fates (demo_host, demo_fleet)))
    (snd (network_run demo demo_fates (demo_host, demo_fleet))) [Heard False 1, Asleep]"
proof -
  obtain s' qs' where run: "network_run demo demo_fates (demo_host, demo_fleet) = (s', qs')" by (metis prod.exhaust)
  have room: "adv_time demo_host + 2 * length demo_fates + 1 < 2 ^ 64" by (simp add: demo_host_start(1) demo_fates_ok(2))
  have "map (\<lambda>n. fold next_phase (column n demo_fates) ([Asking True 0, Asking True 0] ! n)) [0..<length demo_fleet] = [Heard False 1, Asleep]"
    by (simp add: demo_fates_ok(3) column_def demo_fates_def next_phase_def after_wait_def upt_rec)
  with network_refines [OF demo_reliable demo_fleet_ok(2,1) demo_fates_ok(1) room run] run show ?thesis by simp
qed

definition device_at :: "'p platform \<Rightarrow> fate list list \<Rightarrow> 'p advertiser \<times> 'q station list \<Rightarrow> nat \<Rightarrow> nat \<Rightarrow> 'q scanner" where
  "device_at pf fss p n r = st_dev (snd (network_run pf (take r fss) p) ! n)"

lemma station_after:
  assumes "pawr_reliable pf key_of mac" and "key_is keys (ADVERTISER_KEY_ID pf) ka"
    and "fleet_ok pf key_of key_of' mac keys ka s qs phs" and "\<forall>fs \<in> set fss. length fs = length qs"
    and "adv_time s + 2 * length fss + 1 < 2 ^ 64" and "network_run pf fss (s, qs) = (s', qs')" and "n < length qs"
  shows "station_ok pf key_of key_of' mac keys ka s' (qs' ! n) (fold next_phase (column n fss) (phs ! n))"
proof -
  have "length phs = length qs" using assms(3) by (simp add: fleet_ok_def)
  moreover from this have "length (fold (map2 next_phase) fss phs) = length qs" using columns [of fss phs] assms(4) by simp
  ultimately show ?thesis
    using network_runs [OF assms(1-6)] column_phase [of fss phs n] assms(4,7) by (auto simp: fleet_ok_def)
qed

lemma station_told:
  assumes "pawr_reliable pf key_of mac" and "key_is keys (ADVERTISER_KEY_ID pf) ka"
    and "fleet_ok pf key_of key_of' mac keys ka s qs phs" and "\<forall>fs \<in> set fss. length fs = length qs"
    and "adv_time s + 2 * length fss + 1 < 2 ^ 64" and "n < length qs"
    and "\<exists>m \<le> N. l < m \<and> m \<le> length fss \<and> fold next_phase (take m (column n fss)) (phs ! n) = Told c"
  shows "\<exists>m \<le> N. l < m \<and> m \<le> length fss \<and>
    informed c (if c then EVT_NO_FAULT else EVT_GOT_ACK) (device_at pf fss (s, qs) n m)"
proof -
  from assms(7) obtain m where m: "m \<le> N" "l < m" "m \<le> length fss" "fold next_phase (take m (column n fss)) (phs ! n) = Told c" by blast
  obtain s' qs' where run: "network_run pf (take m fss) (s, qs) = (s', qs')" by (metis prod.exhaust)
  have "\<forall>fs \<in> set (take m fss). length fs = length qs" using assms(4) set_take_subset by fast
  moreover have "adv_time s + 2 * length (take m fss) + 1 < 2 ^ 64" using assms(5) by simp
  moreover have "column n (take m fss) = take m (column n fss)" by (simp add: column_def take_map)
  ultimately have "station_ok pf key_of key_of' mac keys ka s' (qs' ! n) (Told c)"
    using station_after [OF assms(1-3) _ _ run assms(6)] m(4) by simp
  then show ?thesis
    using m(1-3) run by (intro exI [of _ m]) (simp add: station_ok_def device_at_def)
qed

text \<open>A station that persists is registered, and an expiry of its timer starts a new wait for the ack, or
  the ack is on its way.\<close>

lemma persists_registered:
  assumes "station_ok pf key_of key_of' mac keys ka s q ph" and "persists fs ph"
  shows "sc_state (st_dev q) \<in> {CONFIRMING, SLEEPING, ENABLED} \<and> default_sync (st_dev q) \<noteq> None"
    and "timer_running (zlog (st_dev q)) \<Longrightarrow> after_timer True ph \<in> {Asking False 0, Heard False 0}"
proof -
  let ?t = "st_dev q"
  have "sc_inv (st_id q) ?t"
    and "asleep ?t \<or> (\<exists>c k. expects c k ?t) \<or> (\<exists>c e. informed c e ?t)"
    and "timer_running (zlog ?t) \<longrightarrow> after_timer True ph \<in> {Asking False 0, Heard False 0}"
    using assms by (cases ph; auto simp: station_ok_def linked_def expects_def informed_def)+
  then show "sc_state ?t \<in> {CONFIRMING, SLEEPING, ENABLED} \<and> default_sync ?t \<noteq> None"
    and "timer_running (zlog ?t) \<Longrightarrow> after_timer True ph \<in> {Asking False 0, Heard False 0}"
    by (auto simp: sc_inv_def asleep_def expects_def informed_def wait_point_def listening_def)
qed

lemma station_persists:
  assumes "pawr_reliable pf key_of mac" and "key_is keys (ADVERTISER_KEY_ID pf) ka"
    and "fleet_ok pf key_of key_of' mac keys ka s qs phs" and "\<forall>fs \<in> set fss. length fs = length qs"
    and "adv_time s + 2 * length fss + 1 < 2 ^ 64" and "network_run pf fss (s, qs) = (s', qs')"
    and "n < length qs" and "persists [] (phs ! n)" and "few_losses (column n fss)"
  shows "sc_state (st_dev (qs' ! n)) \<in> {CONFIRMING, SLEEPING, ENABLED}" and "default_sync (st_dev (qs' ! n)) \<noteq> None"
    and "timer_running (zlog (st_dev (qs' ! n))) \<Longrightarrow>
      after_timer True (fold next_phase (column n fss) (phs ! n)) \<in> {Asking False 0, Heard False 0}"
proof -
  from persists_registered [OF station_after [OF assms(1-7)] never_gives_up [OF assms(9,8)]]
  show "sc_state (st_dev (qs' ! n)) \<in> {CONFIRMING, SLEEPING, ENABLED}" and "default_sync (st_dev (qs' ! n)) \<noteq> None"
    and "timer_running (zlog (st_dev (qs' ! n))) \<Longrightarrow>
      after_timer True (fold next_phase (column n fss) (phs ! n)) \<in> {Asking False 0, Heard False 0}"
    by blast+
qed

lemma persists_start: "ph = Asleep \<or> ph = Asking c 0 \<Longrightarrow> persists [] ph"
  using persistsI(1) [of "[]" 0 "[]"] by auto

text \<open>An expiry of the timer starts a new wait for the ack, or the ack is on its way.\<close>

lemma expiry_told:
  assumes "ft_timer f" and "after_timer True ph \<in> {Asking False 0, Heard False 0}" and "in_sync (f # fs)" and "losses (f # fs) \<le> 2" and "5 \<le> length fs"
  shows "\<exists>m \<le> length fs. fold next_phase (take (Suc m) (f # fs)) ph = Told False"
proof -
  obtain k' ph' where ph': "after_timer True ph = ph'" "after_timer True ph' = ph'" "ph' \<noteq> Told False"
    "\<exists>m \<le> length (f # fs). fold next_phase (take m (f # fs)) ph' = Told False"
    using assms(2) told_in_time [of "f # fs" 0 False] assms(3-5) by fastforce
  then obtain m where "m \<le> length fs" "fold next_phase (take (Suc m) (f # fs)) ph' = Told False"
    by (metis fold_simps(1) id_apply length_Cons not_less_eq_eq old.nat.exhaust take0)
  moreover have "next_phase f ph = next_phase f ph'" using ph'(1,2) assms(1) by (simp add: next_phase_def after_wait_def after_wait_def)
  ultimately show ?thesis by auto
qed

lemma station_acked:
  assumes "pawr_reliable pf key_of mac" and "key_is keys (ADVERTISER_KEY_ID pf) ka"
    and "fleet_ok pf key_of key_of' mac keys ka s qs phs" and "\<forall>fs \<in> set fss. length fs = length qs"
    and "adv_time s + 2 * length fss + 1 < 2 ^ 64" and "n < length qs" and "persists [] (phs ! n)" and "few_losses (column n fss)"
    and "r + 6 \<le> length fss" and "timer_running (zlog (device_at pf fss (s, qs) n r))" and "ft_timer (fss ! r ! n)"
  shows "\<exists>m \<le> r + 6. r < m \<and> m \<le> length fss \<and> informed False EVT_GOT_ACK (device_at pf fss (s, qs) n m)"
proof -
  obtain s1 qs1 where run: "network_run pf (take r fss) (s, qs) = (s1, qs1)" by (metis prod.exhaust)
  have col: "column n (take r fss) = take r (column n fss)" "length (column n fss) = length fss" by (simp_all add: column_def take_map)
  have lens: "\<forall>fs \<in> set (take r fss). length fs = length qs" using assms(4) set_take_subset by fast
  have room: "adv_time s + 2 * length (take r fss) + 1 < 2 ^ 64" using assms(5) by simp
  have few: "few_losses (column n (take r fss))"
    using few_losses_prefix [of "take r (column n fss)" "drop r (column n fss)"] assms(8) by (simp add: col)
  let ?ph = "fold next_phase (take r (column n fss)) (phs ! n)" and ?f = "fss ! r ! n" and ?fs = "take 5 (drop (Suc r) (column n fss))"
  from station_persists(3) [OF assms(1-3) lens room run assms(6,7) few] assms(10) run
  have ph: "after_timer True ?ph \<in> {Asking False 0, Heard False 0}" by (simp add: col device_at_def)
  have next6: "take 6 (drop r (column n fss)) = ?f # ?fs"
    using assms(9) by (simp add: column_def Cons_nth_drop_Suc [symmetric] numeral_nat)
  have "losses (?f # ?fs) \<le> 2"
    using assms(8,9) unfolding few_losses_def next6 [symmetric] col(2) by simp
  moreover have "in_sync (?f # ?fs)"
    using in_sync_part(1) [OF in_sync_part(2) [OF few_losses_in_sync [OF assms(8)]], of 6 r] by (simp only: next6)
  ultimately obtain m where
    m: "m \<le> 5" "fold next_phase (take (Suc m) (?f # ?fs)) ?ph = Told False"
    using expiry_told [OF assms(11) ph, of ?fs] assms(9) by (auto simp: col(2))
  have "take (r + Suc m) (column n fss) = take r (column n fss) @ take (Suc m) (?f # ?fs)"
    unfolding next6 [symmetric] take_add using m(1) by (simp add: min_def)
  with m(2) have "fold next_phase (take (r + Suc m) (column n fss)) (phs ! n) = Told False" by simp
  with m(1) assms(9) have "\<exists>m \<le> r + 6. r < m \<and> m \<le> length fss \<and> fold next_phase (take m (column n fss)) (phs ! n) = Told False"
    by (intro exI [of _ "r + Suc m"]) simp
  from station_told [OF assms(1-6) this] show ?thesis by simp
qed

text \<open>A station that starts its wait for the confirmation.\<close>

lemma station_delivers:
  assumes "pawr_reliable pf key_of mac" and "key_is keys (ADVERTISER_KEY_ID pf) ka"
    and "fleet_ok pf key_of key_of' mac keys ka s qs phs" and "\<forall>fs \<in> set fss. length fs = length qs"
    and "adv_time s + 2 * length fss + 1 < 2 ^ 64" and "n < length qs" and "phs ! n = Asking True 0" and "few_losses (column n fss)"
  shows "sc_state (device_at pf fss (s, qs) n r) \<in> {CONFIRMING, SLEEPING, ENABLED}" and "default_sync (device_at pf fss (s, qs) n r) \<noteq> None"
    and "6 \<le> length fss \<Longrightarrow> \<exists>m \<le> 6. informed True EVT_NO_FAULT (device_at pf fss (s, qs) n m)"
    and "\<lbrakk>r + 6 \<le> length fss; timer_running (zlog (device_at pf fss (s, qs) n r)); ft_timer (fss ! r ! n)\<rbrakk> \<Longrightarrow>
      \<exists>m \<le> r + 6. r < m \<and> informed False EVT_GOT_ACK (device_at pf fss (s, qs) n m)"
proof -
  have start: "persists [] (phs ! n)" by (rule persists_start) (use assms(7) in simp)
  obtain s1 qs1 where run: "network_run pf (take r fss) (s, qs) = (s1, qs1)" by (metis prod.exhaust)
  have col: "column n (take r fss) = take r (column n fss)" "length (column n fss) = length fss" by (simp_all add: column_def take_map)
  have lens: "\<forall>fs \<in> set (take r fss). length fs = length qs" using assms(4) set_take_subset by fast
  have room: "adv_time s + 2 * length (take r fss) + 1 < 2 ^ 64" using assms(5) by simp
  have few: "few_losses (column n (take r fss))"
    using few_losses_prefix [of "take r (column n fss)" "drop r (column n fss)"] assms(8) by (simp add: col)
  from station_persists(1,2) [OF assms(1-3) lens room run assms(6) start few] run
  show "sc_state (device_at pf fss (s, qs) n r) \<in> {CONFIRMING, SLEEPING, ENABLED}" "default_sync (device_at pf fss (s, qs) n r) \<noteq> None"
    by (simp_all add: device_at_def)
  from station_acked [OF assms(1-6) start assms(8), of r]
  show "\<lbrakk>r + 6 \<le> length fss; timer_running (zlog (device_at pf fss (s, qs) n r)); ft_timer (fss ! r ! n)\<rbrakk> \<Longrightarrow>
      \<exists>m \<le> r + 6. r < m \<and> informed False EVT_GOT_ACK (device_at pf fss (s, qs) n m)"
    by blast
  assume six: "6 \<le> length fss"
  let ?fs = "take 6 (column n fss)"
  have "losses ?fs \<le> 2" using few_losses_window [of "[]" ?fs] few_losses_prefix [of ?fs "drop 6 (column n fss)"] assms(8) by simp
  then obtain m where m: "m \<le> 6" "fold next_phase (take m ?fs) (Asking True 0) = Told True"
    using told_in_time(1) [of ?fs 0 True] in_sync_part(1) [OF few_losses_in_sync [OF assms(8)], of 6] six by (auto simp: col(2))
  then have "0 < m" by (cases m) simp_all
  with m six assms(7) have "\<exists>m \<le> 6. 0 < m \<and> m \<le> length fss \<and> fold next_phase (take m (column n fss)) (phs ! n) = Told True"
    by (intro exI [of _ m]) (simp add: min_def)
  from station_told [OF assms(1-6) this]
  show "\<exists>m \<le> 6. informed True EVT_NO_FAULT (device_at pf fss (s, qs) n m)" by auto
qed

text \<open>A station that waits for its confirmation, or for the ack of its data, and keeps its sync gets it, and no
  other scanner's traffic can prevent it: with \<open>k\<close> messages counted and \<open>j\<close> of its own messages and
  responses lost, \<open>k + j \<le> 2\<close>, the main thread finds the event in the semaphore after at most
  \<open>2 + 2 * j\<close> rounds, whatever is lost for the others and whenever the timers expire.\<close>

lemma waiting_station_is_acknowledged:
  assumes "pawr_reliable pf key_of mac" and "key_is keys (ADVERTISER_KEY_ID pf) ka"
    and "fleet_ok pf key_of key_of' mac keys ka s qs phs" and "\<forall>fs \<in> set fss. length fs = length qs"
    and "adv_time s + 2 * length fss + 1 < 2 ^ 64"
    and "n < length qs" and "phs ! n = Asking c k" and "in_sync (column n fss)"
    and "k + losses (column n fss) \<le> 2" and "2 + 2 * losses (column n fss) = length fss"
  shows "\<exists>m \<le> length fss. let t = device_at pf fss (s, qs) n m
    in sc_at t = (if c then Confirming_wait else Enabled_wait) \<and> sem_count (synced_evt_sem t) = 1 \<and>
       fault_reason t = (if c then EVT_NO_FAULT else EVT_GOT_ACK)"
proof -
  have "length (column n fss) = length fss" by (simp add: column_def)
  with told_in_time(1) [OF assms(8,9), of c] assms(10) obtain m where
    m: "m \<le> length fss" "fold next_phase (take m (column n fss)) (Asking c k) = Told c"
    by auto
  then have "0 < m" by (cases m) simp_all
  with m assms(7) have "\<exists>m \<le> length fss. 0 < m \<and> m \<le> length fss \<and> fold next_phase (take m (column n fss)) (phs ! n) = Told c" by auto
  from station_told [OF assms(1-6) this] show ?thesis
    by (auto simp: informed_def wait_point_def Let_def)
qed

lemma waiting_station_is_acknowledged_example:
  "\<exists>m \<le> 4. let t = device_at demo demo_fates (demo_host, demo_fleet) 1 m
    in sc_at t = Confirming_wait \<and> sem_count (synced_evt_sem t) = 1 \<and> fault_reason t = EVT_NO_FAULT"
proof -
  have l: "losses (column 1 demo_fates) = 1" "in_sync (column 1 demo_fates)" by (simp_all add: column_def demo_fates_def lossy_def)
  have "\<exists>m \<le> length demo_fates. let t = device_at demo demo_fates (demo_host, demo_fleet) 1 m
    in sc_at t = (if True then Confirming_wait else Enabled_wait) \<and> sem_count (synced_evt_sem t) = 1 \<and>
       fault_reason t = (if True then EVT_NO_FAULT else EVT_GOT_ACK)"
    by (rule waiting_station_is_acknowledged [OF demo_reliable demo_fleet_ok(2,1) demo_fates_ok(1), where k = 0])
       (simp_all add: l [simplified] demo_host_start(1) demo_fates_ok(2,3))
  then show ?thesis by (simp only: demo_fates_ok(2) if_True)
qed

text \<open>A registered station stays registered: if in any six consecutive rounds at most two of
  its own messages and responses are lost, then, whatever happens to the others and however often
  its timer expires, a station that starts asleep or with its count at 0 is in every round
  confirming, sleeping or enabled; it never gives up its sync.\<close>

lemma station_stays_registered:
  assumes "pawr_reliable pf key_of mac" and "key_is keys (ADVERTISER_KEY_ID pf) ka"
    and "fleet_ok pf key_of key_of' mac keys ka s qs phs" and "\<forall>fs \<in> set fss. length fs = length qs"
    and "adv_time s + 2 * length fss + 1 < 2 ^ 64" and "network_run pf fss (s, qs) = (s', qs')"
    and "n < length qs" and "phs ! n = Asleep \<or> phs ! n = Asking c 0" and "few_losses (column n fss)"
  shows "sc_state (st_dev (qs' ! n)) \<in> {CONFIRMING, SLEEPING, ENABLED} \<and> default_sync (st_dev (qs' ! n)) \<noteq> None"
  using station_persists(1,2) [OF assms(1-7) persists_start [OF assms(8)] assms(9)] by blast

lemma station_stays_registered_example:
  "sc_state (st_dev (snd (network_run demo demo_fates (demo_host, demo_fleet)) ! 0)) \<in> {CONFIRMING, SLEEPING, ENABLED}"
proof -
  obtain s' qs' where run: "network_run demo demo_fates (demo_host, demo_fleet) = (s', qs')" by (metis prod.exhaust)
  have "few_losses (column 0 demo_fates)"
    by (simp add: few_losses_def column_def demo_fates_def lossy_def less_Suc_eq)
  with station_stays_registered [OF demo_reliable demo_fleet_ok(2,1) demo_fates_ok(1) _ run, of 0 True] run show ?thesis
    by (simp add: demo_host_start(1) demo_fates_ok(2,3))
qed

end
