(* ===== verification/Slot_Keeping.thy ===== *)
theory Slot_Keeping
  imports Fleet
begin

text \<open>
  Registered scanners keep their slots: what the advertiser has in a station's slot is followed round
  by round, and a station that loses little and whose timer runs as configured is never evicted.
\<close>

section \<open>A station and its slot\<close>

text \<open>The phase of a station and the contents of its slot, in a round.\<close>

definition watch :: "u16 \<Rightarrow> fate \<Rightarrow> phase \<times> slot_view \<Rightarrow> phase \<times> slot_view" where
  "watch i f = (\<lambda>(ph, v). (next_phase f ph, if sends f ph then Held i 0 else age v))"

lemma next_phase_Gone [simp]: "next_phase f Gone = Gone" "fold next_phase fs Gone = Gone"
  by (simp add: next_phase_def after_wait_def) (induction fs; simp add: next_phase_def after_wait_def)

lemma sends_Gone [simp]: "\<not> sends f Gone"
  by (simp add: sends_def after_wait_def)

lemma watch_phase: "fst (fold (watch i) fs (ph, v)) = fold next_phase fs ph"
  by (induction fs arbitrary: ph v) (simp_all add: watch_def)

lemma network_watch:
  assumes "pawr_reliable pf key_of mac" and "key_is keys (ADVERTISER_KEY_ID pf) ka"
    and "fleet_ok pf key_of key_of' mac keys ka s qs phs" and "\<forall>fs \<in> set fss. length fs = length qs"
    and "adv_time s + 2 * length fss + 1 < 2 ^ 64" and "network_run pf fss (s, qs) = (s', qs')"
    and n: "n < length qs" and there: "fold next_phase (column n fss) (phs ! n) \<noteq> Gone"
  shows "station_slot (qs' ! n) = station_slot (qs ! n) \<and>
    (fold next_phase (column n fss) (phs ! n), view_at s' (station_slot (qs ! n))) =
      fold (watch (st_id (qs ! n))) (column n fss) (phs ! n, view_at s (station_slot (qs ! n)))"
  using assms(3-)
proof (induction fss arbitrary: s qs phs)
  case Nil
  then show ?case by (simp add: network_run_def column_def)
next
  case (Cons fs fss)
  obtain s1 qs1 where r: "network_round pf fs (s, qs) = (s1, qs1)" by (metis prod.exhaust)
  from Cons.prems have len: "length fs = length qs" and room: "adv_time s + 3 < 2 ^ 64" by simp_all
  have lp: "length phs = length qs" using Cons.prems(1) by (simp add: fleet_ok_def)
  have col: "column n (fs # fss) = fs ! n # column n fss" by (simp add: column_def)
  have g: "next_phase (fs ! n) (phs ! n) \<noteq> Gone" using Cons.prems(6) by (auto simp: col)
  note 1 = network_round_ok [OF assms(1,2) Cons.prems(1) len room r]
  from 1(3) [OF Cons.prems(5) g] have m: "slot_moves s (fs ! n) (phs ! n) (qs ! n) s1 (qs1 ! n)" .
  have ph1: "map2 next_phase fs phs ! n = next_phase (fs ! n) (phs ! n)" using Cons.prems(5) len lp by simp
  have ids: "map st_id qs1 = map st_id qs" using network_round_ids [OF len, of pf s] r by simp
  then have l1: "length qs1 = length qs" by (metis length_map)
  with ids Cons.prems(5) have id: "st_id (qs1 ! n) = st_id (qs ! n)" by (metis nth_map)
  have run: "network_run pf fss (s1, qs1) = (s', qs')" using Cons.prems(4) r by (simp add: network_run_def)
  have "fold next_phase (column n fss) (map2 next_phase fs phs ! n) \<noteq> Gone" using Cons.prems(6) by (simp add: col ph1)
  from Cons.IH [OF 1(1) _ _ run _ this] Cons.prems(2,3,5) 1(2) l1 m
  show ?case by (auto simp: col ph1 id slot_moves_def watch_def)
qed

section \<open>Losses and timers\<close>

text \<open>The timer of the data generator expires every \<open>CONFIG_BLOCK_TIME\<close> (10) seconds and a period takes
  2000 * 1.25 ms, so every fourth period, or fifth if it comes late.\<close>

definition regular :: "fate list \<Rightarrow> bool" where
  "regular fs \<longleftrightarrow> (\<forall>i. i + 5 \<le> length fs \<longrightarrow> (\<exists>f \<in> set (take 5 (drop i fs)). ft_timer f))"

lemma regular_code: "regular fs \<longleftrightarrow> list_all (\<lambda>i. list_ex ft_timer (take 5 (drop i fs))) [0..<length fs - 4]"
  by (auto simp: regular_def list_all_iff list_ex_iff)

lemma few_losses_run: "few_losses (us @ vs) \<Longrightarrow> \<forall>f \<in> set vs. lossy f \<Longrightarrow> length vs \<le> 2"
proof -
  assume few: "few_losses (us @ vs)" and all: "\<forall>f \<in> set vs. lossy f"
  have "few_losses (us @ take 3 vs)" using few_losses_prefix [of "us @ take 3 vs" "drop 3 vs"] few by simp
  then have "losses (take 3 vs) \<le> 2" using few_losses_window [of us "take 3 vs"] by simp
  moreover have "losses (take 3 vs) = length (take 3 vs)" using all by (simp add: losses_def) (metis filter_True in_set_takeD length_take)
  ultimately show ?thesis by simp
qed

lemma regular_run: "regular (us @ vs) \<Longrightarrow> \<forall>f \<in> set vs. \<not> ft_timer f \<Longrightarrow> length vs \<le> 4"
proof (rule ccontr)
  assume reg: "regular (us @ vs)" and none: "\<forall>f \<in> set vs. \<not> ft_timer f" and "\<not> length vs \<le> 4"
  then have "\<exists>f \<in> set (take 5 (drop (length us) (us @ vs))). ft_timer f"
    using spec [OF reg [unfolded regular_def], of "length us"] by simp
  with none show False by (auto dest: in_set_takeD)
qed

lemma regular_prefix: "regular (us @ vs) \<Longrightarrow> regular us"
proof -
  assume reg: "regular (us @ vs)"
  have "take 5 (drop i (us @ vs)) = take 5 (drop i us)" if "i + 5 \<le> length us" for i using that by simp
  with reg show ?thesis unfolding regular_def by (metis le_trans length_append trans_less_add1 le_add1)
qed

definition served :: "fate list \<Rightarrow> bool" where
  "served fs \<longleftrightarrow> few_losses fs \<and> regular fs"

lemma served_prefix: "served (us @ vs) \<Longrightarrow> served us"
  using few_losses_prefix regular_prefix by (auto simp: served_def)

section \<open>The slot is kept\<close>

text \<open>How long the advertiser has not heard the station, in each phase: a station asleep has not been
  heard since its last delivery, and in the rounds without an expiry since; a station that asks has
  lost every message or response since its timer expired.\<close>

fun keeps :: "u16 \<Rightarrow> fate list \<Rightarrow> phase \<Rightarrow> slot_view \<Rightarrow> bool" where
  "keeps i fs Asleep v = (\<exists>us f vs. fs = us @ f # vs \<and> (\<forall>g \<in> set vs. \<not> ft_timer g) \<and> v = Held i (2 + length vs))"
| "keeps i fs (Asking c k) v = (v = Free \<and> c \<and> (\<forall>f \<in> set fs. lossy f) \<or>
     (\<exists>us vs n. fs = us @ vs \<and> (\<forall>f \<in> set vs. lossy f) \<and> n \<le> 6 \<and> v = Held i (n + length vs)))"
| "keeps i fs (Heard c k) v = (v = Held i 0)"
| "keeps i fs (Told c) v = (v = Held i 1)"
| "keeps i fs ph v = False"

definition secure :: "u16 \<Rightarrow> fate list \<Rightarrow> phase \<Rightarrow> slot_view \<Rightarrow> bool" where
  "secure i fs ph v \<longleftrightarrow> persists fs ph \<and> keeps i fs ph v"

text \<open>A secure station that has had three rounds holds its slot, and not just for one more round.\<close>

lemma secure_held:
  assumes "secure i fs ph v" and "served fs"
  shows "v = Free \<and> (\<exists>k. ph = Asking True k) \<and> length fs \<le> 2 \<or> (\<exists>n \<le> 8. v = Held i n)"
proof (cases ph)
  case Asleep
  with assms obtain us f vs where v: "fs = us @ f # vs" "\<forall>g \<in> set vs. \<not> ft_timer g" "v = Held i (2 + length vs)"
    by (auto simp: secure_def)
  then have "length vs \<le> 4" using assms(2) regular_run [of "us @ [f]" vs] by (simp add: served_def)
  with v show ?thesis by simp
next
  case (Asking c k)
  with assms(1) consider "v = Free" "c" "\<forall>f \<in> set fs. lossy f"
    | us vs n where "fs = us @ vs" "\<forall>f \<in> set vs. lossy f" "n \<le> 6" "v = Held i (n + length vs)"
    by (auto simp: secure_def)
  then show ?thesis
  proof cases
    case 1
    with assms(2) few_losses_run [of "[]" fs] Asking show ?thesis by (simp add: served_def)
  next
    case 2
    with assms(2) few_losses_run [of us vs] show ?thesis by (simp add: served_def)
  qed
qed (use assms(1) in \<open>simp_all add: secure_def\<close>)

text \<open>A round of a station that asks: its message and response get through, or it stays silent.\<close>

lemma keeps_asking:
  assumes k: "keeps i fs (Asking c k) v" and small: "v = Free \<or> (\<exists>n \<le> 8. v = Held i n)" and k3: "k < 3"
    and ph: "after_wait f ph = Asking c k"
  shows "keeps i (fs @ [f]) (next_phase f ph) (if sends f ph then Held i 0 else age v)"
proof (cases "lossy f")
  case True
  then have "\<not> sends f ph" "next_phase f ph = Asking c k \<or> next_phase f ph = Asking c (Suc k)"
    using k3 by (auto simp: sends_def next_phase_def ph lossy_def)
  moreover have "keeps i (fs @ [f]) (Asking c k') (age v)" for k'
  proof (cases "v = Free")
    case True
    then show ?thesis using k \<open>lossy f\<close> by auto
  next
    case False
    with k obtain us vs n where u: "fs = us @ vs" "\<forall>f \<in> set vs. lossy f" "n \<le> 6" "v = Held i (n + length vs)" by auto
    then have "fs @ [f] = us @ (vs @ [f]) \<and> (\<forall>f \<in> set (vs @ [f]). lossy f) \<and> age v = Held i (n + length (vs @ [f]))"
      using small True by (auto simp: MAX_SILENT_def EVENTS_PER_BLOCK_def)
    with u(3) show ?thesis by (metis keeps.simps(2))
  qed
  ultimately show ?thesis by (auto simp only: if_False)
next
  case False
  then show ?thesis using k3 by (simp add: sends_def next_phase_def ph lossy_def)
qed

lemma keeps_heard:
  assumes k: "keeps i fs (Heard c l) v" and f: "ft_lost f = None"
  shows "keeps i (fs @ [f]) (next_phase f (Heard c l)) (if sends f (Heard c l) then Held i 0 else age v)"
proof -
  have v: "v = Held i 0" using k by simp
  have fast: "MAX_SILENT = 9" by (simp add: MAX_SILENT_def EVENTS_PER_BLOCK_def)
  show ?thesis
  proof (cases "ft_down f")
    case True
    then show ?thesis using v fast f by (simp add: next_phase_def after_wait_def sends_def)
  next
    case False
    then have v': "(if sends f (Heard c l) then Held i 0 else age v) = Held i (0 + length [f])"
      using v fast f by (simp add: sends_def after_wait_def)
    obtain c' l' where ph: "next_phase f (Heard c l) = Asking c' l'"
      using False f by (cases "ft_timer f \<and> \<not> c") (auto simp: next_phase_def after_wait_def)
    have "\<forall>f \<in> set [f]. lossy f" using False by (simp add: lossy_def)
    then show ?thesis unfolding v' ph keeps.simps by (intro disjI2 exI [of _ fs] exI [of _ "[f]"] exI [of _ 0] conjI refl) simp_all
  qed
qed

text \<open>And of one that is asleep, or is when its main thread has taken the ack, and is not woken.\<close>

lemma keeps_sleeping:
  assumes "fs = us @ g # vs" and "\<forall>g \<in> set vs. \<not> ft_timer g" and "\<not> ft_timer f" and "length vs \<le> 4"
    and "after_wait f ph = Asleep"
  shows "keeps i (fs @ [f]) (next_phase f ph) (if sends f ph then Held i 0 else age (Held i (2 + length vs)))"
proof -
  have "next_phase f ph = Asleep" "\<not> sends f ph" using assms(5) by (simp_all add: next_phase_def sends_def)
  moreover have "fs @ [f] = us @ g # (vs @ [f])" "\<forall>g \<in> set (vs @ [f]). \<not> ft_timer g" using assms(1-3) by simp_all
  moreover have "age (Held i (2 + length vs)) = Held i (2 + length (vs @ [f]))"
    using assms(4) by (simp add: MAX_SILENT_def EVENTS_PER_BLOCK_def)
  ultimately show ?thesis by (simp only: keeps.simps if_False) blast
qed

lemma keeps_step:
  assumes p: "persists fs ph" and k: "keeps i fs ph v" and reg: "regular fs" and small: "v = Free \<or> (\<exists>n \<le> 8. v = Held i n)" and f: "ft_lost f = None"
  shows "keeps i (fs @ [f]) (next_phase f ph) (if sends f ph then Held i 0 else age v)"
proof -
  have wait: "after_wait f u = after_timer (ft_timer f) u" for u using f by (simp add: after_wait_def)
  have k3: "k < 3" if "after_timer (ft_timer f) ph = Asking c k" for c k using persists_timer [OF p, of "ft_timer f"] that by auto
  note asking = keeps_asking [OF _ small]
  show ?thesis
  proof (cases ph)
    case Asleep
    with k obtain us g vs where v: "fs = us @ g # vs" "\<forall>g \<in> set vs. \<not> ft_timer g" "v = Held i (2 + length vs)" by auto
    then have l: "length vs \<le> 4" using reg regular_run [of "us @ [g]" vs] by simp
    show ?thesis
    proof (cases "ft_timer f")
      case True
      have "keeps i fs (Asking False 0) v" using l v(3) by (fastforce intro: exI [of _ "[]"])
      then show ?thesis by (rule asking) (simp_all add: wait Asleep True)
    next
      case False
      show ?thesis unfolding v(3) by (rule keeps_sleeping [OF v(1,2) False l]) (simp add: wait Asleep False)
    qed
  next
    case (Asking c l)
    show ?thesis
    proof (cases "ft_timer f \<and> \<not> c")
      case True
      have "keeps i fs (Asking False 0) v" using k Asking True by auto
      then show ?thesis by (rule asking) (use True in \<open>simp_all add: wait Asking\<close>)
    next
      case False
      have "keeps i fs (Asking c l) v" using k Asking by simp
      then show ?thesis by (rule asking) (use False k3 [of c l] Asking in \<open>auto simp: wait\<close>)
    qed
  next
    case (Heard c l)
    show ?thesis using k unfolding Heard by (rule keeps_heard [OF _ f])
  next
    case (Told c)
    then have v: "v = Held i 1" using k by simp
    show ?thesis
    proof (cases "ft_timer f \<and> \<not> c")
      case True
      have "keeps i fs (Asking False 0) v" using v by (fastforce intro: exI [of _ "[]"])
      then show ?thesis by (rule asking) (use True in \<open>simp_all add: wait Told\<close>)
    next
      case False
      then have "next_phase f ph = Asleep" "\<not> sends f ph" "age v = Held i (2 + length [])"
        using Told v by (auto simp: next_phase_def wait sends_def MAX_SILENT_def EVENTS_PER_BLOCK_def)
      then show ?thesis by (auto intro!: exI [of _ fs])
    qed
  qed (use k in simp_all)
qed

lemma secure_step:
  assumes "secure i fs ph v" and "served fs" and "few_losses (fs @ [f])" and "watch i f (ph, v) = (ph', v')"
  shows "secure i (fs @ [f]) ph' v'"
proof -
  have p: "persists fs ph" and k: "keeps i fs ph v" using assms(1) by (simp_all add: secure_def)
  have ph': "ph' = next_phase f ph" and v': "v' = (if sends f ph then Held i 0 else age v)" using assms(4) by (simp_all add: watch_def)
  have f: "ft_lost f = None" using few_losses_in_sync [OF assms(3)] by simp
  have "v = Free \<or> (\<exists>n \<le> 8. v = Held i n)" using secure_held [OF assms(1,2)] by auto
  from keeps_step [OF p k _ this f] assms(2) have "keeps i (fs @ [f]) ph' v'" by (simp add: served_def ph' v')
  moreover have "persists (fs @ [f]) ph'" unfolding ph' next_phase_def by (rule persists_air [OF persists_wait [OF p f] assms(3)])
  ultimately show ?thesis by (simp add: secure_def)
qed

lemma secure_run:
  assumes "secure i hs ph v" and "served (hs @ fs)"
  shows "secure i (hs @ fs) (fst (fold (watch i) fs (ph, v))) (snd (fold (watch i) fs (ph, v)))"
  using assms(2)
proof (induction fs rule: rev_induct)
  case (snoc f fs)
  have s: "served (hs @ fs)" using served_prefix [of "hs @ fs" "[f]"] snoc.prems by simp
  have few: "few_losses ((hs @ fs) @ [f])" using snoc.prems by (simp add: served_def)
  obtain ph' v' where w: "watch i f (fold (watch i) fs (ph, v)) = (ph', v')" by (metis prod.exhaust)
  from secure_step [OF snoc.IH [OF s] s few] w show ?case by simp
qed (use assms(1) in simp)

lemma secure_start: "secure i [] (Asking True 0) Free"
  by (simp add: secure_def)

section \<open>The property\<close>

text \<open>C7: a registered station keeps its slot: a station that has just taken a free slot, that keeps its sync, loses
  at most two of its messages and responses in any six rounds, and whose timer expires at least once in any
  five, is the holder of its slot after every run of three rounds or more, and has never been silent for more
  than eight; it is not evicted, whatever the other stations do.\<close>

theorem slot_is_kept:
  assumes "pawr_reliable pf key_of mac" and "key_is keys (ADVERTISER_KEY_ID pf) ka"
    and "fleet_ok pf key_of key_of' mac keys ka s qs phs" and "\<forall>fs \<in> set fss. length fs = length qs"
    and "adv_time s + 2 * length fss + 1 < 2 ^ 64" and "network_run pf fss (s, qs) = (s', qs')"
    and "n < length qs" and "phs ! n = Asking True 0" and "view_at s (station_slot (qs ! n)) = Free"
    and "served (column n fss)" and "3 \<le> length fss"
  shows "station_slot (qs' ! n) = station_slot (qs ! n) \<and> (\<exists>m \<le> 8. view_at s' (station_slot (qs ! n)) = Held (st_id (qs ! n)) m)"
proof -
  let ?w = "fold (watch (st_id (qs ! n))) (column n fss) (phs ! n, view_at s (station_slot (qs ! n)))"
  have sec: "secure (st_id (qs ! n)) (column n fss) (fst ?w) (snd ?w)"
    using secure_run [OF secure_start, of "column n fss" "st_id (qs ! n)"] assms(8-10) by simp
  then have "fst ?w \<noteq> Gone" by (auto simp: secure_def)
  then have there: "fold next_phase (column n fss) (phs ! n) \<noteq> Gone" by (simp add: watch_phase)
  note w = network_watch [OF assms(1-7) there]
  then have "view_at s' (station_slot (qs ! n)) = snd ?w" by (metis snd_conv)
  moreover have "length (column n fss) = length fss" by (simp add: column_def)
  ultimately show ?thesis using secure_held [OF sec assms(10)] w assms(11) by auto
qed

definition demo_weather :: "fate list list" where
  "demo_weather = demo_fates @ replicate 4 [\<lparr>ft_timer = False, ft_lost = None, ft_down = True, ft_up = True\<rparr>, \<lparr>ft_timer = False, ft_lost = None, ft_down = True, ft_up = False\<rparr>]"

lemma demo_weather_ok: "length demo_weather = 8" "fs \<in> set demo_weather \<Longrightarrow> length fs = 2" "served (column 0 demo_weather)"
proof -
  show "length demo_weather = 8" "fs \<in> set demo_weather \<Longrightarrow> length fs = 2"
    by (auto simp: demo_weather_def demo_fates_def)
  have c: "column 0 demo_weather = map (\<lambda>f. f ! 0) demo_fates @ replicate 4 \<lparr>ft_timer = False, ft_lost = None, ft_down = True, ft_up = True\<rparr>"
    by (simp add: column_def demo_weather_def)
  then have "few_losses (column 0 demo_weather)"
    by (simp add: few_losses_def demo_fates_def lossy_def less_Suc_eq eval_nat_numeral)
  moreover have "regular (column 0 demo_weather)"
    by (simp add: c regular_code demo_fates_def upt_rec numeral_nat)
  ultimately show "served (column 0 demo_weather)" by (simp add: served_def)
qed

theorem slot_is_kept_witness:
  "\<exists>m \<le> 8. view_at (fst (network_run demo demo_weather (demo_host, demo_fleet))) (0, 0) = Held 1 m"
proof -
  obtain s' qs' where run: "network_run demo demo_weather (demo_host, demo_fleet) = (s', qs')" by (metis prod.exhaust)
  have q: "station_slot (demo_fleet ! 0) = (0, 0)" "st_id (demo_fleet ! 0) = 1"
    by (simp_all add: demo_fleet_def demo_station_def station_slot_def own_slot_def)
  have "view_at demo_host (station_slot (demo_fleet ! 0)) = Free"
    unfolding q by (rule demo_host_start(3)) (simp add: slot_exists_def adv_sizes)
  with slot_is_kept [OF demo_reliable demo_fleet_ok(2,1) _ _ run, of 0] run show ?thesis
    by (simp add: demo_weather_ok demo_host_start(1) demo_fates_ok(3) q)
qed

end
