(* ===== verification/Network_Slots.thy ===== *)
theory Network_Slots
  imports Slot_Keeping Slot_Allocation
begin

text \<open>
  The slots of a network: along its rounds the advertiser's lists stay disjoint from the slots the
  stations hold, the slots handed out are counted by the stations that have claimed one, and stations
  that have lost their sync scan and fall behind the advertiser's counter.
\<close>

section \<open>Replies and the lists of the advertiser\<close>

lemma abs_reserve_fields: "a_slots (snd (abs_reserve a)) = a_slots a" "a_regs (snd (abs_reserve a)) = a_regs a"
  "a_counter (snd (abs_reserve a)) = a_counter a"
  by (simp_all add: abs_reserve_def)

lemma abs_replace_fields:
  "a_slots (abs_replace x a) = a_slots a" "a_counter (abs_replace x a) = a_counter a" "set (a_regs a) - {x} \<subseteq> set (a_regs (abs_replace x a))"
proof -
  obtain r b where r: "abs_reserve a = (r, b)" by (metis prod.exhaust)
  have b: "a_slots b = a_slots a" "a_regs b = a_regs a" "a_counter b = a_counter a" using abs_reserve_fields [of a] r by simp_all
  have "a_slots (abs_replace x a) = a_slots a \<and> a_counter (abs_replace x a) = a_counter a \<and>
    set (a_regs a) - {x} \<subseteq> set (a_regs (abs_replace x a))"
  proof (cases "filter (\<lambda>i. a_regs a ! i = x) [0..<length (a_regs a)]")
    case Nil
    then show ?thesis by (auto simp: abs_replace_def)
  next
    case (Cons i js)
    then have "i \<in> set (filter (\<lambda>i. a_regs a ! i = x) [0..<length (a_regs a)])" by simp
    then have i: "i < length (a_regs a)" "a_regs a ! i = x" by simp_all
    have "d \<in> set ((a_regs a)[i := r])" if "d \<in> set (a_regs a)" "d \<noteq> x" for d
      using that i by (metis in_set_conv_nth length_list_update nth_list_update_neq)
    then show ?thesis using Cons by (auto simp: abs_replace_def r b)
  qed
  then show "a_slots (abs_replace x a) = a_slots a" "a_counter (abs_replace x a) = a_counter a"
    "set (a_regs a) - {x} \<subseteq> set (a_regs (abs_replace x a))" by blast+
qed

text \<open>What a verified response of device \<open>i\<close> in a slot that is free or its own changes.\<close>

lemma abs_claim:
  assumes "a_slots a ! sub ! j \<in> {Free} \<union> range (Held i)" and "i \<noteq> 0" and "b = abs_response sub j (Verified i c) a"
  shows "a_slots b = (a_slots a)[sub := (a_slots a ! sub)[j := Held i 0]]" and "a_counter b = c"
    and "set (a_regs a) - {slot_id sub j} \<subseteq> set (a_regs b)"
  using assms(1,2) abs_replace_fields(3) [of "abs_set sub j (hold i) (a\<lparr>a_counter := c\<rparr>)" "slot_id sub j"]
  by (auto simp: assms(3) abs_replace_fields(1,2) abs_set_def hold_def Let_def)

lemma reply_sim:
  assumes "pawr_reliable pf key_of mac" and "adv_sim key_of keys tag s b" and "reply_from pf mac keys c (i, sub, j) rep"
    and "sub < MAX_NUM_SUBEVENTS" and "j < NUM_RSP_SLOTS" and "a_counter b \<le> c"
  shows "adv_sim key_of keys tag (take_replies pf [rep] s) (abs_response sub j (Verified i c) b)"
proof -
  from assms(3) obtain params rssi r k where
    rep: "rep = (info_of params rssi, response_body r @ mac k (response_body r))" and k: "key_is keys (scanner_key_id pf i) k" and
    at: "response_subevent params = of_nat sub" "unat (response_slot params) = j" and
    r: "sender_id (rsp_metadata r) = i" "resp_counter r = c" "response_sender (response_wire r) = Some i"
    by (auto simp: reply_from_def)
  let ?m = "response_body r @ mac k (response_body r)"
  have "judge pf mac keys (a_counter b) ?m = Verified i c"
    using judges_response [OF assms(1), of keys r k "a_counter b"] k r assms(6) by simp
  moreover have "unat (of_nat sub :: u8) = sub" using assms(4) by (simp add: MAX_NUM_SUBEVENTS_def unat_of_nat)
  ultimately show ?thesis
    using pawr_reliable.response_cb_sim [OF assms(1,2), of "buf_of ?m" "info_of params rssi"] assms(4,5)
    by (simp add: info_of_def at take_replies_def rep)
qed

text \<open>Each reply comes in a slot of its own that is its sender's, or is free and advertised.\<close>

definition in_order :: "adv_abs \<Rightarrow> u16 \<times> nat \<times> nat \<Rightarrow> bool" where
  "in_order b = (\<lambda>(i, sub, j). may_claim b (i, sub, j) \<and> expected sub j b)"

definition free_in :: "adv_abs \<Rightarrow> u16 \<times> nat \<times> nat \<Rightarrow> bool" where
  "free_in b = (\<lambda>(i, sub, j). a_slots b ! sub ! j = Free)"

lemma replies_alloc:
  assumes rel: "pawr_reliable pf key_of mac" and "adv_sim key_of keys tag s b" and "alloc_ok b" and "a_counter b \<le> c"
    and "\<forall>(p, rep) \<in> set items. reply_from pf mac keys c p rep \<and> in_order b p" and "distinct (map (snd \<circ> fst) items)"
    and "slot_number (a_next b) + length (filter (free_in b \<circ> fst) items) < NUM_RSP_SLOTS * 256"
  shows "\<exists>b'. adv_sim key_of keys tag (take_replies pf (map snd items) s) b' \<and> alloc_ok b' \<and>
    slot_number (a_next b') \<le> slot_number (a_next b) + length (filter (free_in b \<circ> fst) items) \<and>
    set (a_regs b) - (\<lambda>(i, sub, j). slot_id sub j) ` fst ` set items \<subseteq> set (a_regs b')"
  using assms(2-7)
proof (induction items arbitrary: s b)
  case Nil
  then show ?case by (auto simp: take_replies_def)
next
  case (Cons item items)
  obtain i sub j rep where item: "item = ((i, sub, j), rep)" by (metis prod.exhaust)
  let ?b = "abs_response sub j (Verified i c) b"
  from Cons.prems(4) have head: "reply_from pf mac keys c (i, sub, j) rep" and ord: "in_order b (i, sub, j)" by (simp_all add: item)
  then have claim: "sub < MAX_NUM_SUBEVENTS" "j < NUM_RSP_SLOTS" "i \<noteq> 0" "a_slots b ! sub ! j \<in> {Free} \<union> range (Held i)" "expected sub j b"
    by (simp_all add: in_order_def may_claim_def)
  note b1 = abs_claim [OF claim(4,3) refl, of c]
  have sim: "adv_sim key_of keys tag (take_replies pf [rep] s) ?b" by (rule reply_sim [OF rel Cons.prems(1) head claim(1,2) Cons.prems(3)])
  have al: "alloc_ok ?b \<and> slot_number (a_next ?b) \<le> slot_number (a_next b) + (if a_slots b ! sub ! j = Free then 1 else 0)"
    by (rule abs_response_alloc [OF Cons.prems(2) claim(1,2)]) (use claim(5) Cons.prems(6) in \<open>simp_all add: item free_in_def\<close>)
  have shape: "length (a_slots b) = MAX_NUM_SUBEVENTS" "\<And>x. x < MAX_NUM_SUBEVENTS \<Longrightarrow> length (a_slots b ! x) = NUM_RSP_SLOTS"
    using Cons.prems(2) by (auto simp: alloc_ok_def slots_shape_def)
  have at: "a_slots ?b ! sub' ! j' = a_slots b ! sub' ! j'" if "(sub', j') \<noteq> (sub, j)" for sub' j'
    using that shape claim(1,2) by (cases "sub' = sub") (auto simp: b1(1) simp del: abs_response.simps)
  have other: "(sub', j') \<noteq> (sub, j) \<and> sub' < MAX_NUM_SUBEVENTS \<and> j' < NUM_RSP_SLOTS" if "((i', sub', j'), rep') \<in> set items" for i' sub' j' rep'
    using Cons.prems(4,5) that by (force simp: item in_order_def may_claim_def)
  have rest: "\<forall>(p, rep) \<in> set items. reply_from pf mac keys c p rep \<and> in_order ?b p"
  proof
    fix x assume x: "x \<in> set items"
    obtain i' sub' j' rep' where x': "x = ((i', sub', j'), rep')" by (metis prod.exhaust)
    from x x' other have o: "(sub', j') \<noteq> (sub, j)" "sub' < MAX_NUM_SUBEVENTS" "j' < NUM_RSP_SLOTS" by auto
    then have "slot_id sub' j' \<noteq> slot_id sub j" using claim(1,2) by (simp add: slot_id_inj)
    moreover have "reply_from pf mac keys c (i', sub', j') rep'" "may_claim b (i', sub', j')" "expected sub' j' b"
      using Cons.prems(4) x by (auto simp: x' in_order_def)
    ultimately show "case x of (p, rep) \<Rightarrow> reply_from pf mac keys c p rep \<and> in_order ?b p"
      using at [OF o(1)] b1(3) by (auto simp: x' in_order_def may_claim_def expected_def simp del: abs_response.simps)
  qed
  have free: "filter (free_in ?b \<circ> fst) items = filter (free_in b \<circ> fst) items"
    using at other by (intro filter_cong refl) (auto simp: free_in_def simp del: abs_response.simps)
  have count: "length (filter (free_in b \<circ> fst) (item # items)) =
      (if a_slots b ! sub ! j = Free then 1 else 0) + length (filter (free_in b \<circ> fst) items)"
    by (simp add: item free_in_def)
  have le: "a_counter ?b \<le> c" unfolding b1(2) by (rule order_refl)
  have dist: "distinct (map (snd \<circ> fst) items)" using Cons.prems(5) by (simp add: comp_def)
  have "slot_number (a_next ?b) + length (filter (free_in ?b \<circ> fst) items) < NUM_RSP_SLOTS * 256"
    unfolding free using conjunct2 [OF al] Cons.prems(6) unfolding count by linarith
  from Cons.IH [OF sim conjunct1 [OF al] le rest dist this, unfolded free] obtain b' where
    b': "adv_sim key_of keys tag (take_replies pf (map snd items) (take_replies pf [rep] s)) b'" "alloc_ok b'"
      "slot_number (a_next b') \<le> slot_number (a_next ?b) + length (filter (free_in b \<circ> fst) items)"
      "set (a_regs ?b) - (\<lambda>(i, sub, j). slot_id sub j) ` fst ` set items \<subseteq> set (a_regs b')"
    by blast
  have run: "take_replies pf (map snd (item # items)) s = take_replies pf (map snd items) (take_replies pf [rep] s)"
    by (simp add: take_replies_def item)
  have number: "slot_number (a_next b') \<le> slot_number (a_next b) + length (filter (free_in b \<circ> fst) (item # items))"
    unfolding count using b'(3) conjunct2 [OF al] by linarith
  have regs: "set (a_regs b) - (\<lambda>(i, sub, j). slot_id sub j) ` fst ` set (item # items) \<subseteq> set (a_regs b')"
    using b'(4) b1(3) by (auto simp: item simp del: abs_response.simps)
  show ?case unfolding run by (intro exI [of _ b'] conjI b'(1,2) number regs)
qed

section \<open>A round\<close>

lemma abs_request_regs: "a_regs (abs_request request a) = a_regs a"
proof -
  have "a_regs (fold (\<lambda>i. abs_subevent (sub_ix request i)) js b) = a_regs b" for js b
    by (induction js arbitrary: b) (simp_all add: abs_subevent_def Let_def)
  then show ?thesis by (simp add: abs_request_def)
qed

lemma period_counter_le:
  assumes "adv_sim key_of keys tag s a" and "adv_time s + 1 < 2 ^ 64"
  shows "a_counter a + a_pending a \<le> next_counter s"
proof -
  have "unat (a_counter a + a_pending a) = adv_time s"
    using assms(2) by (simp add: sim_adv_time [OF assms(1)] unat_word_ariths)
  with next_counter_unat [OF assms(2)] show ?thesis by (simp add: word_le_nat_alt)
qed

definition advertises :: "'p advertiser \<Rightarrow> nat \<times> nat \<Rightarrow> bool" where
  "advertises s p \<longleftrightarrow> slot_id (fst p) (snd p) \<in> set (register_subevent_data s)"

text \<open>The lists are in order and \<open>N\<close> slots have been handed out, the first ten included.\<close>

definition handed_out ::
    "('p \<Rightarrow> psa_key_id_t \<Rightarrow> stored_key option) \<Rightarrow> (psa_key_id_t \<Rightarrow> stored_key option) \<Rightarrow> (byte list \<Rightarrow> byte list) \<Rightarrow> nat \<Rightarrow> 'p advertiser \<Rightarrow> bool" where
  "handed_out key_of keys tag N s \<longleftrightarrow> (\<exists>a. adv_sim key_of keys tag s a \<and> alloc_ok a \<and> slot_number (a_next a) \<le> N)"

text \<open>The stations that answer in a slot nobody holds.\<close>

definition claimants :: "'p advertiser \<Rightarrow> fate list \<Rightarrow> 'q station list \<Rightarrow> phase list \<Rightarrow> nat set" where
  "claimants s fs qs phs = {n. n < length qs \<and> sends (fs ! n) (phs ! n) \<and> view_at s (station_slot (qs ! n)) = Free}"

lemma free_count:
  assumes "distinct (map (snd \<circ> fst) items)"
    and "\<And>j p rep. ((j, p), rep) \<in> set items \<Longrightarrow> P (j, p) \<Longrightarrow> \<exists>n \<in> C. p = f n" and "finite C"
  shows "length (filter (P \<circ> fst) items) \<le> card C"
proof -
  let ?l = "map (snd \<circ> fst) (filter (P \<circ> fst) items)"
  have "distinct ?l" using assms(1) by (rule distinct_map_filter)
  then have "length (filter (P \<circ> fst) items) = card (set ?l)" by (metis distinct_card length_map)
  also have "\<dots> \<le> card (f ` C)"
  proof (rule card_mono)
    show "set ?l \<subseteq> f ` C"
    proof
      fix p assume "p \<in> set ?l"
      then obtain j rep where "((j, p), rep) \<in> set items" "P (j, p)" by auto
      from assms(2) [OF this] show "p \<in> f ` C" by blast
    qed
  qed (use assms(3) in simp)
  also have "\<dots> \<le> card C" by (rule card_image_le [OF assms(3)])
  finally show ?thesis .
qed

text \<open>Where each station that answers holds its slot, or has a free one that is advertised, the responses of a round
  are in order, and the claimants count those in free slots.\<close>

definition near_by :: "'p advertiser \<Rightarrow> u16 \<Rightarrow> nat \<times> nat \<Rightarrow> bool" where
  "near_by s i p \<longleftrightarrow> view_at s p = Free \<and> advertises s p \<or> (\<exists>m < MAX_SILENT. view_at s p = Held i m)"

lemma responses_in_order:
  assumes "responses_of pf mac keys s fs qs phs items"
    and near: "\<forall>n. n < length qs \<longrightarrow> sends (fs ! n) (phs ! n) \<longrightarrow> near_by s (st_id (qs ! n)) (station_slot (qs ! n))"
    and at: "\<forall>sub j. slot_exists (sub, j) \<longrightarrow> a_slots b ! sub ! j = age (view_at s (sub, j))" and regs: "a_regs b = register_subevent_data s"
  shows "\<forall>(q, rep) \<in> set items. reply_from pf mac keys (next_counter s) q rep \<and> in_order b q"
    and "length (filter (free_in b \<circ> fst) items) \<le> card (claimants s fs qs phs)"
    and "((i, p), rep) \<in> set items \<Longrightarrow> slot_exists p \<and> (\<exists>n. n < length qs \<and> sends (fs ! n) (phs ! n) \<and> p = station_slot (qs ! n))"
proof -
  note items = responses_ofD [OF assms(1)]
  have slot: "near_by s i p \<and> slot_exists p \<and> i \<noteq> 0 \<and> reply_from pf mac keys (next_counter s) (i, p) rep \<and>
      (\<exists>n. n < length qs \<and> sends (fs ! n) (phs ! n) \<and> p = station_slot (qs ! n))"
    if x: "((i, p), rep) \<in> set items" for i p rep
  proof -
    from items(4) [OF x] obtain n where n: "n < length qs" "sends (fs ! n) (phs ! n)" "i = st_id (qs ! n)" "p = station_slot (qs ! n)" by blast
    from bspec [OF items(3) x] near n show ?thesis by auto
  qed
  then show "((i, p), rep) \<in> set items \<Longrightarrow> slot_exists p \<and> (\<exists>n. n < length qs \<and> sends (fs ! n) (phs ! n) \<and> p = station_slot (qs ! n))" by blast
  show "\<forall>(q, rep) \<in> set items. reply_from pf mac keys (next_counter s) q rep \<and> in_order b q"
  proof
    fix x assume x: "x \<in> set items"
    obtain i sub j rep where x': "x = ((i, sub, j), rep)" by (metis prod.exhaust)
    from slot [OF x [unfolded x']] have p: "slot_exists (sub, j)" "i \<noteq> 0" "reply_from pf mac keys (next_counter s) (i, sub, j) rep"
      "view_at s (sub, j) = Free \<and> advertises s (sub, j) \<or> (\<exists>m < MAX_SILENT. view_at s (sub, j) = Held i m)"
      by (simp_all add: near_by_def)
    have "expected sub j b" using p(1,4) at by (auto simp: expected_def regs advertises_def)
    moreover have "may_claim b (i, sub, j)" using p(1,2,4) at by (auto simp: may_claim_def slot_exists_def)
    ultimately show "case x of (q, rep) \<Rightarrow> reply_from pf mac keys (next_counter s) q rep \<and> in_order b q"
      using p(3) by (simp add: x' in_order_def)
  qed
  show "length (filter (free_in b \<circ> fst) items) \<le> card (claimants s fs qs phs)"
  proof (rule free_count [where f = "\<lambda>n. station_slot (qs ! n)"])
    show "\<exists>n \<in> claimants s fs qs phs. p = station_slot (qs ! n)" if "((i, p), rep) \<in> set items" "free_in b (i, p)" for i p rep
    proof -
      obtain sub j where p: "p = (sub, j)" by (metis prod.exhaust)
      from slot [OF that(1)] have "slot_exists (sub, j)" "view_at s p = Free \<or> (\<exists>m < MAX_SILENT. view_at s p = Held i m)"
        by (auto simp: p near_by_def)
      then have "view_at s p = Free" using that(2) at by (auto simp: p free_in_def)
      with slot [OF that(1)] show ?thesis by (auto simp: claimants_def)
    qed
  qed (use items(2) in \<open>simp_all add: claimants_def\<close>)
qed

lemma round_alloc:
  assumes rel: "pawr_reliable pf key_of mac" and ka: "key_is keys (ADVERTISER_KEY_ID pf) ka"
    and ok: "fleet_ok pf key_of key_of' mac keys ka s qs phs" and len: "length fs = length qs" and room: "adv_time s + 3 < 2 ^ 64"
    and round: "network_round pf fs (s, qs) = (s', qs')" and out: "handed_out key_of keys (mac ka) N s"
    and near: "\<And>n. \<lbrakk>n < length qs; sends (fs ! n) (phs ! n)\<rbrakk> \<Longrightarrow> near_by s (st_id (qs ! n)) (station_slot (qs ! n))"
    and bound: "N + card (claimants s fs qs phs) < NUM_RSP_SLOTS * 256"
  shows "handed_out key_of keys (mac ka) (N + card (claimants s fs qs phs)) s'"
    and "\<lbrakk>slot_exists p; advertises s p; \<And>n. \<lbrakk>n < length qs; sends (fs ! n) (phs ! n)\<rbrakk> \<Longrightarrow> p \<noteq> station_slot (qs ! n)\<rbrakk> \<Longrightarrow> advertises s' p"
proof -
  from out obtain a where sim: "adv_sim key_of keys (mac ka) s a" and al: "alloc_ok a" and N: "slot_number (a_next a) \<le> N"
    by (auto simp: handed_out_def)
  let ?b = "abs_request full_period a"
  from round_responses [OF ok room, of fs] obtain items where it: "responses_of pf mac keys s fs qs phs items" by blast
  note items = responses_ofD [OF it]
  have s': "s' = take_replies pf (map snd items) (request_cb pf full_period s)"
    using round by (simp add: network_round_eq [OF len] items(1))
  have "0 < MAX_NUM_SUBEVENTS" by (simp add: MAX_NUM_SUBEVENTS_def)
  from full_period_messages(1) [OF rel sim ka this] have sim1: "adv_sim key_of keys (mac ka) (request_cb pf full_period s) ?b" .
  have al1: "alloc_ok ?b" "a_next ?b = a_next a" using abs_request_alloc [OF al] by blast+
  have rows: "length (a_slots a) = MAX_NUM_SUBEVENTS" "\<And>x. x < MAX_NUM_SUBEVENTS \<Longrightarrow> length (a_slots a ! x) = NUM_RSP_SLOTS"
    using sim_shape [OF sim] by (auto simp: slots_shape_def)
  note b = abs_full_period [OF rows(1)]
  have at: "\<forall>sub j. slot_exists (sub, j) \<longrightarrow> a_slots ?b ! sub ! j = age (view_at s (sub, j))"
    using b(4) rows sim_slot [OF sim] by (simp add: slot_exists_def view_at_def)
  have regs: "a_regs ?b = register_subevent_data s" using sim by (simp add: abs_request_regs adv_sim_def)
  have le: "a_counter ?b \<le> next_counter s" unfolding b(1) by (rule period_counter_le [OF sim]) (use room in simp)
  have "\<forall>n. n < length qs \<longrightarrow> sends (fs ! n) (phs ! n) \<longrightarrow> near_by s (st_id (qs ! n)) (station_slot (qs ! n))" using near by blast
  note order = responses_in_order [OF it this at regs]
  have "slot_number (a_next ?b) + length (filter (free_in ?b \<circ> fst) items) < NUM_RSP_SLOTS * 256"
    unfolding al1(2) using N bound order(2) by linarith
  from replies_alloc [OF rel sim1 al1(1) le order(1) items(2) this] obtain b' where b': "adv_sim key_of keys (mac ka) s' b'" "alloc_ok b'"
      "slot_number (a_next b') \<le> slot_number (a_next ?b) + length (filter (free_in ?b \<circ> fst) items)"
      "set (a_regs ?b) - (\<lambda>(i, sub, j). slot_id sub j) ` fst ` set items \<subseteq> set (a_regs b')"
    unfolding s' by blast
  have "slot_number (a_next b') \<le> N + card (claimants s fs qs phs)" using b'(3) N order(2) unfolding al1(2) by linarith
  with b'(1,2) show "handed_out key_of keys (mac ka) (N + card (claimants s fs qs phs)) s'" by (auto simp: handed_out_def)
  show "advertises s' p" if p: "slot_exists p" "advertises s p" "\<And>n. \<lbrakk>n < length qs; sends (fs ! n) (phs ! n)\<rbrakk> \<Longrightarrow> p \<noteq> station_slot (qs ! n)"
  proof -
    have "slot_id (fst p) (snd p) \<noteq> slot_id sub j" if "((i, sub, j), rep) \<in> set items" for i sub j rep
    proof -
      from order(3) [OF that] p(3) have "p \<noteq> (sub, j)" "slot_exists (sub, j)" by blast+
      with p(1) show ?thesis by (cases p) (simp add: slot_exists_def slot_id_inj)
    qed
    then have "slot_id (fst p) (snd p) \<notin> (\<lambda>(i, sub, j). slot_id sub j) ` fst ` set items" by (auto simp del: split_paired_All) metis
    with b'(4) p(2) have "slot_id (fst p) (snd p) \<in> set (a_regs b')" unfolding regs advertises_def by blast
    with b'(1) show ?thesis by (simp add: advertises_def adv_sim_def)
  qed
qed

section \<open>Stations that have lost their sync\<close>

definition scans :: "'q station \<Rightarrow> bool" where
  "scans q \<longleftrightarrow> gone (st_dev q) \<and> sc_at (st_dev q) = Syncing_wait"

definition timed_out :: "fate list \<Rightarrow> bool" where
  "timed_out fs \<longleftrightarrow> list_all (\<lambda>f. ft_lost f \<noteq> Some 22) fs"

lemma timed_out_snoc [simp]: "timed_out (fs @ [f]) \<longleftrightarrow> timed_out fs \<and> ft_lost f \<noteq> Some 22"
  by (simp add: timed_out_def)

text \<open>A station whose sync times out scans, and goes on scanning.\<close>

lemma round_station:
  assumes "length fs = length qs" and "network_round pf fs (s, qs) = (s', qs')" and "n < length qs"
  shows "qs' ! n = downlink (new_messages s (request_cb pf full_period s)) (fs ! n) (prepare (fs ! n) (qs ! n))"
  using assms by (auto simp: network_round_eq reached_def ready_def)

lemma lost_scans:
  assumes ok: "station_ok pf key_of key_of' mac keys ka s q ph" and "ph \<noteq> Gone" and "ft_lost f = Some reason" and "reason \<noteq> 22"
    and "scan_starts (st_platform q)"
  shows "scans (prepare f q)"
proof -
  from station_okE [OF ok assms(2)] obtain keys' ks where
    pair: "radio_pair pf key_of (st_platform q) key_of' mac keys keys' ka ks (st_id q) (st_link q)" and
    t: "linked key_of keys (mac ka) key_of' keys' (st_id q) s (st_dev q)" "sem_count (synced_sem (st_dev q)) = 0"
      "in_phase (st_id q) ph (holder (st_link q) s (st_dev q)) (st_dev q)"
    by blast
  have "sc_inv (st_id q) (st_dev q)" using t(1) by (simp add: linked_def)
  from radio_pair.sync_lost [OF pair this t(2,3) assms(2), of reason "ft_timer f"] assms(3-5) show ?thesis
    by (simp add: scans_def prepare_def)
qed

lemma scans_on:
  assumes "pawr_platform (st_platform q) key_of' mac" and "scans q"
  shows "scans (prepare f q)" and "scans (downlink ms f q)"
proof -
  have g: "gone (st_dev q)" "sc_at (st_dev q) = Syncing_wait" using assms(2) by (simp_all add: scans_def)
  then have p: "st_dev (prepare f q) = settle (st_platform q) (st_dev q)"
    by (simp add: prepare_def gone_def expire_def lose_def split: option.split)
  have "sem_count (synced_sem (st_dev q)) = 0" using g(1) by (simp add: gone_def)
  from pawr_platform.settle_scanning [OF assms(1) g(2) this] g show "scans (prepare f q)" by (simp add: scans_def p)
  show "scans (downlink ms f q)" using assms(2) by (simp add: scans_def downlink_def hear_def listening_def gone_def)
qed

text \<open>It has heard nothing since: its counter falls behind the advertiser's.\<close>

definition since_lost :: "fate list \<Rightarrow> nat" where
  "since_lost fs = length (dropWhile (\<lambda>f. ft_lost f = None) fs)"

lemma since_lost_snoc: "since_lost (fs @ [f]) = (if in_sync (fs @ [f]) then 0 else Suc (since_lost fs))"
proof (cases "in_sync fs")
  case True
  then have "\<forall>f \<in> set fs. ft_lost f = None" by (simp add: in_sync_def list_all_iff)
  with True show ?thesis by (simp add: since_lost_def)
next
  case False
  then obtain g where "g \<in> set fs" "ft_lost g \<noteq> None" by (auto simp: in_sync_def list_all_iff)
  with False show ?thesis by (simp add: since_lost_def dropWhile_append1)
qed

lemma since_lost_in_sync: "in_sync fs \<Longrightarrow> since_lost fs = 0"
  by (simp add: since_lost_def in_sync_def list_all_iff)

definition behind :: "'p advertiser \<Rightarrow> nat \<Rightarrow> 'q station \<Rightarrow> bool" where
  "behind s k q \<longleftrightarrow> unat (cc_value (sc_counter (st_dev q))) + k \<le> adv_time s + 1 \<and>
     (2 \<le> k \<longrightarrow> cc_value (sc_counter (st_dev q)) \<le> cc_value (counter s))"

lemma behind_later:
  assumes "unat (cc_value (sc_counter (st_dev q))) + k \<le> adv_time s + 1" and "adv_time s < adv_time s'" and "rollover s' = 1"
    and "sc_counter (st_dev q') = sc_counter (st_dev q)"
  shows "behind s' (Suc k) q'"
  using assms by (simp add: behind_def adv_time_def word_le_nat_alt)

lemma lost_counter:
  assumes ok: "station_ok pf key_of key_of' mac keys ka s q ph" and lost: "ph = Gone \<or> ft_lost f \<noteq> None"
  shows "sc_counter (st_dev (downlink ms f (prepare f q))) = sc_counter (st_dev q)"
proof -
  have "gone (st_dev (prepare f q)) \<and> sc_counter (st_dev (prepare f q)) = sc_counter (st_dev q)"
  proof (cases "ph = Gone")
    case True
    with ok have g: "gone (st_dev q)" and pf: "pawr_platform (st_platform q) key_of' mac" by (simp_all add: station_ok_def)
    from g have "st_dev (prepare f q) = settle (st_platform q) (st_dev q)"
      by (simp add: prepare_def gone_def expire_def lose_def split: option.split)
    with pawr_platform.settle_gone [OF pf g] show ?thesis by simp
  next
    case False
    from station_okE [OF ok False] obtain keys' ks where
      pair: "radio_pair pf key_of (st_platform q) key_of' mac keys keys' ka ks (st_id q) (st_link q)" and
      t: "linked key_of keys (mac ka) key_of' keys' (st_id q) s (st_dev q)" "sem_count (synced_sem (st_dev q)) = 0"
        "in_phase (st_id q) ph (holder (st_link q) s (st_dev q)) (st_dev q)"
      by blast
    have "sc_inv (st_id q) (st_dev q)" using t(1) by (simp add: linked_def)
    from radio_pair.sync_lost [OF pair this t(2,3) False, of _ "ft_timer f"] lost False show ?thesis
      by (auto simp: prepare_def)
  qed
  then show ?thesis by (simp add: downlink_def hear_def listening_def gone_def)
qed

lemma station_time:
  assumes "station_ok pf key_of key_of' mac keys ka s q ph" and "ph \<noteq> Gone" and "adv_time s + 1 < 2 ^ 64"
  shows "unat (cc_value (sc_counter (st_dev q))) \<le> adv_time s + 1"
  using station_okE [OF assms(1,2)] next_counter_unat [OF assms(3)] by (metis linked_def word_le_nat_alt)

section \<open>Steady networks\<close>

text \<open>Losses and timers are as a station needs them, as long as it keeps its sync.\<close>

definition synced_part :: "fate list \<Rightarrow> fate list" where
  "synced_part fs = takeWhile (\<lambda>f. ft_lost f = None) fs"

definition bearable :: "fate list \<Rightarrow> bool" where
  "bearable fs \<longleftrightarrow> served (synced_part fs)"

lemma synced_part_in_sync: "in_sync fs \<Longrightarrow> synced_part fs = fs"
  by (simp add: synced_part_def in_sync_def list_all_iff)

lemma bearable_served: "in_sync fs \<Longrightarrow> bearable fs \<longleftrightarrow> served fs"
  by (simp add: bearable_def synced_part_in_sync)

lemma bearable_prefix: "bearable (us @ vs) \<Longrightarrow> bearable us"
proof -
  assume b: "bearable (us @ vs)"
  show ?thesis
  proof (cases "in_sync us")
    case True
    then have "synced_part (us @ vs) = us @ synced_part vs" by (simp add: synced_part_def in_sync_def list_all_iff)
    with b True show ?thesis using served_prefix by (simp add: bearable_def synced_part_in_sync)
  next
    case False
    then obtain f where "f \<in> set us" "ft_lost f \<noteq> None" by (auto simp: in_sync_def list_all_iff)
    then have "synced_part (us @ vs) = synced_part us" unfolding synced_part_def by (rule takeWhile_append1)
    with b show ?thesis by (simp add: bearable_def)
  qed
qed

text \<open>\<open>hs n\<close> is the history of the fates of station \<open>n\<close>: every station that has kept its sync is secure, the
  others are gone; the slots of those that have not been heard yet are advertised, and one slot has been
  handed out for each of the others, at most.\<close>

definition claimed :: "'p advertiser \<Rightarrow> 'q station list \<Rightarrow> phase list \<Rightarrow> nat set" where
  "claimed s qs phs = {n. n < length qs \<and> (phs ! n = Gone \<or> view_at s (station_slot (qs ! n)) \<noteq> Free)}"

lemma claimed_few: "card (claimed s qs phs) \<le> length qs" "finite (claimed s qs phs)"
proof -
  have "claimed s qs phs \<subseteq> {..<length qs}" by (auto simp: claimed_def)
  then show "card (claimed s qs phs) \<le> length qs" "finite (claimed s qs phs)"
    using card_mono [of "{..<length qs}" "claimed s qs phs"] finite_subset by auto
qed

definition steady where
  "steady pf key_of key_of' mac keys ka hs s qs phs \<longleftrightarrow> fleet_ok pf key_of key_of' mac keys ka s qs phs \<and>
     (\<forall>n < length qs. if in_sync (hs n)
        then secure (st_id (qs ! n)) (hs n) (phs ! n) (view_at s (station_slot (qs ! n))) \<and>
          (view_at s (station_slot (qs ! n)) = Free \<longrightarrow> advertises s (station_slot (qs ! n)))
        else phs ! n = Gone \<and> behind s (since_lost (hs n)) (qs ! n) \<and> (timed_out (hs n) \<and> scan_starts (st_platform (qs ! n)) \<longrightarrow> scans (qs ! n))) \<and>
     handed_out key_of keys (mac ka) (10 + card (claimed s qs phs)) s"

lemma steadyD:
  assumes "steady pf key_of key_of' mac keys ka hs s qs phs"
  shows "fleet_ok pf key_of key_of' mac keys ka s qs phs" and "handed_out key_of keys (mac ka) (10 + card (claimed s qs phs)) s"
    and "\<lbrakk>n < length qs; in_sync (hs n)\<rbrakk> \<Longrightarrow> secure (st_id (qs ! n)) (hs n) (phs ! n) (view_at s (station_slot (qs ! n)))"
    and "\<lbrakk>n < length qs; in_sync (hs n); view_at s (station_slot (qs ! n)) = Free\<rbrakk> \<Longrightarrow> advertises s (station_slot (qs ! n))"
    and "\<lbrakk>n < length qs; \<not> in_sync (hs n)\<rbrakk> \<Longrightarrow> phs ! n = Gone"
    and "\<lbrakk>n < length qs; \<not> in_sync (hs n); timed_out (hs n); scan_starts (st_platform (qs ! n))\<rbrakk> \<Longrightarrow> scans (qs ! n)"
    and "\<lbrakk>n < length qs; \<not> in_sync (hs n)\<rbrakk> \<Longrightarrow> behind s (since_lost (hs n)) (qs ! n)"
  using assms unfolding steady_def by auto

lemma handed_out_mono: "handed_out key_of keys tag N s \<Longrightarrow> N \<le> M \<Longrightarrow> handed_out key_of keys tag M s"
  unfolding handed_out_def using le_trans by blast

lemma station_exists:
  assumes "station_ok pf key_of key_of' mac keys ka s q ph" and "ph \<noteq> Gone"
  shows "slot_exists (station_slot q)"
proof -
  from station_okE [OF assms] obtain keys' ks where
    pair: "radio_pair pf key_of (st_platform q) key_of' mac keys keys' ka ks (st_id q) (st_link q)"
    and t: "linked key_of keys (mac ka) key_of' keys' (st_id q) s (st_dev q)"
    by blast
  from radio_pair.own_slot_exists [OF pair t] show ?thesis by (simp add: station_slot_def)
qed

lemma held_in_time: "n \<le> 8 \<Longrightarrow> n < MAX_SILENT"
  by (simp add: MAX_SILENT_def EVENTS_PER_BLOCK_def)

lemma persists_not_Gone: "persists fs ph \<Longrightarrow> ph \<noteq> Gone"
  by auto

text \<open>A station in a round: it keeps its sync and moves on, or it is gone.\<close>

lemma station_stays:
  assumes sec: "secure i h ph v" and "bearable (h @ [f])" and sync: "in_sync (h @ [f])"
  shows "secure i (h @ [f]) (next_phase f ph) (if sends f ph then Held i 0 else age v)" and "ph \<noteq> Gone" and "next_phase f ph \<noteq> Gone"
    and "v = Free \<or> (\<exists>m < MAX_SILENT. v = Held i m)"
proof -
  have "served (h @ [f])" using sync assms(2) by (simp add: bearable_served del: in_sync_simps)
  then have few: "served h" "few_losses (h @ [f])" using served_prefix [of h "[f]"] by (simp_all only: served_def)
  show sec': "secure i (h @ [f]) (next_phase f ph) (if sends f ph then Held i 0 else age v)"
    by (rule secure_step [OF sec few]) (simp add: watch_def)
  show "ph \<noteq> Gone" "next_phase f ph \<noteq> Gone" using sec sec' persists_not_Gone by (auto simp: secure_def)
  show "v = Free \<or> (\<exists>m < MAX_SILENT. v = Held i m)" using secure_held [OF sec few(1)] held_in_time by blast
qed

lemma station_goes:
  assumes "\<not> in_sync h \<Longrightarrow> ph = Gone" and "\<not> in_sync (h @ [f])"
  shows "next_phase f ph = Gone" and "\<not> sends f ph" and "ph = Gone \<or> ft_lost f \<noteq> None"
proof -
  have "after_wait f ph = Gone" using assms by (auto simp: after_wait_def)
  then show "next_phase f ph = Gone" "\<not> sends f ph" by (simp_all add: next_phase_def sends_def)
  show "ph = Gone \<or> ft_lost f \<noteq> None" using assms by auto
qed

text \<open>Where a station that has lost its sync is after the round.\<close>

lemma round_lost:
  assumes ok: "station_ok pf key_of key_of' mac keys ka s q ph" and room: "adv_time s + 1 < 2 ^ 64"
    and before: "in_sync h \<Longrightarrow> ph \<noteq> Gone"
      "\<not> in_sync h \<Longrightarrow> ph = Gone \<and> behind s (since_lost h) q \<and> (timed_out h \<and> scan_starts (st_platform q) \<longrightarrow> scans q)"
    and lost: "\<not> in_sync (h @ [f])" and time: "adv_time s < adv_time s'" "rollover s' = 1" and q': "q' = downlink ms f (prepare f q)"
  shows "behind s' (since_lost (h @ [f])) q'" and "\<lbrakk>timed_out (h @ [f]); scan_starts (st_platform q')\<rbrakk> \<Longrightarrow> scans q'"
proof -
  have "unat (cc_value (sc_counter (st_dev q))) + since_lost h \<le> adv_time s + 1"
    using station_time [OF ok before(1) room] before(2) by (cases "in_sync h") (simp_all add: since_lost_in_sync behind_def)
  moreover have "ph = Gone \<or> ft_lost f \<noteq> None" using lost before(2) by auto
  then have "sc_counter (st_dev q') = sc_counter (st_dev q)" unfolding q' by (rule lost_counter [OF ok])
  ultimately have "behind s' (Suc (since_lost h)) q'" using behind_later [OF _ time] by blast
  then show "behind s' (since_lost (h @ [f])) q'" unfolding since_lost_snoc using lost by (simp only: if_False)
  assume t: "timed_out (h @ [f])" "scan_starts (st_platform q')"
  have pf: "pawr_platform (st_platform q) key_of' mac" using ok by (simp add: station_ok_def)
  have "scans (prepare f q)"
  proof (cases "in_sync h")
    case True
    with lost t(1) obtain reason where "ft_lost f = Some reason" "reason \<noteq> 22" by auto
    with lost_scans [OF ok before(1) [OF True]] t(2) show ?thesis by (simp add: q')
  next
    case False
    with scans_on(1) [OF pf] before(2) t show ?thesis by (simp add: q')
  qed
  from scans_on(2) [OF _ this] pf show "scans q'" by (simp add: q')
qed

text \<open>The slots claimed in the round are counted.\<close>

lemma claimed_more:
  assumes "length qs' = length qs" and "\<And>n. \<lbrakk>n < length qs; sends (fs ! n) (phs ! n)\<rbrakk> \<Longrightarrow> phs ! n \<noteq> Gone"
    and "\<And>n. \<lbrakk>n < length qs; phs ! n = Gone \<or> view_at s (station_slot (qs ! n)) \<noteq> Free \<or> sends (fs ! n) (phs ! n)\<rbrakk> \<Longrightarrow>
      phs' ! n = Gone \<or> view_at s' (station_slot (qs' ! n)) \<noteq> Free"
  shows "10 + card (claimed s qs phs) + card (claimants s fs qs phs) \<le> 10 + card (claimed s' qs' phs')"
proof -
  have more: "claimed s qs phs \<union> claimants s fs qs phs \<subseteq> claimed s' qs' phs'"
    using assms(1,3) by (auto simp: claimed_def claimants_def)
  have "claimed s qs phs \<inter> claimants s fs qs phs = {}" using assms(2) by (auto simp: claimed_def claimants_def)
  moreover have "finite (claimants s fs qs phs)" by (simp add: claimants_def)
  ultimately have "card (claimed s qs phs) + card (claimants s fs qs phs) = card (claimed s qs phs \<union> claimants s fs qs phs)"
    using card_Un_disjoint [OF claimed_few(2)] by metis
  also have "\<dots> \<le> card (claimed s' qs' phs')" by (rule card_mono [OF claimed_few(2) more])
  finally show ?thesis by simp
qed

lemma steady_round:
  assumes rel: "pawr_reliable pf key_of mac" and ka: "key_is keys (ADVERTISER_KEY_ID pf) ka"
    and st: "steady pf key_of key_of' mac keys ka hs s qs phs" and len: "length fs = length qs" and room: "adv_time s + 3 < 2 ^ 64"
    and round: "network_round pf fs (s, qs) = (s', qs')" and few: "length qs \<le> 4700"
    and bearable: "\<And>n. n < length qs \<Longrightarrow> bearable (hs n @ [fs ! n])"
  shows "steady pf key_of key_of' mac keys ka (\<lambda>n. hs n @ [fs ! n]) s' qs' (map2 next_phase fs phs)" and "adv_time s' \<le> adv_time s + 2"
    and "map st_id qs' = map st_id qs"
proof -
  let ?N = "length qs" and ?v = "\<lambda>n. view_at s (station_slot (qs ! n))" and ?h = "\<lambda>n. hs n @ [fs ! n]"
    and ?sends = "\<lambda>n. sends (fs ! n) (phs ! n)" and ?phs' = "map2 next_phase fs phs"
  note ok = steadyD(1) [OF st] and out = steadyD(2) [OF st]
  note moved = network_round_ok [OF rel ka ok len room round]
  show "adv_time s' \<le> adv_time s + 2" by (rule moved(2))
  show ids: "map st_id qs' = map st_id qs" using network_round_ids [OF len, of pf s] round by simp
  then have lq: "length qs' = ?N" by (metis length_map)
  with ids have id: "st_id (qs' ! n) = st_id (qs ! n)" if "n < ?N" for n using that by (metis nth_map)
  have ph': "?phs' ! n = next_phase (fs ! n) (phs ! n)" if "n < ?N" for n using that len ok by (simp add: fleet_ok_def)
  have ok': "station_ok pf key_of key_of' mac keys ka s (qs ! n) (phs ! n)" if "n < ?N" for n using ok that by (simp add: fleet_ok_def)
  have stays: "secure (st_id (qs ! n)) (?h n) (?phs' ! n) (if ?sends n then Held (st_id (qs ! n)) 0 else age (?v n))"
    "phs ! n \<noteq> Gone" "next_phase (fs ! n) (phs ! n) \<noteq> Gone" "?v n = Free \<or> (\<exists>m < MAX_SILENT. ?v n = Held (st_id (qs ! n)) m)"
    if n: "n < ?N" "in_sync (?h n)" for n
  proof -
    have "in_sync (hs n)" using n(2) by simp
    note now = station_stays [OF steadyD(3) [OF st n(1) this] bearable [OF n(1)] n(2)]
    show "secure (st_id (qs ! n)) (?h n) (?phs' ! n) (if ?sends n then Held (st_id (qs ! n)) 0 else age (?v n))"
      "phs ! n \<noteq> Gone" "next_phase (fs ! n) (phs ! n) \<noteq> Gone" "?v n = Free \<or> (\<exists>m < MAX_SILENT. ?v n = Held (st_id (qs ! n)) m)"
      unfolding ph' [OF n(1)] by (rule now)+
  qed
  have goes: "?phs' ! n = Gone" "\<not> ?sends n" if n: "n < ?N" "\<not> in_sync (?h n)" for n
    using station_goes(1,2) [OF steadyD(5) [OF st n(1)] n(2)] ph' [OF n(1)] by auto
  have slot: "station_slot (qs' ! n) = station_slot (qs ! n)"
    and v': "view_at s' (station_slot (qs ! n)) = (if ?sends n then Held (st_id (qs ! n)) 0 else age (?v n))" if n: "n < ?N" "in_sync (?h n)" for n
    using moved(3) [OF n(1) stays(3) [OF n]] by (simp_all add: slot_moves_def)
  have sending: "in_sync (?h n)" if "n < ?N" "?sends n" for n using goes(2) that by blast
  have "?phs' ! n = Gone \<or> view_at s' (station_slot (qs' ! n)) \<noteq> Free" if n: "n < ?N" and c: "phs ! n = Gone \<or> ?v n \<noteq> Free \<or> ?sends n" for n
  proof (cases "in_sync (?h n)")
    case True
    with c stays(2,4) [OF n True] show ?thesis unfolding slot [OF n True] v' [OF n True] by auto
  qed (use goes(1) [OF n] in simp)
  then have card: "10 + card (claimed s qs phs) + card (claimants s fs qs phs) \<le> 10 + card (claimed s' qs' ?phs')"
    using stays(2) sending by (intro claimed_more [OF lq]) blast+
  with claimed_few(1) [of s' qs' ?phs'] few have bound: "10 + card (claimed s qs phs) + card (claimants s fs qs phs) < NUM_RSP_SLOTS * 256"
    by (simp add: lq NUM_RSP_SLOTS_def)
  have near: "near_by s (st_id (qs ! n)) (station_slot (qs ! n))" if n: "n < ?N" "?sends n" for n
    using stays(4) [OF n(1) sending [OF n]] steadyD(4) [OF st n(1)] sending [OF n] by (auto simp: near_by_def)
  note alloc = round_alloc [OF rel ka ok len room round out near bound]
  have "advertises s' (station_slot (qs' ! n))" if n: "n < ?N" "in_sync (?h n)" and free: "view_at s' (station_slot (qs' ! n)) = Free" for n
    unfolding slot [OF n]
  proof (rule alloc(2))
    note here = stays(2) [OF n]
    have quiet: "\<not> ?sends n" "?v n = Free"
      using free stays(4) [OF n] unfolding slot [OF n] v' [OF n] by (auto split: if_splits)
    then show "advertises s (station_slot (qs ! n))" using steadyD(4) [OF st n(1)] n(2) by simp
    show "slot_exists (station_slot (qs ! n))" by (rule station_exists [OF ok' [OF n(1)] here])
    show "station_slot (qs ! n) \<noteq> station_slot (qs ! m)" if m: "m < ?N" "?sends m" for m
    proof -
      have "m \<noteq> n" using m(2) quiet(1) by blast
      with ok n m(1) here stays(2) [OF m(1) sending [OF m]] show ?thesis by (simp add: fleet_ok_def)
    qed
  qed
  moreover have "secure (st_id (qs' ! n)) (?h n) (?phs' ! n) (view_at s' (station_slot (qs' ! n)))" if n: "n < ?N" "in_sync (?h n)" for n
    unfolding id [OF n(1)] slot [OF n] v' [OF n] by (rule stays(1) [OF n])
  moreover have "?phs' ! n = Gone" "behind s' (since_lost (?h n)) (qs' ! n)"
    "timed_out (?h n) \<Longrightarrow> scan_starts (st_platform (qs' ! n)) \<Longrightarrow> scans (qs' ! n)" if n: "n < ?N" "\<not> in_sync (?h n)" for n
  proof -
    have here: "phs ! n \<noteq> Gone" if "in_sync (hs n)" using steadyD(3) [OF st n(1) that] persists_not_Gone by (auto simp: secure_def)
    have room1: "adv_time s + 1 < 2 ^ 64" using room by simp
    note lost = round_lost [OF ok' [OF n(1)] room1 here _ n(2) moved(4,5) round_station [OF len round n(1)]]
    show "?phs' ! n = Gone" by (rule goes(1) [OF n])
    show "behind s' (since_lost (?h n)) (qs' ! n)" using lost(1) steadyD(5-7) [OF st n(1)] by blast
    show "timed_out (?h n) \<Longrightarrow> scan_starts (st_platform (qs' ! n)) \<Longrightarrow> scans (qs' ! n)" using lost(2) steadyD(5-7) [OF st n(1)] by blast
  qed
  moreover have "handed_out key_of keys (mac ka) (10 + card (claimed s' qs' ?phs')) s'" by (rule handed_out_mono [OF alloc(1) card])
  ultimately show "steady pf key_of key_of' mac keys ka ?h s' qs' ?phs'"
    unfolding steady_def lq using moved(1) by (simp del: in_sync_simps)
qed

text \<open>A run.\<close>

lemma steady_run:
  assumes rel: "pawr_reliable pf key_of mac" and ka: "key_is keys (ADVERTISER_KEY_ID pf) ka"
    and "steady pf key_of key_of' mac keys ka hs s qs phs" and "\<forall>fs \<in> set fss. length fs = length qs"
    and "adv_time s + 2 * length fss + 1 < 2 ^ 64" and "network_run pf fss (s, qs) = (s', qs')"
    and "length qs \<le> 4700" and "\<And>n. n < length qs \<Longrightarrow> bearable (hs n @ column n fss)"
  shows "steady pf key_of key_of' mac keys ka (\<lambda>n. hs n @ column n fss) s' qs' (fold (map2 next_phase) fss phs) \<and>
    adv_time s' \<le> adv_time s + 2 * length fss \<and> map st_id qs' = map st_id qs"
  using assms(3-)
proof (induction fss arbitrary: hs s qs phs)
  case Nil
  then show ?case by (simp add: network_run_def column_def)
next
  case (Cons fs fss)
  obtain s1 qs1 where r: "network_round pf fs (s, qs) = (s1, qs1)" by (metis prod.exhaust)
  have col: "column n (fs # fss) = fs ! n # column n fss" for n by (simp add: column_def)
  have "bearable (hs n @ [fs ! n])" if "n < length qs" for n
    using Cons.prems(6) [OF that] bearable_prefix [of "hs n @ [fs ! n]" "column n fss"] by (simp add: col)
  from Cons.prems(2,3) steady_round [OF rel ka Cons.prems(1) _ _ r Cons.prems(5) this]
  have 1: "steady pf key_of key_of' mac keys ka (\<lambda>n. hs n @ [fs ! n]) s1 qs1 (map2 next_phase fs phs)" "adv_time s1 \<le> adv_time s + 2"
      "map st_id qs1 = map st_id qs"
    by simp_all
  then have l: "length qs1 = length qs" by (metis length_map)
  have run: "network_run pf fss (s1, qs1) = (s', qs')" using Cons.prems(4) r by (simp add: network_run_def)
  have "bearable ((hs n @ [fs ! n]) @ column n fss)" if "n < length qs1" for n using Cons.prems(6) that by (simp add: l col)
  from Cons.IH [OF 1(1) _ _ run _ this] Cons.prems(2,3,5) 1(2,3) l show ?case by (simp add: col)
qed

text \<open>A steady network in which the stations have had three rounds: those that have kept their sync are
  registered and hold slots of their own.\<close>

definition settled :: "nat set \<Rightarrow> 'p advertiser \<Rightarrow> 'q station list \<Rightarrow> bool" where
  "settled J s qs \<longleftrightarrow> inj_on (\<lambda>n. station_slot (qs ! n)) J \<and>
     (\<forall>n \<in> J. (\<exists>m < MAX_SILENT. view_at s (station_slot (qs ! n)) = Held (st_id (qs ! n)) m) \<and>
        sc_state (st_dev (qs ! n)) \<in> {CONFIRMING, SLEEPING, ENABLED} \<and> default_sync (st_dev (qs ! n)) \<noteq> None)"

lemma steady_settled:
  assumes st: "steady pf key_of key_of' mac keys ka hs s qs phs"
    and J: "\<And>n. n \<in> J \<Longrightarrow> n < length qs \<and> in_sync (hs n) \<and> served (hs n) \<and> 3 \<le> length (hs n)"
  shows "settled J s qs"
proof -
  note ok = steadyD(1) [OF st]
  have sec: "secure (st_id (qs ! n)) (hs n) (phs ! n) (view_at s (station_slot (qs ! n)))" if "n \<in> J" for n
    using steadyD(3) [OF st] J [OF that] by simp
  then have p: "persists (hs n) (phs ! n)" if "n \<in> J" for n using that by (simp add: secure_def)
  have "inj_on (\<lambda>n. station_slot (qs ! n)) J"
    using ok persists_not_Gone [OF p] J unfolding fleet_ok_def inj_on_def by metis
  moreover have "(\<exists>m < MAX_SILENT. view_at s (station_slot (qs ! n)) = Held (st_id (qs ! n)) m) \<and>
      sc_state (st_dev (qs ! n)) \<in> {CONFIRMING, SLEEPING, ENABLED} \<and> default_sync (st_dev (qs ! n)) \<noteq> None" if n: "n \<in> J" for n
  proof -
    have "\<exists>m < MAX_SILENT. view_at s (station_slot (qs ! n)) = Held (st_id (qs ! n)) m"
      using secure_held [OF sec [OF n]] J [OF n] held_in_time by fastforce
    moreover have "station_ok pf key_of key_of' mac keys ka s (qs ! n) (phs ! n)" using ok J [OF n] by (simp add: fleet_ok_def)
    ultimately show ?thesis using persists_registered [OF _ p [OF n]] by blast
  qed
  ultimately show ?thesis unfolding settled_def by blast
qed

end
