(* ===== verification/Session.thy ===== *)
theory Session
  imports Radio_Link
begin

text \<open>
  One scanner and the advertiser over many periods: how a device registers and delivers its data,
  and that it goes on doing so.
\<close>

section \<open>Periods\<close>

text \<open>One period: the advertiser is asked for all subevents, the scanner hears the message of its
  own one, and what it answers reaches the advertiser.\<close>

definition air_period :: "'p platform \<Rightarrow> 'q platform \<Rightarrow> link \<Rightarrow> 'p advertiser \<times> 'q scanner \<Rightarrow> 'p advertiser \<times> 'q scanner" where
  "air_period pf pf' l = (\<lambda>(s, t).
     let s1 = request_cb pf full_period s;
         t1 = hear pf' l True (new_messages s s1 ! lk_sub l) t
     in (take_replies pf (new_replies l t t1) s1, t1))"

text \<open>A waiting scanner registers: it answers in the first period and is confirmed in the
  second.\<close>

definition register_device ::
    "'p platform \<Rightarrow> 'q platform \<Rightarrow> link \<Rightarrow> 'p advertiser \<times> 'q scanner \<Rightarrow> ('p advertiser \<times> 'q scanner) option" where
  "register_device pf pf' l p = (let (s, t) = (air_period pf pf' l ^^ 2) p in map_option (Pair s) (wake pf' t))"

text \<open>A sleeping scanner delivers: after \<open>k\<close> periods the timer expires, the main thread becomes
  enabled, and two periods later it goes back to sleep.\<close>

definition deliver ::
    "'p platform \<Rightarrow> 'q platform \<Rightarrow> link \<Rightarrow> nat \<Rightarrow> 'p advertiser \<times> 'q scanner \<Rightarrow> ('p advertiser \<times> 'q scanner) option" where
  "deliver pf pf' l k p =
     (let (s, t) = (air_period pf pf' l ^^ k) p
      in if timer_running (zlog t)
         then Option.bind (wake pf' (generate_data pf' (generator_config pf') t))
           (\<lambda>t. let (s, t) = (air_period pf pf' l ^^ 2) (s, t) in map_option (Pair s) (wake pf' t))
         else None)"

fun deliveries ::
    "'p platform \<Rightarrow> 'q platform \<Rightarrow> link \<Rightarrow> nat list \<Rightarrow> 'p advertiser \<times> 'q scanner \<Rightarrow> ('p advertiser \<times> 'q scanner) option" where
  "deliveries pf pf' l [] p = Some p"
| "deliveries pf pf' l (k # ks) p = Option.bind (deliver pf pf' l k p) (deliveries pf pf' l ks)"

context radio_pair
begin

subsection \<open>One period of the two\<close>

lemma idle_period:
  assumes "talk s t" and "\<not> listening t" and "adv_time s + 3 < 2 ^ 64" and "unheard i (holder l s t)"
  shows "\<exists>s'. air_period pf pf' l (s, t) = (s', t) \<and> talk s' t \<and> adv_time s' = adv_time s + 1 \<and> unheard i (holder l s' t)"
proof -
  obtain a where sim: "adv_sim key_of keys (mac ka) s a" using assms(1) by (auto simp: linked_def)
  let ?s = "request_cb pf full_period s"
  have air: "air_period pf pf' l (s, t) = (?s, t)"
    using assms(2) by (simp add: air_period_def hear_def new_replies_def take_replies_def Let_def)
  have "?s = take_replies pf (map snd []) ?s" by (simp add: take_replies_def)
  note p = period_replies [OF rel(1) sim advertiser_key assms(3) this, simplified]
  have "holder l ?s t = age (holder l s t)"
    using p(5) [OF own_slot_exists [OF assms(1)]] by (simp add: holder_def)
  moreover have "talk ?s t"
    using p(1,3) assms(1) adv_time_next [of s] assms(3) by (force simp: linked_def)
  ultimately show ?thesis
    using air p(2) unheard_age [OF assms(4)] by simp
qed

lemma idle_periods:
  assumes "talk s t" and "\<not> listening t" and "adv_time s + k + 2 < 2 ^ 64" and "unheard i (holder l s t)"
  shows "\<exists>s'. (air_period pf pf' l ^^ k) (s, t) = (s', t) \<and> talk s' t \<and> adv_time s' = adv_time s + k \<and> unheard i (holder l s' t)"
  using assms(3)
proof (induction k)
  case 0
  then show ?case using assms by simp
next
  case (Suc k)
  then obtain s' where s': "(air_period pf pf' l ^^ k) (s, t) = (s', t)" "talk s' t" "adv_time s' = adv_time s + k" "unheard i (holder l s' t)"
    by auto
  with idle_period [OF s'(2) assms(2) _ s'(4)] Suc.prems show ?case by auto
qed

lemma answered_period:
  assumes "talk s t" and "listening t" and "adv_time s + 3 < 2 ^ 64" and "unheard i (holder l s t)" and "waits 0 t"
  shows "\<exists>s' t'. air_period pf pf' l (s, t) = (s', t') \<and> talk s' t' \<and> adv_time s' = adv_time s + 2 \<and>
    holder l s' t' = Held i 0 \<and> same_wait t t' \<and> recv t' = recv t \<and> length (responses_sent (zlog t')) = Suc (length (responses_sent (zlog t)))"
proof -
  obtain a where sim: "adv_sim key_of keys (mac ka) s a" using assms(1) by (auto simp: linked_def)
  let ?t = "hear pf' l True (new_messages s (request_cb pf full_period s) ! lk_sub l) t"
  note h = hear_unacked [OF assms(1,2,5) _ assms(4,3) refl]
  from h(7) obtain rep where rep: "new_replies l t ?t = [rep]" "reply_from pf mac keys (next_counter s) (i, own_slot l t) rep" by auto
  let ?s = "take_replies pf [rep] (request_cb pf full_period s)"
  have items: "?s = take_replies pf (map snd [((i, own_slot l t), rep)]) (request_cb pf full_period s)" by simp
  have "view_at s (own_slot l t) \<in> {Free} \<union> range (Held i)" using assms(4) by (auto simp: unheard_def holder_def)
  then have "\<forall>((i, p), rep) \<in> set [((i, own_slot l t), rep)]. reply_from pf mac keys (next_counter s) (i, p) rep \<and> slot_exists p \<and> i \<noteq> 0 \<and>
      view_at s p \<in> {Free} \<union> range (Held i)"
    using rep(2) own_slot_exists [OF assms(1)] valid_id by simp
  note p = period_replies [OF rel(1) sim advertiser_key assms(3) items this]
  from p(1) obtain b where "adv_sim key_of keys (mac ka) ?s b" by auto
  moreover have "cc_value (sc_counter ?t) \<le> next_counter ?s" using h(2) p(3) by simp
  ultimately have "talk ?s ?t" using kept_talk [OF h(1)] by simp
  moreover have "air_period pf pf' l (s, t) = (?s, ?t)" by (simp add: air_period_def rep(1) Let_def)
  ultimately show ?thesis
    using p(2) p(4) [of i "own_slot l t" rep] h(1,4,8) kept_slot [OF h(1)] by (simp add: holder_def kept_def)
qed

lemma acked_period:
  assumes "talk s t" and "listening t" and "adv_time s + 3 < 2 ^ 64" and "holder l s t = Held i 0"
    and "recv t = Confirm_recv \<or> recv t = Ack_recv"
  shows "\<exists>s' t'. air_period pf pf' l (s, t) = (s', t') \<and> talk s' t' \<and> adv_time s' = adv_time s + 1 \<and>
    holder l s' t' = Held i 1 \<and> same_wait t t' \<and> zlog t' = zlog t \<and> sem_count (synced_evt_sem t') = 1 \<and>
    fault_reason t' = (if recv t = Confirm_recv then EVT_NO_FAULT else EVT_GOT_ACK)"
proof -
  obtain a where sim: "adv_sim key_of keys (mac ka) s a" using assms(1) by (auto simp: linked_def)
  let ?s = "request_cb pf full_period s"
  let ?t = "hear pf' l True (new_messages s ?s ! lk_sub l) t"
  note h = hear_acked [OF assms(1,2,5,4) refl]
  have air: "air_period pf pf' l (s, t) = (?s, ?t)"
    using h(3) by (simp add: air_period_def new_replies_def take_replies_def Let_def)
  have "?s = take_replies pf (map snd []) ?s" by (simp add: take_replies_def)
  note p = period_replies [OF rel(1) sim advertiser_key assms(3) this, simplified]
  from p(1) obtain b where "adv_sim key_of keys (mac ka) ?s b" by auto
  moreover have "cc_value (sc_counter ?t) \<le> next_counter ?s"
    using h(2) p(3) adv_time_next [of s] assms(3) by simp
  ultimately have "talk ?s ?t" using kept_talk [OF h(1)] by simp
  moreover have "holder l ?s ?t = Held i 1"
    using p(5) [OF own_slot_exists [OF assms(1)]] assms(4) kept_slot [OF h(1)] by (simp add: holder_def MAX_SILENT_def EVENTS_PER_BLOCK_def)
  ultimately show ?thesis
    using air p(2) h by (simp add: kept_def)
qed

end

section \<open>Registration and deliveries\<close>

context radio_pair
begin

lemma registers:
  assumes "talk s t" and "sc_at t = Confirming_wait" and "recv t = Confirm_recv" and "unconfirmed_ticks t = 0" and "listening t"
    and "unheard i (holder l s t)" and "adv_time s + 5 < 2 ^ 64"
  shows "\<exists>s' t'. register_device pf pf' l (s, t) = Some (s', t') \<and> talk s' t' \<and> asleep t' \<and> holder l s' t' = Held i 1 \<and>
    adv_time s' = adv_time s + 3 \<and> fault_reason t' = EVT_NO_FAULT \<and> selected_slot t' = selected_slot t \<and>
    length (responses_sent (zlog t')) = Suc (length (responses_sent (zlog t)))"
proof -
  have "adv_time s + 3 < 2 ^ 64" "waits 0 t" using assms(3,4,7) by (simp_all add: waits_def)
  from answered_period [OF assms(1,5) this(1) assms(6) this(2)] assms(3) obtain s1 t1 where
    1: "air_period pf pf' l (s, t) = (s1, t1)" "talk s1 t1" "adv_time s1 = adv_time s + 2" "holder l s1 t1 = Held i 0"
      "same_wait t t1" "recv t1 = Confirm_recv" "length (responses_sent (zlog t1)) = Suc (length (responses_sent (zlog t)))"
    by auto
  from acked_period [OF 1(2) _ _ 1(4)] 1(3,5,6) assms(5,7) obtain s2 t2 where
    2: "air_period pf pf' l (s1, t1) = (s2, t2)" "talk s2 t2" "adv_time s2 = adv_time s + 3" "holder l s2 t2 = Held i 1"
      "same_wait t1 t2" "zlog t2 = zlog t1" "sem_count (synced_evt_sem t2) = 1" "fault_reason t2 = EVT_NO_FAULT"
    by (auto simp: same_wait_def)
  have "sc_inv i t2" "sc_at t2 = Confirming_wait" "default_sync t2 \<noteq> None"
    using 1(5) 2(2,5) assms(2,5) by (simp_all add: linked_def same_wait_def same_sync_def listening_def)
  from sca.wake_confirmed [OF this(1,2) 2(7,8) this(3)] obtain t' where
    w: "wake pf' t2 = Some t'" "sc_inv i t'" "same_link t2 t'" "asleep t'" "fault_reason t' = EVT_NO_FAULT"
    by blast
  from linked_same [OF 2(2) w(3,2)] 1 2 w show ?thesis
    by (simp add: register_device_def eval_nat_numeral same_link_def sc_frame_def same_wait_def)
qed

lemma delivers:
  assumes "talk s t" and "asleep t" and "unheard i (holder l s t)" and "adv_time s + k + 5 < 2 ^ 64"
  shows "\<exists>s' t'. deliver pf pf' l k (s, t) = Some (s', t') \<and> talk s' t' \<and> asleep t' \<and> holder l s' t' = Held i 1 \<and>
    adv_time s' = adv_time s + k + 3 \<and> fault_reason t' = EVT_GOT_ACK \<and>
    length (responses_sent (zlog t')) = Suc (length (responses_sent (zlog t)))"
proof -
  have t: "\<not> listening t" "timer_running (zlog t)" "default_sync t \<noteq> None" "sc_at t = Sleeping_wait" "sc_inv i t"
    using assms(1,2) by (simp_all add: asleep_def listening_def linked_def)
  from idle_periods [OF assms(1) t(1) _ assms(3), of k] assms(4) obtain s0 where
    0: "(air_period pf pf' l ^^ k) (s, t) = (s0, t)" "talk s0 t" "adv_time s0 = adv_time s + k" "unheard i (holder l s0 t)"
    by auto
  from sca.wake_generated [OF t(5) _ t(3,2)] t(4) obtain u where
    u: "wake pf' (generate_data pf' (generator_config pf') t) = Some u" "sc_inv i u" "same_link t u" "awake u" "unconfirmed_ticks u = 0"
    by blast
  note l = linked_same [OF 0(2) u(3,2)]
  have aw: "listening u" "waits 0 u" "recv u = Ack_recv" "sc_at u = Enabled_wait" "timer_running (zlog u)"
    using u(4,5) by (simp_all add: awake_def waits_def)
  from answered_period [of s0 u] l 0 aw assms(4) obtain s1 t1 where
    1: "air_period pf pf' l (s0, u) = (s1, t1)" "talk s1 t1" "adv_time s1 = adv_time s + k + 2" "holder l s1 t1 = Held i 0"
      "same_wait u t1" "recv t1 = Ack_recv" "length (responses_sent (zlog t1)) = Suc (length (responses_sent (zlog u)))"
    by auto
  from acked_period [OF 1(2) _ _ 1(4)] 1(3,5,6) aw(1) assms(4) obtain s2 t2 where
    2: "air_period pf pf' l (s1, t1) = (s2, t2)" "talk s2 t2" "adv_time s2 = adv_time s + k + 3" "holder l s2 t2 = Held i 1"
      "same_wait t1 t2" "zlog t2 = zlog t1" "sem_count (synced_evt_sem t2) = 1" "fault_reason t2 = EVT_GOT_ACK"
    by (auto simp: same_wait_def)
  have "sc_inv i t2" "sc_at t2 = Enabled_wait" "default_sync t2 \<noteq> None" "timer_running (zlog t2)"
    using 1(5) 2(2,5) aw(1,4,5) by (simp_all add: linked_def same_wait_def same_sync_def listening_def)
  from sca.wake_acked [OF this(1,2) 2(7,8) this(3,4)] obtain t' where
    w: "wake pf' t2 = Some t'" "sc_inv i t'" "same_link t2 t'" "asleep t'" "fault_reason t' = EVT_GOT_ACK"
    by blast
  from linked_same [OF 2(2) w(3,2)] t(2) 0(1) u(1,3) 1 2 w show ?thesis
    by (simp add: deliver_def eval_nat_numeral same_link_def sc_frame_def)
qed

text \<open>And again, as often as the timer expires.\<close>

lemma delivers_all:
  assumes "talk s t" and "asleep t" and "unheard i (holder l s t)" and "adv_time s + sum_list ks' + 3 * length ks' + 2 < 2 ^ 64"
  shows "\<exists>s' t'. deliveries pf pf' l ks' (s, t) = Some (s', t') \<and> talk s' t' \<and> asleep t' \<and>
    holder l s' t' = (if ks' = [] then holder l s t else Held i 1) \<and>
    fault_reason t' = (if ks' = [] then fault_reason t else EVT_GOT_ACK) \<and>
    length (responses_sent (zlog t')) = length (responses_sent (zlog t)) + length ks'"
  using assms
proof (induction ks' arbitrary: s t)
  case Nil
  then show ?case by simp
next
  case (Cons k ks')
  from delivers [OF Cons.prems(1-3), of k] Cons.prems(4) obtain s1 t1 where
    1: "deliver pf pf' l k (s, t) = Some (s1, t1)" "talk s1 t1" "asleep t1" "holder l s1 t1 = Held i 1" "adv_time s1 = adv_time s + k + 3"
      "fault_reason t1 = EVT_GOT_ACK" "length (responses_sent (zlog t1)) = Suc (length (responses_sent (zlog t)))"
    by auto
  have "unheard i (holder l s1 t1)" by (simp add: 1(4) unheard_def)
  from Cons.IH [OF 1(2,3) this] Cons.prems(4) 1 show ?case by auto
qed

end

end
