(* ===== verification/Flasher.thy ===== *)
theory Flasher
  imports Protocol
begin

text \<open>
  The crypto flasher (\<open>crypto_flasher/src/main.c\<close>), which provisions a device: the counter
  is set to 0, the advertiser (device 0) gets every key of \<open>keys.h\<close>, a scanner gets the
  advertiser's key and its own. \<open>keys.h\<close> is generated, so the keys are an argument. What is
  printed is left out; the outcome says which of the labels the program ends at.
\<close>

section \<open>The code\<close>

text \<open>\<open>recreate_key\<close> returns its status as a \<open>psa_key_id_t\<close>, which the caller
  converts back; here it stays a status.\<close>

definition recreate_key :: "'p platform \<Rightarrow> psa_key_id_t \<Rightarrow> net_buf_simple \<Rightarrow> 'p \<Rightarrow> psa_status_t \<times> 'p" where
  "recreate_key pf kid key p =
     (let (err, p) = psa_destroy_key pf kid p
      in if err \<noteq> PSA_SUCCESS \<and> err \<noteq> PSA_ERROR_INVALID_HANDLE then (err, p)
         else crypto_save_persistent_key pf kid key p)"

datatype flash_outcome =
    Crypto_init_failed | Counter_init_failed psa_status_t | Counter_commit_failed psa_status_t
  | Key_failed psa_status_t | Flashed

text \<open>The loop of device 0 over \<open>keys[1]\<close>, \<open>keys[2]\<close>, \dots\<close>

fun flash_scanner_keys :: "'p platform \<Rightarrow> byte list list \<Rightarrow> nat \<Rightarrow> 'p \<Rightarrow> psa_status_t \<times> 'p" where
  "flash_scanner_keys pf [] i p = (PSA_SUCCESS, p)"
| "flash_scanner_keys pf (k # ks) i p =
     (let key_buf = net_buf_simple_init_with_data pf (take MAC_LEN k);
          (err, p) = recreate_key pf (MIN_SCANNER_KEY_ID pf + of_nat i - 1) key_buf p
      in if err \<noteq> PSA_SUCCESS then (err, p) else flash_scanner_keys pf ks (Suc i) p)"

text \<open>The part for device 0 and the part for the others.\<close>

definition flash_advertiser :: "'p platform \<Rightarrow> byte list list \<Rightarrow> 'p \<Rightarrow> psa_status_t \<times> 'p" where
  "flash_advertiser pf keys p =
     (let key_buf = net_buf_simple_init_with_data pf (take KEY_LEN (keys ! 0));
          (err, p) = recreate_key pf (ADVERTISER_KEY_ID pf) key_buf p
      in if err \<noteq> PSA_SUCCESS then (err, p) else flash_scanner_keys pf (drop 1 keys) 1 p)"

definition flash_scanner :: "'p platform \<Rightarrow> byte list list \<Rightarrow> nat \<Rightarrow> 'p \<Rightarrow> psa_status_t \<times> 'p" where
  "flash_scanner pf keys d p =
     (let key_buf = net_buf_simple_init_with_data pf (take MAC_LEN (keys ! 0));
          (err, p) = recreate_key pf (ADVERTISER_KEY_ID pf) key_buf p
      in if err \<noteq> PSA_SUCCESS then (err, p)
         else recreate_key pf (MIN_SCANNER_KEY_ID pf) (net_buf_simple_init_with_data pf (take MAC_LEN (keys ! d))) p)"

text \<open>\<open>main\<close> for the device \<open>CONFIG_FLASHED_DEVICE = d\<close>; \<open>None\<close> where it
  would read past the end of \<open>keys\<close>.\<close>

definition flasher_main :: "'p platform \<Rightarrow> byte list list \<Rightarrow> nat \<Rightarrow> 'p device \<Rightarrow> (flash_outcome \<times> 'p device) option" where
  "flasher_main pf keys d dev =
     (let dev = zephyr_do (K_sleep 10000) dev;
          (err, p) = crypto_init pf (psa_store dev);
          dev = dev\<lparr>psa_store := p\<rparr>
      in if err \<noteq> 0 then Some (Crypto_init_failed, dev)
         else
           let (err, counter, p) = crypto_secure_counter_init pf \<lparr>cc_value = 0, storage_uid = COUNTER_ID pf\<rparr> (psa_store dev);
               dev = dev\<lparr>psa_store := p\<rparr>
           in if err \<noteq> PSA_SUCCESS then Some (Counter_init_failed err, dev)
              else
                let (err, p) = crypto_secure_counter_commit pf (counter\<lparr>cc_value := 0\<rparr>) (psa_store dev);
                    dev = dev\<lparr>psa_store := p\<rparr>
                in if err \<noteq> PSA_SUCCESS then Some (Counter_commit_failed err, dev)
                   else if length keys \<le> d then None
                   else
                     let (err, p) = (if d = 0 then flash_advertiser pf keys (psa_store dev)
                                     else flash_scanner pf keys d (psa_store dev));
                         dev = dev\<lparr>psa_store := p\<rparr>
                     in if err \<noteq> PSA_SUCCESS then Some (Key_failed err, dev) else Some (Flashed, dev))"

section \<open>What it leaves in the store\<close>

definition flashed_id :: "'p platform \<Rightarrow> nat \<Rightarrow> psa_key_id_t" where
  "flashed_id pf i = MIN_SCANNER_KEY_ID pf + of_nat i - 1"

lemma unat_flashed_id:
  assumes "psa_key_id_user_min pf = 1" and "i \<le> 65536"
  shows "unat (flashed_id pf i) = i + 2"
proof -
  have "flashed_id pf i = of_nat (i + 2)"
    using assms(1) by (simp add: flashed_id_def key_ids)
  then show ?thesis using assms(2) by (simp add: unat_word_ariths unat_of_nat)
qed

lemma fixed_ids:
  assumes "psa_key_id_user_min pf = 1"
  shows "unat (ADVERTISER_KEY_ID pf) = 1" and "unat (MIN_SCANNER_KEY_ID pf) = 3" and "unat (COUNTER_ID pf) = 16711681"
  using assms by (simp_all add: key_ids)

lemma key_is_upd [simp]: "signing_key a \<Longrightarrow> key_is (keys(kid \<mapsto> (a, k))) kid' k' = (if kid' = kid then k' = k else key_is keys kid' k')"
  by (auto simp: key_is_def)

text \<open>The counter is reset, whatever was stored, as long as it can be read.\<close>

definition counter_readable :: "(psa_key_id_t \<Rightarrow> stored_key option) \<Rightarrow> psa_key_id_t \<Rightarrow> bool" where
  "counter_readable keys uid \<longleftrightarrow> (\<forall>a d. keys uid = Some (a, d) \<longrightarrow> psa_key_usage_flags a = PSA_KEY_USAGE_EXPORT \<and> length d \<le> 8)"

context pawr_reliable
begin

lemma recreate_succeeds:
  "\<exists>p' a. recreate_key pf kid key p = (PSA_SUCCESS, p') \<and> signing_key a \<and> key_of p' = (key_of p)(kid \<mapsto> (a, nb_data key))"
proof -
  obtain st q where d: "psa_destroy_key pf kid p = (st, q)" by (metis prod.exhaust)
  then have st: "st = PSA_SUCCESS \<or> st = PSA_ERROR_INVALID_HANDLE"
    using destroy_succeeds [of kid p] by (auto split: if_splits)
  from destroy_removes [OF d this] have q: "key_of q = (key_of p)(kid := None)" .
  then have "fst (crypto_save_persistent_key pf kid key q) = PSA_SUCCESS"
    by (simp add: crypto_save_persistent_key_def import_succeeds)
  then obtain p' where s: "crypto_save_persistent_key pf kid key q = (PSA_SUCCESS, p')" by (metis prod.collapse)
  from save_key_ok(2) [OF s] q d st s show ?thesis
    by (auto simp: recreate_key_def)
qed

lemma recreate_with:
  obtains p' a where "recreate_key pf kid (net_buf_simple_init_with_data pf k) p = (PSA_SUCCESS, p')"
    and "signing_key a" and "key_of p' = (key_of p)(kid \<mapsto> (a, k))"
proof -
  have "nb_data (net_buf_simple_init_with_data pf k) = k" by (simp add: nb_init_with_data nb_data_def)
  with recreate_succeeds [of kid "net_buf_simple_init_with_data pf k" p] that show thesis by auto
qed

lemma flash_scanner_keys_ok:
  "i + length ks \<le> 65536 \<Longrightarrow> \<forall>k \<in> set ks. length k = MAC_LEN \<Longrightarrow>
   \<exists>p'. flash_scanner_keys pf ks i p = (PSA_SUCCESS, p') \<and>
     (\<forall>j < length ks. key_is (key_of p') (flashed_id pf (i + j)) (ks ! j)) \<and>
     (\<forall>kid. kid \<notin> flashed_id pf ` {i ..< i + length ks} \<longrightarrow> key_of p' kid = key_of p kid)"
proof (induction ks arbitrary: i p)
  case Nil
  then show ?case by simp
next
  case (Cons k ks)
  obtain q a where r: "recreate_key pf (flashed_id pf i) (net_buf_simple_init_with_data pf k) p = (PSA_SUCCESS, q)"
    and q: "signing_key a" "key_of q = (key_of p)(flashed_id pf i \<mapsto> (a, k))"
    by (rule recreate_with)
  from Cons.IH [of "Suc i" q] Cons.prems obtain p' where
    f: "flash_scanner_keys pf ks (Suc i) q = (PSA_SUCCESS, p')"
    and keys: "\<forall>j < length ks. key_is (key_of p') (flashed_id pf (Suc i + j)) (ks ! j)"
    and rest: "\<forall>kid. kid \<notin> flashed_id pf ` {Suc i ..< Suc i + length ks} \<longrightarrow> key_of p' kid = key_of q kid"
    by auto
  have "flashed_id pf i \<notin> flashed_id pf ` {Suc i ..< Suc i + length ks}"
  proof
    assume "flashed_id pf i \<in> flashed_id pf ` {Suc i ..< Suc i + length ks}"
    then obtain x where x: "x \<in> {Suc i ..< Suc i + length ks}" "flashed_id pf i = flashed_id pf x" by blast
    with Cons.prems(1) have "i + 2 = x + 2"
      using unat_flashed_id [OF user_min, of i] unat_flashed_id [OF user_min, of x] by simp
    with x show False by simp
  qed
  with rest have "key_of p' (flashed_id pf i) = key_of q (flashed_id pf i)" by blast
  with q have first: "key_is (key_of p') (flashed_id pf i) k" by (simp add: key_is_def)
  have "key_is (key_of p') (flashed_id pf (i + j)) ((k # ks) ! j)" if "j < length (k # ks)" for j
    using that first keys by (cases j) auto
  moreover have "key_of p' kid = key_of p kid" if "kid \<notin> flashed_id pf ` {i ..< i + length (k # ks)}" for kid
  proof -
    have "kid \<noteq> flashed_id pf i" "kid \<notin> flashed_id pf ` {Suc i ..< Suc i + length ks}" using that by auto
    with rest q(2) show ?thesis by simp
  qed
  moreover have "flash_scanner_keys pf (k # ks) i p = (PSA_SUCCESS, p')"
    using r f Cons.prems(2) by (simp add: flashed_id_def)
  ultimately show ?case by blast
qed

lemma counter_init_readable:
  assumes "counter_readable (key_of p) (storage_uid ctx)"
  shows "\<exists>c p'. crypto_secure_counter_init pf ctx p = (PSA_SUCCESS, c, p') \<and> storage_uid c = storage_uid ctx"
proof (cases "key_of p (storage_uid ctx)")
  case None
  let ?uid = "storage_uid ctx"
  obtain st tmp q where x: "psa_export_key pf ?uid SIZEOF_U64 p = (st, tmp, q)" by (metis prod.exhaust)
  have st: "st = PSA_ERROR_INVALID_HANDLE" using export_fails [OF None, of SIZEOF_U64] x by simp
  obtain st' rnd r where g: "psa_generate_random pf SIZEOF_U64 q = (st', rnd, r)" by (metis prod.exhaust)
  let ?v = "for_up SIZEOF_U64 (\<lambda>i v. or v (word_of_int (int_shl pf (rnd ! i) (i * 8))))
     (of_le (store (le_bytes SIZEOF_U64 (cc_value ctx)) 0 tmp))"
  from commit_succeeds [of "ctx\<lparr>cc_value := ?v\<rparr>" r] obtain p' where
    "crypto_secure_counter_commit pf (ctx\<lparr>cc_value := ?v\<rparr>) r = (PSA_SUCCESS, p')" by blast
  then show ?thesis
    using x st g by (simp add: crypto_secure_counter_init_def Let_def)
next
  case (Some x)
  then obtain a d where d: "key_of p (storage_uid ctx) = Some (a, d)" by (cases x) auto
  with assms have "fst (psa_export_key pf (storage_uid ctx) SIZEOF_U64 p) = PSA_SUCCESS"
    using export_succeeds [OF d, of SIZEOF_U64] by (simp add: counter_readable_def SIZEOF_U64_def)
  then obtain tmp q where "psa_export_key pf (storage_uid ctx) SIZEOF_U64 p = (PSA_SUCCESS, tmp, q)"
    by (metis prod.collapse)
  then show ?thesis by (simp add: crypto_secure_counter_init_def)
qed

text \<open>Both parts of \<open>main\<close> after the counter.\<close>

lemma flash_advertiser_ok:
  assumes "keys \<noteq> []" and "length keys \<le> 65536" and "\<forall>k \<in> set keys. length k = MAC_LEN"
  shows "\<exists>p'. flash_advertiser pf keys p = (PSA_SUCCESS, p') \<and> key_is (key_of p') (ADVERTISER_KEY_ID pf) (keys ! 0) \<and>
    (\<forall>d. 0 < d \<and> d < length keys \<longrightarrow> key_is (key_of p') (flashed_id pf d) (keys ! d)) \<and>
    key_of p' (COUNTER_ID pf) = key_of p (COUNTER_ID pf)"
proof -
  have "keys ! 0 \<in> set keys" using assms(1) by simp
  then have k0: "take KEY_LEN (keys ! 0) = keys ! 0" using assms(3) by (auto simp: crypto_sizes)
  obtain q a where r: "recreate_key pf (ADVERTISER_KEY_ID pf) (net_buf_simple_init_with_data pf (keys ! 0)) p = (PSA_SUCCESS, q)"
    and q: "signing_key a" "key_of q = (key_of p)(ADVERTISER_KEY_ID pf \<mapsto> (a, keys ! 0))"
    by (rule recreate_with)
  from flash_scanner_keys_ok [of 1 "drop 1 keys" q] assms obtain p' where
    f: "flash_scanner_keys pf (drop 1 keys) 1 q = (PSA_SUCCESS, p')"
    and keys: "\<forall>j < length (drop 1 keys). key_is (key_of p') (flashed_id pf (1 + j)) (drop 1 keys ! j)"
    and rest: "\<forall>kid. kid \<notin> flashed_id pf ` {1 ..< 1 + length (drop 1 keys)} \<longrightarrow> key_of p' kid = key_of q kid"
    by (auto dest!: in_set_dropD)
  have other: "kid \<notin> flashed_id pf ` {1 ..< 1 + length (drop 1 keys)}" if "unat kid < 3 \<or> 65538 < unat kid" for kid
  proof
    assume "kid \<in> flashed_id pf ` {1 ..< 1 + length (drop 1 keys)}"
    then obtain x where "1 \<le> x" "x \<le> 65536" "kid = flashed_id pf x" using assms(1,2) by auto
    with unat_flashed_id [OF user_min, of x] that show False by auto
  qed
  have ids: "unat (ADVERTISER_KEY_ID pf) < 3" "65538 < unat (COUNTER_ID pf)" "ADVERTISER_KEY_ID pf \<noteq> COUNTER_ID pf"
    using fixed_ids [OF user_min] by auto
  have "key_is (key_of p') (ADVERTISER_KEY_ID pf) (keys ! 0)"
    using rest other [of "ADVERTISER_KEY_ID pf"] ids(1) q by (simp add: key_is_def)
  moreover have "key_of p' (COUNTER_ID pf) = key_of p (COUNTER_ID pf)"
    using rest other [of "COUNTER_ID pf"] ids q by simp
  moreover have "key_is (key_of p') (flashed_id pf d) (keys ! d)" if "0 < d" "d < length keys" for d
    using keys [rule_format, of "d - 1"] that by simp
  ultimately show ?thesis
    using r f k0 by (simp add: flash_advertiser_def)
qed

lemma flash_scanner_ok:
  assumes "0 < d" and "d < length keys" and "\<forall>k \<in> set keys. length k = MAC_LEN"
  shows "\<exists>p'. flash_scanner pf keys d p = (PSA_SUCCESS, p') \<and> key_is (key_of p') (ADVERTISER_KEY_ID pf) (keys ! 0) \<and>
    key_is (key_of p') (MIN_SCANNER_KEY_ID pf) (keys ! d) \<and> key_of p' (COUNTER_ID pf) = key_of p (COUNTER_ID pf)"
proof -
  have "keys ! 0 \<in> set keys" "keys ! d \<in> set keys" using assms(1,2) by (auto intro!: nth_mem)
  then have k: "take MAC_LEN (keys ! 0) = keys ! 0" "take MAC_LEN (keys ! d) = keys ! d" using assms(3) by auto
  obtain q a where r: "recreate_key pf (ADVERTISER_KEY_ID pf) (net_buf_simple_init_with_data pf (keys ! 0)) p = (PSA_SUCCESS, q)"
    and q: "signing_key a" "key_of q = (key_of p)(ADVERTISER_KEY_ID pf \<mapsto> (a, keys ! 0))"
    by (rule recreate_with)
  obtain p' b where r': "recreate_key pf (MIN_SCANNER_KEY_ID pf) (net_buf_simple_init_with_data pf (keys ! d)) q = (PSA_SUCCESS, p')"
    and p': "signing_key b" "key_of p' = (key_of q)(MIN_SCANNER_KEY_ID pf \<mapsto> (b, keys ! d))"
    by (rule recreate_with)
  have "ADVERTISER_KEY_ID pf \<noteq> MIN_SCANNER_KEY_ID pf" "COUNTER_ID pf \<noteq> ADVERTISER_KEY_ID pf" "COUNTER_ID pf \<noteq> MIN_SCANNER_KEY_ID pf"
    using fixed_ids [OF user_min] by auto
  with q p' r r' k show ?thesis
    by (simp add: flash_scanner_def key_is_def)
qed

text \<open>What a flashed device has: its counter at 0 and its keys.\<close>

lemma flasher_main_ok:
  assumes readable: "counter_readable (key_of (psa_store dev)) (COUNTER_ID pf)"
    and keys: "d < length keys" "length keys \<le> 65536" "\<forall>k \<in> set keys. length k = MAC_LEN"
  shows "\<exists>dev'. flasher_main pf keys d dev = Some (Flashed, dev') \<and>
    (\<exists>a. psa_key_usage_flags a = PSA_KEY_USAGE_EXPORT \<and>
      key_of (psa_store dev') (COUNTER_ID pf) = Some (a, le_bytes 4 (0 :: u64))) \<and>
    key_is (key_of (psa_store dev')) (ADVERTISER_KEY_ID pf) (keys ! 0) \<and>
    (if d = 0 then \<forall>e. 0 < e \<and> e < length keys \<longrightarrow> key_is (key_of (psa_store dev')) (flashed_id pf e) (keys ! e)
     else key_is (key_of (psa_store dev')) (MIN_SCANNER_KEY_ID pf) (keys ! d))"
proof -
  obtain e p1 where i: "psa_crypto_init pf (psa_store dev) = (e, p1)" by (metis prod.exhaust)
  have p1: "e = PSA_SUCCESS" "key_of p1 = key_of (psa_store dev)"
    using init_succeeds [of "psa_store dev"] init_keys [OF i] i by simp_all
  let ?ctx = "\<lparr>cc_value = 0, storage_uid = COUNTER_ID pf\<rparr>"
  from counter_init_readable [of p1 ?ctx] readable p1 obtain c p2 where
    ci: "crypto_secure_counter_init pf ?ctx p1 = (PSA_SUCCESS, c, p2)" and uid: "storage_uid c = COUNTER_ID pf"
    by auto
  obtain p3 where cc: "crypto_secure_counter_commit pf (c\<lparr>cc_value := 0\<rparr>) p2 = (PSA_SUCCESS, p3)"
    using commit_succeeds by blast
  from commit_ok [OF cc] uid obtain a where
    a: "psa_key_usage_flags a = PSA_KEY_USAGE_EXPORT" "key_of p3 (COUNTER_ID pf) = Some (a, le_bytes 4 (0 :: u64))"
    by auto
  note steps = flasher_main_def crypto_init_def i p1 ci cc Let_def
  show ?thesis
  proof (cases "d = 0")
    case True
    with keys have "keys \<noteq> []" by auto
    from flash_advertiser_ok [OF this keys(2,3), of p3] True a keys show ?thesis
      by (fastforce simp: steps)
  next
    case False
    from flash_scanner_ok [OF _ keys(1,3), of p3] False a keys show ?thesis
      by (fastforce simp: steps)
  qed
qed

end

lemma flashed_is_scanner_key:
  assumes "psa_key_id_user_min pf = 1" and "d < 65536"
  shows "flashed_id pf d = scanner_key_id pf (of_nat d)"
  using unat_flashed_id [OF assms(1), of d] unat_scanner_key_id [OF assms(1), of "of_nat d"] assms(2)
  by (simp add: word_unat_eq_iff unat_of_nat)

end
