(* ===== verification/Flashed.thy ===== *)
theory Flashed
  imports Session Fleet Scanner_Data Advertiser_Start Flasher
begin

text \<open>
  Devices that were flashed from the same list of keys, after any run of their programs: they are
  pairs that can talk, and any number of them form a network.
\<close>

section \<open>Provisioning\<close>

text \<open>Flashing the advertiser and a scanner from the same list of keys gives them what the
  protocol needs: the advertiser has its own key and, under the id it looks for device \<open>d\<close>, the
  key of scanner \<open>d\<close>; the scanner has the same two, and both have stored the counter 0.\<close>

lemma flashed_devices_share_keys:
  assumes "pawr_reliable pf key_of mac" and "pawr_reliable pf' key_of' mac"
    and "counter_readable (key_of (psa_store adv)) (COUNTER_ID pf)" and "counter_readable (key_of' (psa_store sc)) (COUNTER_ID pf')"
    and "0 < d" and "d < length keys" and "length keys \<le> 65536" and "\<forall>k \<in> set keys. length k = MAC_LEN"
  shows "\<exists>adv' sc' ca cs. flasher_main pf keys 0 adv = Some (Flashed, adv') \<and> flasher_main pf' keys d sc = Some (Flashed, sc') \<and>
    key_is (key_of (psa_store adv')) (ADVERTISER_KEY_ID pf) (keys ! 0) \<and>
    key_is (key_of (psa_store adv')) (scanner_key_id pf (of_nat d)) (keys ! d) \<and>
    key_is (key_of' (psa_store sc')) (ADVERTISER_KEY_ID pf') (keys ! 0) \<and>
    key_is (key_of' (psa_store sc')) (MIN_SCANNER_KEY_ID pf') (keys ! d) \<and>
    key_of (psa_store adv') (COUNTER_ID pf) = Some (ca, le_bytes 4 (0 :: u64)) \<and> psa_key_usage_flags ca = PSA_KEY_USAGE_EXPORT \<and>
    key_of' (psa_store sc') (COUNTER_ID pf') = Some (cs, le_bytes 4 (0 :: u64)) \<and> psa_key_usage_flags cs = PSA_KEY_USAGE_EXPORT"
proof -
  have min: "psa_key_id_user_min pf = 1" by (rule reliable_user_min [OF assms(1)])
  have d: "0 < length keys" "d \<noteq> 0" using assms(5,6) by linarith+
  from pawr_reliable.flasher_main_ok [OF assms(1,3) d(1) assms(7,8)] obtain adv' ca where adv':
    "flasher_main pf keys 0 adv = Some (Flashed, adv')" "key_is (key_of (psa_store adv')) (ADVERTISER_KEY_ID pf) (keys ! 0)"
    "\<forall>e. 0 < e \<and> e < length keys \<longrightarrow> key_is (key_of (psa_store adv')) (flashed_id pf e) (keys ! e)"
    "key_of (psa_store adv') (COUNTER_ID pf) = Some (ca, le_bytes 4 (0 :: u64))" "psa_key_usage_flags ca = PSA_KEY_USAGE_EXPORT"
    by auto
  from pawr_reliable.flasher_main_ok [OF assms(2,4,6,7,8)] d(2) obtain sc' cs where sc':
    "flasher_main pf' keys d sc = Some (Flashed, sc')" "key_of' (psa_store sc') (COUNTER_ID pf') = Some (cs, le_bytes 4 (0 :: u64))"
    "psa_key_usage_flags cs = PSA_KEY_USAGE_EXPORT"
    "key_is (key_of' (psa_store sc')) (ADVERTISER_KEY_ID pf') (keys ! 0)"
    "key_is (key_of' (psa_store sc')) (MIN_SCANNER_KEY_ID pf') (keys ! d)"
    by auto
  from adv' sc' assms(5-7) flashed_is_scanner_key [OF min, of d] show ?thesis by auto
qed

text \<open>Wherever the two have come to after that, they are a pair that can talk.\<close>

lemma flashed_pair:
  assumes "pawr_reliable pf key_of mac" and "pawr_reliable pf' key_of' mac"
    and "counter_readable (key_of (psa_store adv)) (COUNTER_ID pf)" and "counter_readable (key_of' (psa_store sc)) (COUNTER_ID pf')"
    and "0 < d" and "d < length keys" and "length keys \<le> 65536" and "\<forall>k \<in> set keys. length k = MAC_LEN"
    and "flasher_main pf keys 0 adv = Some (ra, adv')" and "flasher_main pf' keys d sc = Some (rs, sc')"
    and "\<forall>e \<in> set es. event_ok e" and "s = fold (run_event pf) es (started pf (psa_store adv'))"
    and "sc_reach pf' (of_nat d) (psa_store sc') t" and "slot_in_range t" and "cc_value (sc_counter t) \<le> next_counter s"
    and "lk_sub l < MAX_NUM_SUBEVENTS" and "recv_subevent (lk_info l) = of_nat (lk_sub l)"
  shows "radio_pair pf key_of pf' key_of' mac (key_of (psa_store adv')) (key_of' (psa_store sc')) (keys ! 0) (keys ! d) (of_nat d) l"
    and "linked key_of (key_of (psa_store adv')) (mac (keys ! 0)) key_of' (key_of' (psa_store sc')) (of_nat d) s t"
proof -
  have pf: "pawr_platform pf key_of mac" "pawr_platform pf' key_of' mac" using assms(1,2) by (simp_all add: pawr_reliable_def)
  from flashed_devices_share_keys [OF assms(1-8)] assms(9,10) obtain ca cs where keys:
    "key_is (key_of (psa_store adv')) (ADVERTISER_KEY_ID pf) (keys ! 0)"
    "key_is (key_of (psa_store adv')) (scanner_key_id pf (of_nat d)) (keys ! d)"
    "key_is (key_of' (psa_store sc')) (ADVERTISER_KEY_ID pf') (keys ! 0)"
    "key_is (key_of' (psa_store sc')) (MIN_SCANNER_KEY_ID pf') (keys ! d)"
    "key_of (psa_store adv') (COUNTER_ID pf) = Some (ca, le_bytes 4 (0 :: u64))"
    "key_of' (psa_store sc') (COUNTER_ID pf') = Some (cs, le_bytes 4 (0 :: u64))"
    by auto
  have d: "of_nat d \<noteq> (0 :: u16)"
    using assms(5-7) by (simp add: word_unat_eq_iff unat_of_nat)
  show "radio_pair pf key_of pf' key_of' mac (key_of (psa_store adv')) (key_of' (psa_store sc')) (keys ! 0) (keys ! d) (of_nat d) l"
    by (intro radio_pair.intro radio_pair_axioms.intro assms(1,2,16,17) keys d)
  obtain c where "adv_sim key_of (key_of (psa_store adv')) (mac (keys ! 0)) (started pf (psa_store adv')) (start_abs c)"
    using pawr_platform.adv_init_sim [OF pf(1) keys(5)] by blast
  from run_sim [OF assms(1) keys(1) this start_abs_sent assms(11)]
  have "\<exists>a. adv_sim key_of (key_of (psa_store adv')) (mac (keys ! 0)) s a"
    by (auto simp: assms(12))
  moreover have "sc_inv (of_nat d) t" using pawr_platform.reach_responses [OF pf(2) assms(13)] by simp
  moreover have "key_of' (psa_store t) = key_of' (psa_store sc')"
    using pawr_platform.sc_reach_stores [OF pf(2) assms(13) keys(6)] by (simp add: stores_def)
  ultimately show "linked key_of (key_of (psa_store adv')) (mac (keys ! 0)) key_of' (key_of' (psa_store sc')) (of_nat d) s t"
    using assms(14,15) by (simp add: linked_def)
qed

section \<open>Flashed stations\<close>

text \<open>A scanner that has just entered the wait for the confirmation of its slot.\<close>

definition confirming_now :: "'q scanner \<Rightarrow> bool" where
  "confirming_now t \<longleftrightarrow> sc_at t = Confirming_wait \<and> recv t = Confirm_recv \<and> unconfirmed_ticks t = 0 \<and> listening t \<and>
     slot_in_range t \<and> sem_count (synced_evt_sem t) = 0 \<and> sem_count (synced_sem t) = 0"

text \<open>A station whose device was flashed as scanner \<open>d\<close> and has booted with that id, wherever it
  has come to.\<close>

definition flashed_station ::
    "('q \<Rightarrow> psa_key_id_t \<Rightarrow> stored_key option) \<Rightarrow> (byte list \<Rightarrow> byte list \<Rightarrow> byte list) \<Rightarrow> byte list list \<Rightarrow> 'q station \<Rightarrow> bool" where
  "flashed_station key_of mac keys q \<longleftrightarrow> pawr_reliable (st_platform q) key_of mac \<and>
     lk_sub (st_link q) < MAX_NUM_SUBEVENTS \<and> recv_subevent (lk_info (st_link q)) = of_nat (lk_sub (st_link q)) \<and>
     (\<exists>d dev r dev'. 0 < d \<and> d < length keys \<and> st_id q = of_nat d \<and>
        counter_readable (key_of (psa_store dev)) (COUNTER_ID (st_platform q)) \<and>
        flasher_main (st_platform q) keys d dev = Some (r, dev') \<and> sc_reach (st_platform q) (st_id q) (psa_store dev') (st_dev q))"

lemma confirming_station_ok:
  assumes "radio_pair pf key_of (st_platform q) key_of' mac keys keys' ka ks (st_id q) (st_link q)"
    and "linked key_of keys (mac ka) key_of' keys' (st_id q) s (st_dev q)"
    and "sc_reach (st_platform q) (st_id q) p (st_dev q)" and "confirming_now (st_dev q)" and "view_at s (station_slot q) = Free"
  shows "station_ok pf key_of key_of' mac keys ka s q (Asking True 0)"
proof -
  have pf: "pawr_platform (st_platform q) key_of' mac" using radio_pair.rel(2) [OF assms(1)] by (simp add: pawr_reliable_def)
  from pawr_platform.reach_data [OF pf assms(3)] assms(4) have "\<not> timer_running (zlog (st_dev q))"
    by (simp add: sc_inv_def data_inv_def confirming_now_def)
  with assms(4) have "expects True 0 (st_dev q)" "sem_count (synced_sem (st_dev q)) = 0"
    by (simp_all add: confirming_now_def expects_def wait_point_def waits_def)
  moreover have "unheard (st_id q) (view_at s (station_slot q))" by (simp add: assms(5) unheard_def)
  ultimately show ?thesis using pf assms(1,2) by (auto simp: station_ok_def)
qed

lemma flashed_station_ok:
  assumes "pawr_reliable pf key_of mac" and "counter_readable (key_of (psa_store adv)) (COUNTER_ID pf)"
    and "length keys \<le> 65536" and "\<forall>k \<in> set keys. length k = MAC_LEN" and "flasher_main pf keys 0 adv = Some (ra, adv')"
    and "\<forall>e \<in> set es. event_ok e" and "s = fold (run_event pf) es (started pf (psa_store adv'))"
    and "flashed_station key_of' mac keys q" and "confirming_now (st_dev q)" and "cc_value (sc_counter (st_dev q)) \<le> next_counter s"
    and "view_at s (station_slot q) = Free"
  shows "station_ok pf key_of key_of' mac (key_of (psa_store adv')) (keys ! 0) s q (Asking True 0)"
proof -
  from assms(8) obtain d dev r dev' where d: "0 < d" "d < length keys" "st_id q = of_nat d"
      "counter_readable (key_of' (psa_store dev)) (COUNTER_ID (st_platform q))"
      "flasher_main (st_platform q) keys d dev = Some (r, dev')" "sc_reach (st_platform q) (st_id q) (psa_store dev') (st_dev q)"
    and q: "pawr_reliable (st_platform q) key_of' mac" "lk_sub (st_link q) < MAX_NUM_SUBEVENTS"
      "recv_subevent (lk_info (st_link q)) = of_nat (lk_sub (st_link q))"
    by (auto simp: flashed_station_def)
  have t: "slot_in_range (st_dev q)" using assms(9) by (simp add: confirming_now_def)
  note pair = flashed_pair [OF assms(1) q(1) assms(2) d(4,1,2) assms(3-5) d(5) assms(6,7) d(6) [unfolded d(3)] t assms(10) q(2,3), folded d(3)]
  show ?thesis by (rule confirming_station_ok [OF pair d(6) assms(9,11)])
qed

lemma flashed_fleet_ok:
  assumes "pawr_reliable pf key_of mac" and "counter_readable (key_of (psa_store adv)) (COUNTER_ID pf)"
    and "keys \<noteq> []" and "length keys \<le> 65536" and "\<forall>k \<in> set keys. length k = MAC_LEN" and "flasher_main pf keys 0 adv = Some (ra, adv')"
    and "\<forall>e \<in> set es. event_ok e" and "s = fold (run_event pf) es (started pf (psa_store adv'))"
    and "\<forall>q \<in> set qs. flashed_station key_of' mac keys q \<and> confirming_now (st_dev q) \<and>
      cc_value (sc_counter (st_dev q)) \<le> next_counter s \<and> view_at s (station_slot q) = Free"
    and "distinct (map station_slot qs)"
  shows "key_is (key_of (psa_store adv')) (ADVERTISER_KEY_ID pf) (keys ! 0)"
    and "fleet_ok pf key_of key_of' mac (key_of (psa_store adv')) (keys ! 0) s qs (replicate (length qs) (Asking True 0))"
proof -
  have "0 < length keys" using assms(3) by simp
  from pawr_reliable.flasher_main_ok [OF assms(1,2) this assms(4,5)] assms(6) obtain ca where
    k: "key_is (key_of (psa_store adv')) (ADVERTISER_KEY_ID pf) (keys ! 0)"
      "key_of (psa_store adv') (COUNTER_ID pf) = Some (ca, le_bytes 4 (0 :: u64))"
    by auto
  then show "key_is (key_of (psa_store adv')) (ADVERTISER_KEY_ID pf) (keys ! 0)" by simp
  have pf: "pawr_platform pf key_of mac" using assms(1) by (simp add: pawr_reliable_def)
  obtain c where "adv_sim key_of (key_of (psa_store adv')) (mac (keys ! 0)) (started pf (psa_store adv')) (start_abs c)"
    using pawr_platform.adv_init_sim [OF pf k(2)] by blast
  from run_sim [OF assms(1) k(1) this start_abs_sent assms(7)]
  have "\<exists>a. adv_sim key_of (key_of (psa_store adv')) (mac (keys ! 0)) s a" by (auto simp: assms(8))
  moreover have "station_ok pf key_of key_of' mac (key_of (psa_store adv')) (keys ! 0) s (qs ! n) (Asking True 0)" if "n < length qs" for n
    by (rule flashed_station_ok [OF assms(1,2,4-8)]) (use bspec [OF assms(9) nth_mem [OF that]] in simp_all)
  moreover have "station_slot (qs ! m) \<noteq> station_slot (qs ! n)" if "m < length qs" "n < length qs" "m \<noteq> n" for m n
    using assms(10) that by (simp add: distinct_conv_nth)
  ultimately show "fleet_ok pf key_of key_of' mac (key_of (psa_store adv')) (keys ! 0) s qs (replicate (length qs) (Asking True 0))"
    by (simp add: fleet_ok_def)
qed

section \<open>A scanner that waits for its confirmation, for the witnesses\<close>

definition demo_link :: link where
  "demo_link = \<lparr>lk_sub = 0, lk_sync = 3, lk_info = \<lparr>recv_subevent = 0, periodic_event_counter = 9\<rparr>, lk_rssi = 0\<rparr>"

text \<open>A scanner that boots, synchronises and waits for its confirmation.\<close>

definition parsing_demo :: "(byte list \<Rightarrow> bt_data list) \<Rightarrow> key_map platform" where
  "parsing_demo f = store_platform demo_hash (\<lambda>l c. 0) (\<lambda>l. of_nat (length l)) f"

lemma parsing_demo_reliable: "pawr_reliable (parsing_demo f) (\<lambda>p. p) (mac32 demo_hash)"
  unfolding parsing_demo_def by (rule ref_platform.pawr_reliable_axioms)

lemma parsing_demo_simps [simp]:
  "bt_data_parse_elems (parsing_demo f) = f" "zephyr_ret (parsing_demo f) l c = 0"
  "psa_crypto_init (parsing_demo f) = (\<lambda>p. (PSA_SUCCESS, p))" "psa_export_key (parsing_demo f) = store_export_key"
  by (simp_all add: parsing_demo_def store_platform_def)

lemma demo_parses_nothing: "demo = parsing_demo (\<lambda>m. [])"
  by (simp add: demo_def parsing_demo_def)

lemma demo_init_resume:
  assumes "p (COUNTER_ID (parsing_demo f)) = Some (a, le_bytes 4 (0 :: u64))" and "psa_key_usage_flags a = PSA_KEY_USAGE_EXPORT"
  shows "\<exists>s. sc_main (parsing_demo f) (init_enter (sc_boot (parsing_demo f) i p)) = Some s \<and> sc_state s = SYNCING \<and> sc_at s = At_run \<and>
    synced_sem s = new_sem \<and> synced_evt_sem s = new_sem \<and> selected_slot s = \<lparr>subevent = 0, rsp_slot = 0\<rparr> \<and> cc_value (sc_counter s) = 0"
proof -
  let ?pf = "parsing_demo f"
  let ?s = "init_enter (sc_boot ?pf i p)"
  have s: "psa_store ?s = p" "sc_counter ?s = \<lparr>cc_value = 0, storage_uid = COUNTER_ID ?pf\<rparr>" "selected_slot ?s = \<lparr>subevent = 0, rsp_slot = 0\<rparr>"
    by (simp_all add: init_enter_def sc_boot_def sc_wait_def zephyr_do_def)
  obtain l where l: "snd (init_led ?pf led2 ?s) = ?s\<lparr>zlog := l\<rparr>"
    using init_led_log [of ?pf led2 ?s] by auto
  have i: "crypto_init ?pf p = (PSA_SUCCESS, p)" by (simp add: crypto_init_def)
  obtain c where ci: "crypto_secure_counter_init ?pf (sc_counter ?s) p = (PSA_SUCCESS, c, p)" and c: "cc_value c = 0"
    using assms by (simp add: crypto_secure_counter_init_def s(2) store_export_key_def SIZEOF_U64_def store_le_bytes_0)
  have "sc_main ?pf ?s = Some (init_resume ?pf ?s)" "synced_sem ?s = new_sem" "synced_evt_sem ?s = new_sem"
    by (simp_all add: sc_main_def init_enter_def sc_boot_def zephyr_do_def sc_wait_def)
  with i ci c show ?thesis
    by (simp add: init_resume_def Let_def split_beta l s(1,3) zephyr_call_def zephyr_do_def sc_return_def)
qed

lemma demo_syncing:
  assumes "p (COUNTER_ID (parsing_demo f)) = Some (a, le_bytes 4 (0 :: u64))" and "psa_key_usage_flags a = PSA_KEY_USAGE_EXPORT"
  shows "\<exists>t. sc_reach (parsing_demo f) i p t \<and> sc_state t = SYNCING \<and> sc_at t = Syncing_wait \<and> synced_sem t = new_sem \<and>
    synced_evt_sem t = new_sem \<and> selected_slot t = \<lparr>subevent = 0, rsp_slot = 0\<rparr> \<and> cc_value (sc_counter t) = 0"
proof -
  let ?pf = "parsing_demo f"
  from demo_init_resume [where p = p, OF assms, of i] obtain s2 where "sc_main ?pf (init_enter (sc_boot ?pf i p)) = Some s2" and
    s2: "sc_state s2 = SYNCING" "sc_at s2 = At_run" "synced_sem s2 = new_sem" "synced_evt_sem s2 = new_sem"
      "selected_slot s2 = \<lparr>subevent = 0, rsp_slot = 0\<rparr>" "cc_value (sc_counter s2) = 0"
    by blast
  then have r2: "sc_reach ?pf i p s2" by (blast intro: sc_reach_step reach_init_enter step_main)
  have "sc_main ?pf s2 = Some (syncing_enter ?pf s2)" by (simp add: sc_main_def s2 sc_run_state_def)
  from sc_reach_step [OF r2 step_main [OF this]] have "sc_reach ?pf i p (syncing_enter ?pf s2)" .
  then show ?thesis
    by (intro exI [of _ "syncing_enter ?pf s2"]) (simp add: syncing_enter_def s2 zephyr_call_def zephyr_do_def sc_wait_def Let_def)
qed

lemma demo_confirming:
  assumes "p (COUNTER_ID demo) = Some (a, le_bytes 4 (0 :: u64))" and "psa_key_usage_flags a = PSA_KEY_USAGE_EXPORT"
  shows "\<exists>t. sc_reach demo i p t \<and> confirming_now t \<and> selected_slot t = \<lparr>subevent = 0, rsp_slot = 0\<rparr> \<and> cc_value (sc_counter t) = 0"
proof -
  from demo_syncing [of p "\<lambda>m. []" a i] assms obtain s3 where r3: "sc_reach demo i p s3" and
    s3: "sc_state s3 = SYNCING" "sc_at s3 = Syncing_wait" "synced_sem s3 = new_sem" "synced_evt_sem s3 = new_sem"
      "selected_slot s3 = \<lparr>subevent = 0, rsp_slot = 0\<rparr>" "cc_value (sc_counter s3) = 0"
    by (auto simp flip: demo_parses_nothing)
  have ok: "zephyr_ret demo l' c' = 0" for l' c' by (simp add: demo_def store_platform_def)
  let ?info = "\<lparr>scan_addr = Some [1, 2, 3, 4, 5, 6], scan_ext_adv = True, scan_interval = 2000, scan_sid = 0\<rparr>"
  have p: "bt_data_parse_elems demo [] = []" by (simp add: demo_def store_platform_def)
  obtain s4 where "scan_recv_cb demo (Some ?info) [] s3 = Some s4" and
    s4: "sc_state s4 = SYNCING" "sc_at s4 = Syncing_wait" "synced_sem s4 = \<lparr>sem_count = 1, sem_limit = 1\<rparr>"
      "selected_slot s4 = \<lparr>subevent = 0, rsp_slot = 0\<rparr>" "cc_value (sc_counter s4) = 0" "receiving (zlog s4)"
      "default_sync s4 \<noteq> None" "synced_evt_sem s4 = new_sem"
    using s3 by (simp add: scan_recv_cb_def p zephyr_call_def ok Let_def zephyr_sem.sem_give [OF demo_sem] new_sem_def)
  with r3 have r4: "sc_reach demo i p s4" by (blast intro: sc_reach_step step_scan)
  obtain x where "syncing_resume demo s4 = Some (sc_return CONFIRMING (s4\<lparr>synced_sem := x\<rparr>))" and x: "sem_count x = 0"
    by (rule that [of "k_sem_reset demo \<lparr>sem_count = 0, sem_limit = 1\<rparr>"])
       (simp_all add: syncing_resume_def zephyr_sem.sem_take [OF demo_sem] zephyr_sem.sem_reset [OF demo_sem] s4(3))
  with s4(2) have "sc_main demo s4 = Some (sc_return CONFIRMING (s4\<lparr>synced_sem := x\<rparr>))" by (simp add: sc_main_def)
  from sc_reach_step [OF r4 step_main [OF this]] have r5: "sc_reach demo i p (sc_return CONFIRMING (s4\<lparr>synced_sem := x\<rparr>))" .
  let ?s6 = "confirming_enter (sc_return CONFIRMING (s4\<lparr>synced_sem := x\<rparr>))"
  have "sc_main demo (sc_return CONFIRMING (s4\<lparr>synced_sem := x\<rparr>)) = Some ?s6"
    by (simp add: sc_main_def sc_run_state_def)
  from sc_reach_step [OF r5 step_main [OF this]] have r6: "sc_reach demo i p ?s6" .
  have "sc_main demo ?s6 = Some (confirming_start ?s6)"
    by (simp add: sc_main_def confirming_enter_def Let_def)
  from sc_reach_step [OF r6 step_main [OF this]] have r7: "sc_reach demo i p (confirming_start ?s6)" .
  show ?thesis
    by (intro exI [of _ "confirming_start ?s6"] conjI r7)
       (simp_all add: confirming_now_def listening_def slot_in_range_def SCANNER_RSP_SLOTS_def confirming_start_def confirming_enter_def sc_wait_def sc_return_def zephyr_do_def s4 x new_sem_def Let_def)
qed

lemma flashed_devices_share_keys_example:
  "\<exists>adv' sc'. flasher_main demo [demo_key 4, demo_key 5, demo_key 6] 0 \<lparr>psa_store = Map.empty, zlog = []\<rparr> = Some (Flashed, adv') \<and>
    flasher_main demo [demo_key 4, demo_key 5, demo_key 6] 2 \<lparr>psa_store = Map.empty, zlog = []\<rparr> = Some (Flashed, sc') \<and>
    key_is (psa_store adv') (scanner_key_id demo 2) (demo_key 6) \<and> key_is (psa_store sc') (MIN_SCANNER_KEY_ID demo) (demo_key 6)"
  using flashed_devices_share_keys [OF demo_reliable demo_reliable,
    of "\<lparr>psa_store = Map.empty, zlog = []\<rparr>" "\<lparr>psa_store = Map.empty, zlog = []\<rparr>" 2 "[demo_key 4, demo_key 5, demo_key 6]"]
  by (auto simp: counter_readable_def demo_key_def MAC_LEN_def)

end
