(* ===== verification/Joining.thy ===== *)
theory Joining
  imports Flashed Slot_Allocation
begin

text \<open>
  How a new device finds its slot: what the advertiser advertises, what a scanning device makes of
  it, and why the slot it picks is free.
\<close>

section \<open>The advertised slots\<close>

text \<open>A slot that is advertised exists and is free, while few enough slots have been handed out.\<close>

lemma advertised_slot_free:
  assumes sim: "adv_sim key_of keys tag s a" and ok: "alloc_ok a" and few: "slot_number (a_next a) \<le> NUM_RSP_SLOTS * MAX_NUM_SUBEVENTS"
    and d: "d \<in> set (register_subevent_data s)"
  shows "slot_exists (unat (subevent d), unat (rsp_slot d))" and "view_at s (unat (subevent d), unat (rsp_slot d)) = Free"
proof -
  let ?sub = "unat (subevent d)" and ?j = "unat (rsp_slot d)"
  have "d \<in> set (a_regs a)" using sim d by (simp add: adv_sim_def)
  then have ix: "slot_ix d" "slot_ix (a_next a)" "d < a_next a" "d \<notin> held_slots a"
    using ok by (auto simp: alloc_ok_def)
  then have "slot_number d < NUM_RSP_SLOTS * MAX_NUM_SUBEVENTS" using slot_number_less few by fastforce
  moreover have "NUM_RSP_SLOTS * ?sub \<le> slot_number d" by (simp add: slot_number_def)
  ultimately have "NUM_RSP_SLOTS * ?sub < NUM_RSP_SLOTS * MAX_NUM_SUBEVENTS" by (rule le_less_trans [rotated])
  then have sub: "?sub < MAX_NUM_SUBEVENTS" by simp
  have j: "?j < NUM_RSP_SLOTS" using ix(1) by (simp add: slot_ix_def)
  with sub show "slot_exists (?sub, ?j)" by (simp add: slot_exists_def)
  have "slot_id ?sub ?j = d" by (simp add: slot_id_def)
  with ix(4) held_iff [OF sub j, of a] have "a_slots a ! ?sub ! ?j = Free" by simp
  with sim_slot [OF sim sub j] show "view_at s (?sub, ?j) = Free" by (simp add: view_at_def)
qed

lemma orderly_event_ok: "orderly_run pf mac keys es s \<Longrightarrow> e \<in> set es \<Longrightarrow> event_ok e"
proof (induction es arbitrary: s)
  case (Cons x es)
  then show ?case by (cases x) auto
qed simp

text \<open>What \<open>set_adv_data\<close> signs after \<open>init\<close>: the register slots, their number and the counter. If
  the buffer had room for it, this is what the host would be given.\<close>

definition advertised :: "'p advertiser \<Rightarrow> byte list" where
  "advertised s = (regs_wire (register_subevent_data s) @ [of_nat CONFIG_NUM_REGISTER_SLOTS]) @ le_bytes 8 (cc_value (counter s))"

lemma set_adv_data_sends:
  assumes "pawr_reliable pf key_of mac" and "key_is (key_of (psa_store s)) (ADVERTISER_KEY_ID pf) ka"
    and "adv_inv s" and "num_reg_slots (selection_data s) = of_nat CONFIG_NUM_REGISTER_SLOTS" and "51 \<le> length (nb_buf (adv_data s))"
  shows "zlog (snd (set_adv_data pf s)) = zlog s @ [Bt_le_ext_adv_set_data
    [\<lparr>bt_data_type = BT_DATA_FLAGS, bt_data_data = [adv_flags]\<rparr>,
     \<lparr>bt_data_type = BT_DATA_MANUFACTURER_DATA, bt_data_data = advertised s @ mac ka (advertised s)\<rparr>]]"
proof -
  let ?d = "\<lparr>reg_data = register_subevent_data s, selection_info = selection_data s, adv_counter = cc_value (counter s)\<rparr>"
  let ?b = "net_buf_simple_reset pf (adv_data s)"
  have nbl: "zephyr_net_buf pf" using assms(1) by (simp add: pawr_reliable_def pawr_platform_def)
  have five: "length (register_subevent_data s) = 5" "unat (of_nat CONFIG_NUM_REGISTER_SLOTS :: u8) = 5"
    using assms(3) by (simp_all add: adv_inv_def CONFIG_NUM_REGISTER_SLOTS_def)
  have wf: "nb_wf ?b" "51 \<le> nb_tailroom ?b" "nb_data ?b = []"
    using zephyr_net_buf.nb_wf_reset [OF nbl] zephyr_net_buf.nb_tailroom_reset [OF nbl] zephyr_net_buf.nb_reset [OF nbl] assms(5)
    by (simp_all add: nb_data_def)
  have wire: "adv_wire ?d @ le_bytes 8 (adv_counter ?d) = advertised s" "length (adv_wire ?d) = 11"
    using five assms(4) by (simp_all add: adv_wire_def advertised_def)
  have ser: "advertisement_data_serialize pf ?d ?b = nb_append ?b (advertised s)"
    using zephyr_net_buf.advertisement_data_serialize_eq [OF nbl wf(1), of ?d] wf(2) wire five assms(4) by simp
  have l: "length (advertised s) = 19" unfolding wire(1) [symmetric] by (simp add: wire(2))
  have b: "nb_wf (nb_append ?b (advertised s))" "nb_data (nb_append ?b (advertised s)) = advertised s" "HASH_LEN \<le> nb_tailroom (nb_append ?b (advertised s))"
    using nb_wf_append [OF wf(1), of "advertised s"] nb_data_append [OF wf(1), of "advertised s"] nb_tailroom_append [OF wf(1), of "advertised s"]
      wf(2,3) l by (simp_all add: HASH_LEN_def)
  from assms(2) obtain x where "key_of (psa_store s) (ADVERTISER_KEY_ID pf) = Some (x, ka)" "signing_key x" by (auto simp: key_is_def)
  from pawr_reliable.sign_signs [OF assms(1) b(1,3) this] obtain p' where
    sg: "sign_message pf (nb_append ?b (advertised s)) (ADVERTISER_KEY_ID pf) (psa_store s)
      = (TRANSFER_NO_ERROR, nb_append (nb_append ?b (advertised s)) (mac ka (advertised s)), p')"
    by (auto simp: b(2))
  have "length (mac ka (advertised s)) = HASH_LEN"
    using reliable_mac_length [OF assms(1)] by (simp add: HASH_LEN_def)
  then have "nb_data (nb_append (nb_append ?b (advertised s)) (mac ka (advertised s))) = advertised s @ mac ka (advertised s)"
    using nb_data_append [OF b(1), of "mac ka (advertised s)"] b(2,3) by simp
  then show ?thesis
    unfolding set_adv_data_def Let_def ser sg by (simp add: zephyr_call_def Let_def)
qed

section \<open>Joining\<close>

text \<open>A scanning device joins: its host reports the advertisement, the main thread goes on to the
  confirmation, the host synchronises meanwhile, and the main thread starts to wait. No message arrives while it sleeps
  before the confirmation: a new device has no callback for it then, and what one does whose callback for acks is still installed
  is shown in \<open>Giving_Up\<close>.\<close>

definition join :: "'q platform \<Rightarrow> bt_le_scan_recv_info \<Rightarrow> byte list \<Rightarrow> sync_ptr \<Rightarrow> 'q scanner \<Rightarrow> 'q scanner option" where
  "join pf info bytes sync t =
     Option.bind (scan_recv_cb pf (Some info) bytes t) (\<lambda>t.
     Option.bind (sc_main pf t) (\<lambda>t.
     Option.bind (sc_main pf t) (\<lambda>t. sc_main pf (sync_cb pf sync t))))"

lemma join_reach:
  assumes "sc_reach pf i p t" and "join pf info bytes sync t = Some t'"
  shows "sc_reach pf i p t'"
proof -
  from assms(2) obtain t1 t2 t3 where
    s: "scan_recv_cb pf (Some info) bytes t = Some t1" "sc_main pf t1 = Some t2" "sc_main pf t2 = Some t3" "sc_main pf (sync_cb pf sync t3) = Some t'"
    by (auto simp: join_def bind_eq_Some_conv)
  have "sc_reach pf i p t1" by (rule sc_reach_step [OF assms(1) step_scan [OF s(1)]])
  from sc_reach_step [OF this step_main [OF s(2)]] have "sc_reach pf i p t2" .
  from sc_reach_step [OF this step_main [OF s(3)]] have "sc_reach pf i p t3" .
  from sc_reach_step [OF this step_synced] have "sc_reach pf i p (sync_cb pf sync t3)" .
  from sc_reach_step [OF this step_main [OF s(4)]] show ?thesis .
qed

text \<open>What the report of the advertisement needs: an extended advertisement of a periodic
  advertiser, with the flags and the signed slots.\<close>

definition reports :: "'q platform \<Rightarrow> bt_le_scan_recv_info \<Rightarrow> byte list \<Rightarrow> byte list \<Rightarrow> bool" where
  "reports pf info bytes m \<longleftrightarrow> scan_addr info \<noteq> None \<and> scan_ext_adv info \<and> scan_interval info \<noteq> 0 \<and>
     bt_data_parse_elems pf bytes = [\<lparr>bt_data_type = BT_DATA_FLAGS, bt_data_data = [adv_flags]\<rparr>,
       \<lparr>bt_data_type = BT_DATA_MANUFACTURER_DATA, bt_data_data = m\<rparr>]"

lemma join_confirming:
  assumes rel: "pawr_reliable pf key_of mac" and inv: "sc_inv i t" and k: "key_is (key_of (psa_store t)) (ADVERTISER_KEY_ID pf) ka"
    and at: "sc_at t = Syncing_wait" "sem_count (synced_sem t) = 0" "sem_count (synced_evt_sem t) = 0"
    and rep: "reports pf info bytes (body @ mac ka body)" and body: "body = (regs_wire rs @ [n]) @ le_bytes 8 c"
    and rs: "length rs = unat n" "n \<noteq> 0" "\<forall>d \<in> set rs. unat (rsp_slot d) < SCANNER_RSP_SLOTS" and c: "cc_value (sc_counter t) \<le> c"
    and ok: "\<forall>l c. zephyr_ret pf l c = 0"
  shows "\<exists>t'. join pf info bytes sync t = Some t' \<and> confirming_now t' \<and> selected_slot t' \<in> set rs \<and> cc_value (sc_counter t') = c"
proof -
  have sem: "zephyr_sem pf" using rel by (simp add: pawr_reliable_def pawr_platform_def)
  note sems = zephyr_sem.sem_give [OF sem] zephyr_sem.sem_take [OF sem] zephyr_sem.sem_reset [OF sem]
  let ?d = "\<lparr>bt_data_type = BT_DATA_MANUFACTURER_DATA, bt_data_data = body @ mac ka body\<rparr>"
  from k obtain x where x: "key_of (psa_store t) (ADVERTISER_KEY_ID pf) = Some (x, ka)" "signing_key x" by (auto simp: key_is_def)
  obtain r p where r: "r \<in> set rs" and parse: "parse_adv_data pf ?d t = Some (False, TRANSFER_NO_ERROR,
      zephyr_do Sys_rand8_get ((sc_with c p t)\<lparr>sel_info := \<lparr>num_reg_slots = n\<rparr>, selected_slot := r\<rparr>))"
    using parse_adv_data_signed [OF rel _ _ body rs(1,2) c x, of ?d] by auto
  let ?u = "zephyr_do Sys_rand8_get ((sc_with c p t)\<lparr>sel_info := \<lparr>num_reg_slots = n\<rparr>, selected_slot := r\<rparr>)"
  have elems: "parse_elems pf (bt_data_parse_elems pf bytes) t = Some (TRANSFER_NO_ERROR, ?u)"
    using rep parse by (simp add: reports_def) (simp add: parse_adv_data_def)
  have lim: "sem_limit (synced_sem t) = 1" using inv by (simp add: sc_inv_def sem_ok_def)
  have st: "sc_state t = SYNCING" using inv at(1) by (simp add: sc_inv_def)
  obtain v where v: "scan_recv_cb pf (Some info) bytes t = Some v" and
    vf: "sc_state v = SYNCING" "sc_at v = Syncing_wait" "synced_sem v = \<lparr>sem_count = 1, sem_limit = 1\<rparr>" "synced_evt_sem v = synced_evt_sem t"
      "selected_slot v = r" "cc_value (sc_counter v) = c" "receiving (zlog v)"
    using rep elems at lim st ok
    by (auto simp: reports_def scan_recv_cb_def zephyr_call_def zephyr_do_def sc_with_def sems receiving_def Let_def)
  let ?w = "sc_return CONFIRMING (v\<lparr>synced_sem := \<lparr>sem_count = 0, sem_limit = 1\<rparr>\<rparr>)"
  have m1: "sc_main pf v = Some ?w"
    using vf by (simp add: sc_main_def syncing_resume_def sems)
  have m2: "sc_main pf ?w = Some (confirming_enter ?w)"
    by (simp add: sc_main_def sc_run_state_def sc_return_def)
  have m3: "sc_main pf (sync_cb pf sync (confirming_enter ?w)) = Some (confirming_start (sync_cb pf sync (confirming_enter ?w)))"
    by (simp add: sc_main_def sync_cb_def confirming_enter_def sc_wait_def zephyr_do_def zephyr_call_def Let_def)
  let ?t' = "confirming_start (sync_cb pf sync (confirming_enter ?w))"
  have "join pf info bytes sync t = Some ?t'" by (simp only: join_def v m1 m2 m3 Option.bind.simps)
  moreover have "confirming_now ?t' \<and> selected_slot ?t' = r \<and> cc_value (sc_counter ?t') = c"
    using vf at(3) rs(3) r
    by (auto simp: confirming_now_def listening_def slot_in_range_def confirming_start_def sync_cb_def confirming_enter_def sc_wait_def
        sc_return_def zephyr_do_def zephyr_call_def Let_def)
  ultimately show ?thesis using r by auto
qed

text \<open>The joined device's radio: it listens to the subevent of its slot.\<close>

definition radio_of :: "'q scanner \<Rightarrow> sync_ptr \<Rightarrow> link" where
  "radio_of t sync = \<lparr>lk_sub = unat (subevent (selected_slot t)), lk_sync = sync,
     lk_info = \<lparr>recv_subevent = subevent (selected_slot t), periodic_event_counter = 0\<rparr>, lk_rssi = 0\<rparr>"

text \<open>C8: a new device joins: when advertiser and scanner have been flashed from the same keys, and the
  scanner scans while the signed advertisement of the current register slots reaches it whole, it
  takes one of these slots, which is free and exists as long as all responses came in slots held or advertised
  and fewer than 4700 of them in slots nobody held, synchronises, and is confirmed as the holder of this slot two
  periods later, unless another device takes the same slot.\<close>

theorem new_device_joins:
  assumes "pawr_reliable pf key_of mac" and "pawr_reliable pf' key_of' mac"
    and "counter_readable (key_of (psa_store adv)) (COUNTER_ID pf)" and "counter_readable (key_of' (psa_store sc)) (COUNTER_ID pf')"
    and "0 < d" and "d < length keys" and "length keys \<le> 65536" and "\<forall>k \<in> set keys. length k = MAC_LEN"
    and "flasher_main pf keys 0 adv = Some (ra, adv')" and "flasher_main pf' keys d sc = Some (rs, sc')"
    and "orderly_run pf mac (key_of (psa_store adv')) es (started pf (psa_store adv'))" and "claims_in pf es (started pf (psa_store adv')) < 4700"
    and "s = fold (run_event pf) es (started pf (psa_store adv'))" and "adv_time s + 5 < 2 ^ 64"
    and "sc_reach pf' (of_nat d) (psa_store sc') t" and "sc_at t = Syncing_wait" and "sem_count (synced_sem t) = 0"
    and "sem_count (synced_evt_sem t) = 0" and "cc_value (sc_counter t) \<le> cc_value (counter s)"
    and "reports pf' info bytes (advertised s @ mac (keys ! 0) (advertised s))" and "\<forall>l c. zephyr_ret pf' l c = 0"
  shows "\<exists>t' s1 t1. join pf' info bytes sync t = Some t' \<and> selected_slot t' \<in> set (register_subevent_data s) \<and>
    register_device pf pf' (radio_of t' sync) (s, t') = Some (s1, t1) \<and> asleep t1 \<and> fault_reason t1 = EVT_NO_FAULT \<and>
    view_at s1 (unat (subevent (selected_slot t')), unat (rsp_slot (selected_slot t'))) = Held (of_nat d) 1"
proof -
  have pf: "pawr_platform pf key_of mac" "pawr_platform pf' key_of' mac" using assms(1,2) by (simp_all add: pawr_reliable_def)
  from flashed_devices_share_keys [OF assms(1-8)] assms(9,10) obtain ca cs where keys:
    "key_is (key_of (psa_store adv')) (ADVERTISER_KEY_ID pf) (keys ! 0)"
    "key_is (key_of' (psa_store sc')) (ADVERTISER_KEY_ID pf') (keys ! 0)"
    "key_of (psa_store adv') (COUNTER_ID pf) = Some (ca, le_bytes 4 (0 :: u64))"
    "key_of' (psa_store sc') (COUNTER_ID pf') = Some (cs, le_bytes 4 (0 :: u64))"
    by auto
  obtain c where sim0: "adv_sim key_of (key_of (psa_store adv')) (mac (keys ! 0)) (started pf (psa_store adv')) (start_abs c)"
    using pawr_platform.adv_init_sim [OF pf(1) keys(3)] by blast
  have "slot_number (a_next (start_abs c)) = 10" by (simp add: start_abs_def slot_number_def slot_id_def)
  with orderly_run_alloc [OF assms(1) keys(1) sim0 start_abs_alloc assms(11)] assms(12) obtain b where
    b: "adv_sim key_of (key_of (psa_store adv')) (mac (keys ! 0)) s b" "alloc_ok b" "slot_number (a_next b) \<le> NUM_RSP_SLOTS * MAX_NUM_SUBEVENTS"
    by (force simp: adv_sizes assms(13))
  note free = advertised_slot_free [OF b]
  have inv: "sc_inv (of_nat d) t" using pawr_platform.reach_responses [OF pf(2) assms(15)] by simp
  have "key_of' (psa_store t) = key_of' (psa_store sc')"
    using pawr_platform.sc_reach_stores [OF pf(2) assms(15) keys(4)] by (simp add: stores_def)
  then have k: "key_is (key_of' (psa_store t)) (ADVERTISER_KEY_ID pf') (keys ! 0)" using keys(2) by simp
  have five: "length (register_subevent_data s) = unat (of_nat CONFIG_NUM_REGISTER_SLOTS :: u8)" "of_nat CONFIG_NUM_REGISTER_SLOTS \<noteq> (0 :: u8)"
    using adv_simD(1) [OF b(1)] by (simp_all add: adv_inv_def CONFIG_NUM_REGISTER_SLOTS_def)
  have range: "\<forall>d \<in> set (register_subevent_data s). unat (rsp_slot d) < SCANNER_RSP_SLOTS"
    using free(1) by (auto simp: slot_exists_def adv_sizes SCANNER_RSP_SLOTS_def)
  from join_confirming [OF assms(2) inv k assms(16-18,20) advertised_def five range assms(19,21), of sync] obtain t' where
    j: "join pf' info bytes sync t = Some t'" "confirming_now t'" "selected_slot t' \<in> set (register_subevent_data s)"
      "cc_value (sc_counter t') = cc_value (counter s)"
    by blast
  let ?l = "radio_of t' sync"
  have l: "lk_sub ?l < MAX_NUM_SUBEVENTS" "recv_subevent (lk_info ?l) = of_nat (lk_sub ?l)"
      "own_slot ?l t' = (unat (subevent (selected_slot t')), unat (rsp_slot (selected_slot t')))"
    using free(1) [OF j(3)] by (simp_all add: radio_of_def slot_exists_def own_slot_def)
  have ev: "\<forall>e \<in> set es. event_ok e" using orderly_event_ok [OF assms(11)] by blast
  have cnt: "cc_value (sc_counter t') \<le> next_counter s"
    using next_counter_unat [of s] assms(14) by (simp add: j(4) word_le_nat_alt adv_time_def)
  have cn: "sc_at t' = Confirming_wait" "recv t' = Confirm_recv" "unconfirmed_ticks t' = 0" "listening t'" "slot_in_range t'"
    using j(2) by (simp_all add: confirming_now_def)
  note pair = flashed_pair [OF assms(1-10) ev assms(13) join_reach [OF assms(15) j(1)] cn(5) cnt l(1,2)]
  have h: "unheard (of_nat d) (holder ?l s t')" by (simp add: holder_def l(3) free(2) [OF j(3)] unheard_def)
  from radio_pair.registers [OF pair cn(1-4) h assms(14)] obtain s1 t1 where
    r: "register_device pf pf' ?l (s, t') = Some (s1, t1)" "asleep t1" "holder ?l s1 t1 = Held (of_nat d) 1" "fault_reason t1 = EVT_NO_FAULT"
      "selected_slot t1 = selected_slot t'"
    by blast
  then show ?thesis using j(1,3) l(3) by (auto simp: holder_def own_slot_def)
qed

theorem new_device_joins_witness:
  "\<exists>f s t t' s1 t1. join (parsing_demo f) \<lparr>scan_addr = Some [1, 2, 3, 4, 5, 6], scan_ext_adv = True, scan_interval = 2000, scan_sid = 0\<rparr> [] 3 t = Some t' \<and>
    register_device demo (parsing_demo f) (radio_of t' 3) (s, t') = Some (s1, t1) \<and>
    view_at s1 (unat (subevent (selected_slot t')), unat (rsp_slot (selected_slot t'))) = Held 2 1"
proof -
  let ?ks = "[demo_key 4, demo_key 5, demo_key 6]" and ?dev = "\<lparr>psa_store = Map.empty, zlog = []\<rparr> :: key_map device"
  have pre: "counter_readable (psa_store ?dev) (COUNTER_ID demo)" "0 < (2 :: nat)" "2 < length ?ks" "length ?ks \<le> 65536"
    "\<forall>k \<in> set ?ks. length k = MAC_LEN"
    by (simp_all add: counter_readable_def demo_key_def MAC_LEN_def)
  from flashed_devices_share_keys [OF demo_reliable demo_reliable pre(1,1-5)] obtain adv' ca where
    adv': "flasher_main demo ?ks 0 ?dev = Some (Flashed, adv')" and ca: "psa_store adv' (COUNTER_ID demo) = Some (ca, le_bytes 4 (0 :: u64))"
      "psa_key_usage_flags ca = PSA_KEY_USAGE_EXPORT"
    by blast
  let ?s = "started demo (psa_store adv')"
  let ?m = "advertised ?s @ mac32 demo_hash (?ks ! 0) (advertised ?s)"
  let ?f = "\<lambda>bytes :: byte list. [\<lparr>bt_data_type = BT_DATA_FLAGS, bt_data_data = [adv_flags]\<rparr>, \<lparr>bt_data_type = BT_DATA_MANUFACTURER_DATA, bt_data_data = ?m\<rparr>]"
  let ?info = "\<lparr>scan_addr = Some [1, 2, 3, 4, 5, 6], scan_ext_adv = True, scan_interval = 2000, scan_sid = 0\<rparr>"
  have c: "counter_readable (psa_store ?dev) (COUNTER_ID (parsing_demo ?f))" by (simp add: counter_readable_def)
  from flashed_devices_share_keys [OF demo_reliable parsing_demo_reliable pre(1) c pre(2-5)] obtain sc' cs where
    sc': "flasher_main (parsing_demo ?f) ?ks 2 ?dev = Some (Flashed, sc')"
      and cs: "psa_store sc' (COUNTER_ID (parsing_demo ?f)) = Some (cs, le_bytes 4 (0 :: u64))" "psa_key_usage_flags cs = PSA_KEY_USAGE_EXPORT"
    by blast
  have "adv_sim (\<lambda>p. p) (psa_store adv') (\<lambda>m. []) ?s (start_abs 0)"
    using pawr_reliable.started_sim [where p = "psa_store adv'", OF demo_reliable ca] by (simp add: store_le_bytes_0)
  then have start: "adv_time ?s = 0" "cc_value (counter ?s) = 0" by (simp_all add: adv_sim_def start_abs_def adv_time_def)
  from demo_syncing [where p = "psa_store sc'", OF cs, of "of_nat 2"] obtain t where
    t: "sc_reach (parsing_demo ?f) (of_nat 2) (psa_store sc') t" "sc_at t = Syncing_wait" "synced_sem t = new_sem" "synced_evt_sem t = new_sem"
      "cc_value (sc_counter t) = 0"
    by blast
  have rep: "reports (parsing_demo ?f) ?info [] ?m" by (simp add: reports_def)
  have run: "orderly_run demo (mac32 demo_hash) (psa_store adv') [] (started demo (psa_store adv'))" "claims_in demo [] (started demo (psa_store adv')) < 4700" by simp_all
  have "\<exists>t' s1 t1. join (parsing_demo ?f) ?info [] 3 t = Some t' \<and> selected_slot t' \<in> set (register_subevent_data ?s) \<and>
    register_device demo (parsing_demo ?f) (radio_of t' 3) (?s, t') = Some (s1, t1) \<and> asleep t1 \<and> fault_reason t1 = EVT_NO_FAULT \<and>
    view_at s1 (unat (subevent (selected_slot t')), unat (rsp_slot (selected_slot t'))) = Held (of_nat 2) 1"
    by (rule new_device_joins [OF demo_reliable parsing_demo_reliable pre(1) c pre(2-5) adv' sc' run _ _ t(1,2) _ _ _ rep])
       (simp_all add: start t new_sem_def)
  then obtain t' s1 t1 where "join (parsing_demo ?f) ?info [] 3 t = Some t'"
    "register_device demo (parsing_demo ?f) (radio_of t' 3) (?s, t') = Some (s1, t1)"
    "view_at s1 (unat (subevent (selected_slot t')), unat (rsp_slot (selected_slot t'))) = Held 2 1"
    by auto
  then show ?thesis by blast
qed

end
