(* ===== verification/Growing.thy ===== *)
theory Growing
  imports Network_Slots Joining
begin

text \<open>
  A network that grows: scanners that have been flashed and scan join one after another, and all of
  them go on in rounds. Every scanner gets a slot of its own and keeps it until it loses its sync; then
  it can come back.
\<close>

section \<open>Entering the network\<close>

text \<open>A scanning scanner, with what its host is about to report.\<close>

record 'q entrant =
  en_platform :: "'q platform"
  en_id :: u16
  en_info :: bt_le_scan_recv_info
  en_bytes :: "byte list"
  en_sync :: sync_ptr
  en_dev :: "'q scanner"

definition entered :: "'q entrant \<Rightarrow> 'q scanner \<Rightarrow> 'q station" where
  "entered e t = \<lparr>st_platform = en_platform e, st_link = radio_of t (en_sync e), st_id = en_id e, st_dev = t\<rparr>"

definition enter :: "'q entrant \<Rightarrow> 'q station list \<Rightarrow> 'q station list" where
  "enter e qs = (case join (en_platform e) (en_info e) (en_bytes e) (en_sync e) (en_dev e) of
     None \<Rightarrow> qs | Some t \<Rightarrow> qs @ [entered e t])"

text \<open>The scanner was flashed from the list of keys, has booted and waits for the advertisement.\<close>

definition flashed_entrant ::
    "('q \<Rightarrow> psa_key_id_t \<Rightarrow> stored_key option) \<Rightarrow> (byte list \<Rightarrow> byte list \<Rightarrow> byte list) \<Rightarrow> byte list list \<Rightarrow> 'q entrant \<Rightarrow> bool" where
  "flashed_entrant key_of mac keys e \<longleftrightarrow> pawr_reliable (en_platform e) key_of mac \<and> (\<forall>l c. zephyr_ret (en_platform e) l c = 0) \<and>
     (\<exists>d dev r dev'. 0 < d \<and> d < length keys \<and> en_id e = of_nat d \<and> counter_readable (key_of (psa_store dev)) (COUNTER_ID (en_platform e)) \<and>
        flasher_main (en_platform e) keys d dev = Some (r, dev') \<and> sc_reach (en_platform e) (en_id e) (psa_store dev') (en_dev e)) \<and>
     sc_at (en_dev e) = Syncing_wait \<and> sem_count (synced_sem (en_dev e)) = 0 \<and> sem_count (synced_evt_sem (en_dev e)) = 0"

text \<open>Its host reports the signed advertisement of the current register slots, with a counter that is
  not ahead of the advertiser's nor behind the scanner's.\<close>

definition hears_slots :: "(byte list \<Rightarrow> byte list) \<Rightarrow> 'p advertiser \<Rightarrow> 'q entrant \<Rightarrow> bool" where
  "hears_slots tag s e \<longleftrightarrow> (\<exists>c body. cc_value (sc_counter (en_dev e)) \<le> c \<and> c \<le> cc_value (counter s) \<and>
     body = (regs_wire (register_subevent_data s) @ [of_nat CONFIG_NUM_REGISTER_SLOTS]) @ le_bytes 8 c \<and>
     reports (en_platform e) (en_info e) (en_bytes e) (body @ tag body))"

lemma entrant_joins:
  assumes rel: "pawr_reliable pf key_of mac" and cnt: "counter_readable (key_of (psa_store adv)) (COUNTER_ID pf)"
    and keys: "length keys \<le> 65536" "\<forall>k \<in> set keys. length k = MAC_LEN" and adv: "flasher_main pf keys 0 adv = Some (ra, adv')"
    and out: "handed_out key_of (key_of (psa_store adv')) (mac (keys ! 0)) N s" and few: "N \<le> NUM_RSP_SLOTS * MAX_NUM_SUBEVENTS"
    and e: "flashed_entrant key_of' mac keys e" and hears: "hears_slots (mac (keys ! 0)) s e" and room: "adv_time s + 1 < 2 ^ 64"
  shows "\<exists>t. join (en_platform e) (en_info e) (en_bytes e) (en_sync e) (en_dev e) = Some t \<and>
    station_ok pf key_of key_of' mac (key_of (psa_store adv')) (keys ! 0) s (entered e t) (Asking True 0) \<and>
    advertises s (station_slot (entered e t)) \<and> view_at s (station_slot (entered e t)) = Free"
proof -
  let ?pf = "en_platform e" and ?t = "en_dev e" and ?i = "en_id e"
  from e obtain d dev r dev' where rel': "pawr_reliable ?pf key_of' mac" and ret: "\<forall>l c. zephyr_ret ?pf l c = 0" and
    d: "0 < d" "d < length keys" "?i = of_nat d" "counter_readable (key_of' (psa_store dev)) (COUNTER_ID ?pf)"
      "flasher_main ?pf keys d dev = Some (r, dev')" "sc_reach ?pf ?i (psa_store dev') ?t" and
    at: "sc_at ?t = Syncing_wait" "sem_count (synced_sem ?t) = 0" "sem_count (synced_evt_sem ?t) = 0"
    by (auto simp: flashed_entrant_def)
  have pf': "pawr_platform ?pf key_of' mac" using rel' by (simp add: pawr_reliable_def)
  from flashed_devices_share_keys [OF rel rel' cnt d(4,1,2) keys] adv d(5) obtain cs where k:
    "key_is (key_of (psa_store adv')) (ADVERTISER_KEY_ID pf) (keys ! 0)"
    "key_is (key_of (psa_store adv')) (scanner_key_id pf ?i) (keys ! d)"
    "key_is (key_of' (psa_store dev')) (ADVERTISER_KEY_ID ?pf) (keys ! 0)"
    "key_is (key_of' (psa_store dev')) (MIN_SCANNER_KEY_ID ?pf) (keys ! d)"
    "key_of' (psa_store dev') (COUNTER_ID ?pf) = Some (cs, le_bytes 4 (0 :: u64))"
    by (auto simp: d(3))
  have i: "?i \<noteq> 0" using d(1-3) keys(1) by (simp add: word_unat_eq_iff unat_of_nat)
  from out obtain a where a: "adv_sim key_of (key_of (psa_store adv')) (mac (keys ! 0)) s a" "alloc_ok a"
      "slot_number (a_next a) \<le> NUM_RSP_SLOTS * MAX_NUM_SUBEVENTS"
    using few by (auto simp: handed_out_def)
  note free = advertised_slot_free [OF a]
  have store: "key_of' (psa_store t) = key_of' (psa_store dev')" if "sc_reach ?pf ?i (psa_store dev') t" for t
    using pawr_platform.sc_reach_stores [OF pf' that k(5)] by (simp add: stores_def)
  have inv: "sc_inv ?i t" if "sc_reach ?pf ?i (psa_store dev') t" for t
    using pawr_platform.reach_responses [OF pf' that] by simp
  from hears obtain c body where c: "cc_value (sc_counter ?t) \<le> c" "c \<le> cc_value (counter s)" and
    body: "body = (regs_wire (register_subevent_data s) @ [of_nat CONFIG_NUM_REGISTER_SLOTS]) @ le_bytes 8 c" and
    rep: "reports ?pf (en_info e) (en_bytes e) (body @ mac (keys ! 0) body)"
    by (auto simp: hears_slots_def)
  have five: "length (register_subevent_data s) = unat (of_nat CONFIG_NUM_REGISTER_SLOTS :: u8)" "of_nat CONFIG_NUM_REGISTER_SLOTS \<noteq> (0 :: u8)"
    using adv_simD(1) [OF a(1)] by (simp_all add: adv_inv_def CONFIG_NUM_REGISTER_SLOTS_def)
  have range: "\<forall>d \<in> set (register_subevent_data s). unat (rsp_slot d) < SCANNER_RSP_SLOTS"
    using free(1) by (auto simp: slot_exists_def adv_sizes SCANNER_RSP_SLOTS_def)
  have key: "key_is (key_of' (psa_store ?t)) (ADVERTISER_KEY_ID ?pf) (keys ! 0)" using k(3) by (simp add: store [OF d(6)])
  from join_confirming [OF rel' inv [OF d(6)] key at rep body five range c(1) ret, of "en_sync e"] obtain t where
    j: "join ?pf (en_info e) (en_bytes e) (en_sync e) ?t = Some t" "confirming_now t" "selected_slot t \<in> set (register_subevent_data s)"
      "cc_value (sc_counter t) = c"
    by blast
  let ?q = "entered e t"
  have reach: "sc_reach ?pf ?i (psa_store dev') t" by (rule join_reach [OF d(6) j(1)])
  have q: "st_platform ?q = ?pf" "st_id ?q = ?i" "st_dev ?q = t" "st_link ?q = radio_of t (en_sync e)"
      "station_slot ?q = (unat (subevent (selected_slot t)), unat (rsp_slot (selected_slot t)))"
    by (simp_all add: entered_def station_slot_def own_slot_def radio_of_def)
  note own = free [OF j(3), folded q(5)]
  have "slot_id (fst (station_slot ?q)) (snd (station_slot ?q)) = selected_slot t" by (simp add: q(5) slot_id_def)
  then have "advertises s (station_slot ?q)" using j(3) by (simp add: advertises_def)
  moreover have "radio_pair pf key_of ?pf key_of' mac (key_of (psa_store adv')) (key_of' (psa_store dev')) (keys ! 0) (keys ! d) ?i
      (radio_of t (en_sync e))"
    using own(1) by (intro radio_pair.intro radio_pair_axioms.intro rel rel' k i) (simp_all add: radio_of_def q(5) slot_exists_def)
  moreover have "c \<le> next_counter s"
    using c(2) next_counter_unat [OF room] by (simp add: word_le_nat_alt adv_time_def)
  then have "linked key_of (key_of (psa_store adv')) (mac (keys ! 0)) key_of' (key_of' (psa_store dev')) ?i s t"
    using a(1) store [OF reach] inv [OF reach] j(2,4) by (auto simp: linked_def confirming_now_def)
  ultimately show ?thesis
    using confirming_station_ok [of pf key_of ?q key_of' mac] reach j(1,2) own(2) by (fastforce simp: q(1-4))
qed

text \<open>Where every station holds its slot, a scanner that enters makes a steady network again.\<close>

lemma steady_enter:
  assumes st: "steady pf key_of key_of' mac keys ka hs s qs phs"
    and held: "\<And>n. n < length qs \<Longrightarrow> in_sync (hs n) \<Longrightarrow> served (hs n) \<and> 3 \<le> length (hs n)"
    and q: "station_ok pf key_of key_of' mac keys ka s q (Asking True 0)" "advertises s (station_slot q)" "view_at s (station_slot q) = Free"
    and hs': "\<And>n. n < length qs \<Longrightarrow> hs' n = hs n" "hs' (length qs) = []"
  shows "steady pf key_of key_of' mac keys ka hs' s (qs @ [q]) (phs @ [Asking True 0])"
proof -
  let ?N = "length qs"
  note ok = steadyD(1) [OF st] and out = steadyD(2) [OF st]
  have all: "view_at s (station_slot (qs ! n)) \<noteq> Free" if n: "n < ?N" "phs ! n \<noteq> Gone" for n
  proof -
    have h: "in_sync (hs n)" using steadyD(5) [OF st n(1)] n(2) by blast
    from secure_held [OF steadyD(3) [OF st n(1) h]] held [OF n(1) h] show ?thesis by auto
  qed
  then have other: "station_slot (qs ! n) \<noteq> station_slot q" "station_slot q \<noteq> station_slot (qs ! n)" if "n < ?N" "phs ! n \<noteq> Gone" for n
    using q(3) that by metis+
  have lp: "length phs = ?N" using ok by (simp add: fleet_ok_def)
  have "fleet_ok pf key_of key_of' mac keys ka s (qs @ [q]) (phs @ [Asking True 0])"
    using ok q(1) other lp by (auto simp: fleet_ok_def nth_append less_Suc_eq)
  moreover have "claimed s (qs @ [q]) (phs @ [Asking True 0]) = claimed s qs phs"
    using q(3) lp by (auto simp: claimed_def nth_append)
  moreover have "secure (st_id q) [] (Asking True 0) Free" by (rule secure_start)
  ultimately show ?thesis
    using st q(2,3) hs' out lp unfolding steady_def by (simp add: nth_append less_Suc_eq all_conj_distrib)
qed

text \<open>A station is the scanner that entered: it has run on from there.\<close>

definition grown_from :: "'q entrant \<Rightarrow> 'q station \<Rightarrow> bool" where
  "grown_from e q \<longleftrightarrow> st_platform q = en_platform e \<and> st_id q = en_id e \<and>
     (\<forall>p. sc_reach (en_platform e) (en_id e) p (en_dev e) \<longrightarrow> sc_reach (en_platform e) (en_id e) p (st_dev q))"

lemma grown_from_entered: "join (en_platform e) (en_info e) (en_bytes e) (en_sync e) (en_dev e) = Some t \<Longrightarrow> grown_from e (entered e t)"
  using join_reach by (auto simp: grown_from_def entered_def)

lemma main_reach: "sc_reach pf i p t \<Longrightarrow> sc_main pf t = Some t' \<Longrightarrow> sc_reach pf i p t'"
  by (blast intro: sc_reach_step step_main)

lemma settle_reach: "sc_reach pf i p t \<Longrightarrow> sc_reach pf i p (settle pf t)"
  by (auto simp: settle_def split: option.split intro: main_reach)

lemma prepare_reach: "grown_from e q \<Longrightarrow> grown_from e (prepare f q)"
proof -
  have "sc_reach pf i p (expire pf f t)" if "sc_reach pf i p t" for pf :: "'a platform" and i p f t
    using that by (auto simp: expire_def intro: sc_reach_step step_timer)
  moreover have "sc_reach pf i p (lose pf r t)" if "sc_reach pf i p t" for pf :: "'a platform" and i p r t
    using that by (auto simp: lose_def split: option.split intro: sc_reach_step step_term)
  ultimately show "grown_from e q \<Longrightarrow> grown_from e (prepare f q)"
    using settle_reach by (fastforce simp: grown_from_def prepare_def)
qed

lemma downlink_reach: "grown_from e q \<Longrightarrow> grown_from e (downlink ms f q)"
proof -
  have "sc_reach pf i p (hear pf l b m t)" if "sc_reach pf i p t" for pf :: "'a platform" and i p l b m t
    using sc_reach_step [OF that step_recv [of "if b then Some (buf_of m) else None"]] that by (simp add: hear_def split: if_splits)
  then show "grown_from e q \<Longrightarrow> grown_from e (downlink ms f q)" by (fastforce simp: grown_from_def downlink_def)
qed

lemma run_reach:
  "\<lbrakk>\<forall>fs \<in> set fss. length fs = length qs; network_run pf fss (s, qs) = (s', qs'); n < length qs; grown_from e (qs ! n)\<rbrakk> \<Longrightarrow>
    grown_from e (qs' ! n)"
proof (induction fss arbitrary: s qs)
  case (Cons fs fss)
  obtain s1 qs1 where r: "network_round pf fs (s, qs) = (s1, qs1)" by (metis prod.exhaust)
  with network_round_ids [of fs qs pf s] Cons.prems(1) have "map st_id qs1 = map st_id qs" by simp
  then have l: "length qs1 = length qs" by (metis length_map)
  have len: "length fs = length qs" using Cons.prems(1) by simp
  have run: "network_run pf fss (s1, qs1) = (s', qs')" using Cons.prems(2) r by (simp add: network_run_def)
  have "grown_from e (qs1 ! n)"
    unfolding round_station [OF len r Cons.prems(3)] by (intro downlink_reach prepare_reach Cons.prems(4))
  from Cons.IH [OF _ run _ this] Cons.prems(1,3) l show ?case by simp
qed (simp add: network_run_def)

text \<open>One that scans again may enter again, as it is.\<close>

lemma may_return:
  assumes "flashed_entrant key_of mac keys e" and "grown_from e q" and "scans q"
  shows "flashed_entrant key_of mac keys (e\<lparr>en_dev := st_dev q\<rparr>)"
  using assms unfolding flashed_entrant_def grown_from_def scans_def gone_def by fastforce

section \<open>The life of a network\<close>

text \<open>One scanner enters, then there are some rounds; then the next one enters.\<close>

type_synonym 'q epoch = "'q entrant \<times> fate list list"

definition epoch :: "'p platform \<Rightarrow> 'q epoch \<Rightarrow> 'p advertiser \<times> 'q station list \<Rightarrow> 'p advertiser \<times> 'q station list" where
  "epoch pf = (\<lambda>(e, fss) (s, qs). network_run pf fss (s, enter e qs))"

definition network_life :: "'p platform \<Rightarrow> 'q epoch list \<Rightarrow> 'p advertiser \<times> 'q station list \<Rightarrow> 'p advertiser \<times> 'q station list" where
  "network_life pf es = fold (epoch pf) es"

text \<open>The fates of station \<open>n\<close>, which enters in epoch \<open>n\<close>.\<close>

definition fates_of :: "nat \<Rightarrow> 'q epoch list \<Rightarrow> fate list" where
  "fates_of n es = concat (map (\<lambda>(e, fss). column n fss) (drop n es))"

lemma fates_of_snoc: "n \<le> length es \<Longrightarrow> fates_of n (es @ [(e, fss)]) = fates_of n es @ column n fss"
  by (simp add: fates_of_def)

lemma fates_of_new: "fates_of (length es) es = []"
  by (simp add: fates_of_def)

text \<open>In every epoch the scanner that enters hears the slots of that time, there is a fate for each
  station in each round, and it has three rounds at least for itself.\<close>

definition epoch_ok :: "(byte list \<Rightarrow> byte list) \<Rightarrow> 'q epoch \<Rightarrow> 'p advertiser \<times> 'q station list \<Rightarrow> bool" where
  "epoch_ok tag = (\<lambda>(e, fss) (s, qs). hears_slots tag s e \<and> 3 \<le> length fss \<and> (\<forall>fs \<in> set fss. length fs = Suc (length qs)))"

definition life_ok :: "(byte list \<Rightarrow> byte list) \<Rightarrow> 'p platform \<Rightarrow> 'q epoch list \<Rightarrow> 'p advertiser \<times> 'q station list \<Rightarrow> bool" where
  "life_ok tag pf es p \<longleftrightarrow> (\<forall>k < length es. epoch_ok tag (es ! k) (network_life pf (take k es) p))"

lemma life_ok_snoc: "life_ok tag pf (es @ [x]) p \<longleftrightarrow> life_ok tag pf es p \<and> epoch_ok tag x (network_life pf es p)"
  by (auto simp: life_ok_def nth_append less_Suc_eq)

definition rounds_in :: "'q epoch list \<Rightarrow> nat" where
  "rounds_in es = sum_list (map (length \<circ> snd) es)"

lemma three_rounds: "life_ok tag pf es p \<Longrightarrow> n < length es \<Longrightarrow> 3 \<le> length (fates_of n es)"
proof -
  assume ok: "life_ok tag pf es p" and n: "n < length es"
  obtain e fss where x: "es ! n = (e, fss)" by (metis prod.exhaust)
  obtain s qs where "network_life pf (take n es) p = (s, qs)" by (metis prod.exhaust)
  with ok n x have "3 \<le> length fss" by (auto simp: life_ok_def epoch_ok_def)
  moreover have "drop n es = (e, fss) # drop (Suc n) es" using Cons_nth_drop_Suc [OF n] x by simp
  then have "fates_of n es = column n fss @ concat (map (\<lambda>(e, fss). column n fss) (drop (Suc n) es))" by (simp add: fates_of_def)
  ultimately show ?thesis by (simp add: column_def)
qed

text \<open>Up to 4700 times a flashed scanner enters; as long as it keeps its sync it loses little and has a timer that
  runs. What becomes of them after the advertiser has started with the store \<open>p\<close>.\<close>

definition flashed_life ::
    "'p platform \<Rightarrow> ('q \<Rightarrow> psa_key_id_t \<Rightarrow> stored_key option) \<Rightarrow> (byte list \<Rightarrow> byte list \<Rightarrow> byte list) \<Rightarrow> byte list list \<Rightarrow> 'p \<Rightarrow>
     'q epoch list \<Rightarrow> 'p advertiser \<times> 'q station list \<Rightarrow> bool" where
  "flashed_life pf key_of mac keys p es r \<longleftrightarrow>
     (\<forall>(e, fss) \<in> set es. flashed_entrant key_of mac keys e) \<and> length es \<le> 4700 \<and>
     life_ok (mac (keys ! 0)) pf es (started pf p, []) \<and> (\<forall>n < length es. bearable (fates_of n es)) \<and>
     network_life pf es (started pf p, []) = r"

definition phases_of :: "'q epoch list \<Rightarrow> phase list" where
  "phases_of es = map (\<lambda>n. fold next_phase (fates_of n es) (Asking True 0)) [0..<length es]"

lemma phases_of_snoc:
  assumes "\<forall>fs \<in> set fss. length fs = Suc (length es)"
  shows "fold (map2 next_phase) fss (phases_of es @ [Asking True 0]) = phases_of (es @ [(e, fss)])"
proof -
  have l: "length (phases_of es @ [Asking True 0]) = Suc (length es)" by (simp add: phases_of_def)
  have "fold (map2 next_phase) fss (phases_of es @ [Asking True 0]) =
      map (\<lambda>n. fold next_phase (column n fss) ((phases_of es @ [Asking True 0]) ! n)) [0..<Suc (length es)]"
    using columns [of fss "phases_of es @ [Asking True 0]"] assms by (simp only: l)
  also have "\<dots> = phases_of (es @ [(e, fss)])"
    by (rule nth_equalityI) (auto simp: phases_of_def nth_append fates_of_snoc fates_of_new less_Suc_eq simp del: upt_Suc)
  finally show ?thesis .
qed

lemma flashed_advertiser_key:
  assumes "pawr_reliable pf key_of mac" and "counter_readable (key_of (psa_store adv)) (COUNTER_ID pf)"
    and "keys \<noteq> []" and "length keys \<le> 65536" and "\<forall>k \<in> set keys. length k = MAC_LEN" and "flasher_main pf keys 0 adv = Some (ra, adv')"
  shows "key_is (key_of (psa_store adv')) (ADVERTISER_KEY_ID pf) (keys ! 0)"
    and "\<exists>c. key_of (psa_store adv') (COUNTER_ID pf) = Some (c, le_bytes 4 (0 :: u64)) \<and> psa_key_usage_flags c = PSA_KEY_USAGE_EXPORT"
proof -
  have "0 < length keys" using assms(3) by simp
  from pawr_reliable.flasher_main_ok [OF assms(1,2) this assms(4,5)] assms(6)
  show "key_is (key_of (psa_store adv')) (ADVERTISER_KEY_ID pf) (keys ! 0)"
    and "\<exists>c. key_of (psa_store adv') (COUNTER_ID pf) = Some (c, le_bytes 4 (0 :: u64)) \<and> psa_key_usage_flags c = PSA_KEY_USAGE_EXPORT"
    by auto
qed

text \<open>The network at its start, and over an epoch.\<close>

lemma steady_start:
  assumes rel: "pawr_reliable pf key_of mac" and "counter_readable (key_of (psa_store adv)) (COUNTER_ID pf)"
    and "keys \<noteq> []" and "length keys \<le> 65536" and "\<forall>k \<in> set keys. length k = MAC_LEN" and "flasher_main pf keys 0 adv = Some (ra, adv')"
    and s: "s = started pf (psa_store adv')"
  shows "steady pf key_of key_of' mac (key_of (psa_store adv')) (keys ! 0) hs s [] [] \<and> adv_time s = 0"
proof -
  from flashed_advertiser_key(2) [OF assms(1-6)] obtain c where
    k: "key_of (psa_store adv') (COUNTER_ID pf) = Some (c, le_bytes 4 (0 :: u64))" "psa_key_usage_flags c = PSA_KEY_USAGE_EXPORT"
    by blast
  have sim: "adv_sim key_of (key_of (psa_store adv')) (mac (keys ! 0)) s (start_abs 0)"
    using pawr_reliable.started_sim [OF rel k] by (simp add: store_le_bytes_0 s)
  moreover have "slot_number (a_next (start_abs 0)) = 10" by (simp add: start_abs_def slot_number_def slot_id_def)
  ultimately have "handed_out key_of (key_of (psa_store adv')) (mac (keys ! 0)) 10 s"
    using start_abs_alloc by (auto simp: handed_out_def)
  moreover have "adv_time s = 0" using sim by (simp add: adv_sim_def start_abs_def adv_time_def)
  ultimately show ?thesis using sim by (auto simp: steady_def fleet_ok_def claimed_def)
qed

lemma steady_epoch:
  assumes rel: "pawr_reliable pf key_of mac" and cnt: "counter_readable (key_of (psa_store adv)) (COUNTER_ID pf)"
    and keys: "keys \<noteq> []" "length keys \<le> 65536" "\<forall>k \<in> set keys. length k = MAC_LEN" and adv: "flasher_main pf keys 0 adv = Some (ra, adv')"
    and st: "steady pf key_of key_of' mac (key_of (psa_store adv')) (keys ! 0) hs s qs phs"
    and held: "\<And>n. n < length qs \<Longrightarrow> in_sync (hs n) \<Longrightarrow> served (hs n) \<and> 3 \<le> length (hs n)" and new: "hs (length qs) = []"
    and e: "flashed_entrant key_of' mac keys e" and ok: "epoch_ok (mac (keys ! 0)) (e, fss) (s, qs)"
    and many: "length qs < 4700" and room: "adv_time s + 2 * length fss + 1 < 2 ^ 64"
    and bear: "\<And>n. n \<le> length qs \<Longrightarrow> bearable (hs n @ column n fss)" and run: "epoch pf (e, fss) (s, qs) = (s', qs')"
  shows "steady pf key_of key_of' mac (key_of (psa_store adv')) (keys ! 0) (\<lambda>n. hs n @ column n fss) s' qs' (fold (map2 next_phase) fss (phs @ [Asking True 0]))"
    and "adv_time s' \<le> adv_time s + 2 * length fss" and "map st_id qs' = map st_id qs @ [en_id e]"
    and "grown_from e (qs' ! length qs)" and "\<lbrakk>n < length qs; grown_from e' (qs ! n)\<rbrakk> \<Longrightarrow> grown_from e' (qs' ! n)"
proof -
  let ?keys = "key_of (psa_store adv')" and ?ka = "keys ! 0"
  have few: "10 + card (claimed s qs phs) \<le> NUM_RSP_SLOTS * MAX_NUM_SUBEVENTS"
    using claimed_few(1) [of s qs phs] many by (simp add: adv_sizes)
  have hears: "hears_slots (mac ?ka) s e" and lens: "\<forall>fs \<in> set fss. length fs = Suc (length qs)" using ok by (simp_all add: epoch_ok_def)
  have room1: "adv_time s + 1 < 2 ^ 64" using room by simp
  from entrant_joins [OF rel cnt keys(2,3) adv steadyD(2) [OF st] few e hears room1] obtain t where
    t: "join (en_platform e) (en_info e) (en_bytes e) (en_sync e) (en_dev e) = Some t"
      "station_ok pf key_of key_of' mac ?keys ?ka s (entered e t) (Asking True 0)"
      "advertises s (station_slot (entered e t))" "view_at s (station_slot (entered e t)) = Free"
    by blast
  let ?qs = "qs @ [entered e t]"
  have in_: "steady pf key_of key_of' mac ?keys ?ka hs s ?qs (phs @ [Asking True 0])"
    using steady_enter [OF st held t(2-4) refl new] .
  have run': "network_run pf fss (s, ?qs) = (s', qs')" using run t(1) by (simp add: epoch_def enter_def)
  have lens': "\<forall>fs \<in> set fss. length fs = length ?qs" using lens by simp
  have "bearable (hs n @ column n fss)" if "n < length ?qs" for n using bear that by simp
  from steady_run [OF rel flashed_advertiser_key(1) [OF rel cnt keys adv] in_ lens' room run' _ this] many
  show "steady pf key_of key_of' mac ?keys ?ka (\<lambda>n. hs n @ column n fss) s' qs' (fold (map2 next_phase) fss (phs @ [Asking True 0]))"
    and "adv_time s' \<le> adv_time s + 2 * length fss" and "map st_id qs' = map st_id qs @ [en_id e]"
    by (simp_all add: entered_def)
  show "grown_from e (qs' ! length qs)"
    using run_reach [OF lens' run', of "length qs" e] grown_from_entered [OF t(1)] by simp
  show "grown_from e' (qs' ! n)" if "n < length qs" "grown_from e' (qs ! n)"
    using run_reach [OF lens' run', of n e'] that by (simp add: nth_append)
qed

lemma life_steady:
  assumes rel: "pawr_reliable pf key_of mac" and cnt: "counter_readable (key_of (psa_store adv)) (COUNTER_ID pf)"
    and keys: "keys \<noteq> []" "length keys \<le> 65536" "\<forall>k \<in> set keys. length k = MAC_LEN" and adv: "flasher_main pf keys 0 adv = Some (ra, adv')"
    and "flashed_life pf key_of' mac keys (psa_store adv') es (s', qs')" and "2 * rounds_in es + 1 < 2 ^ 64"
  shows "steady pf key_of key_of' mac (key_of (psa_store adv')) (keys ! 0) (\<lambda>n. fates_of n es) s' qs' (phases_of es) \<and>
    adv_time s' \<le> 2 * rounds_in es \<and> map st_id qs' = map (en_id \<circ> fst) es \<and> (\<forall>n < length es. grown_from (fst (es ! n)) (qs' ! n))"
  using assms(7-)
proof (induction es arbitrary: s' qs' rule: rev_induct)
  case Nil
  then show ?case using steady_start [where key_of' = key_of' and hs = "\<lambda>n. fates_of n []", OF assms(1-6) refl]
    by (auto simp: flashed_life_def network_life_def phases_of_def)
next
  case (snoc x es)
  obtain e fss where x: "x = (e, fss)" by (metis prod.exhaust)
  let ?s = "started pf (psa_store adv')"
  obtain s1 qs1 where life: "network_life pf es (?s, []) = (s1, qs1)" by (metis prod.exhaust)
  from snoc.prems(1) have ents: "\<forall>(e, fss) \<in> set (es @ [x]). flashed_entrant key_of' mac keys e" and many: "length (es @ [x]) \<le> 4700"
    and lok: "life_ok (mac (keys ! 0)) pf (es @ [x]) (?s, [])" and sv: "\<forall>n < length (es @ [x]). bearable (fates_of n (es @ [x]))"
    and last: "network_life pf (es @ [x]) (?s, []) = (s', qs')"
    unfolding flashed_life_def by blast+
  have ok: "life_ok (mac (keys ! 0)) pf es (?s, [])" "epoch_ok (mac (keys ! 0)) (e, fss) (s1, qs1)"
    using lok by (simp_all add: life_ok_snoc life x)
  have rounds: "rounds_in (es @ [x]) = rounds_in es + length fss" by (simp add: rounds_in_def x)
  have bear: "bearable (fates_of n es @ column n fss)" if "n \<le> length es" for n using sv that by (simp add: x fates_of_snoc)
  then have before: "\<forall>n < length es. bearable (fates_of n es)" using bearable_prefix by (metis less_imp_le)
  then have "flashed_life pf key_of' mac keys (psa_store adv') es (s1, qs1)"
    using ents many ok(1) life by (simp add: flashed_life_def)
  from snoc.IH [OF this] snoc.prems(2) rounds have
    1: "steady pf key_of key_of' mac (key_of (psa_store adv')) (keys ! 0) (\<lambda>n. fates_of n es) s1 qs1 (phases_of es)" "adv_time s1 \<le> 2 * rounds_in es"
      "map st_id qs1 = map (en_id \<circ> fst) es" "\<forall>n < length es. grown_from (fst (es ! n)) (qs1 ! n)"
    by simp_all
  then have l: "length qs1 = length es" by (metis length_map)
  have held: "served (fates_of n es) \<and> 3 \<le> length (fates_of n es)" if "n < length qs1" "in_sync (fates_of n es)" for n
    using before three_rounds [OF ok(1)] bearable_served [OF that(2)] that(1) by (simp add: l)
  have new: "fates_of (length qs1) es = []" by (simp add: l fates_of_new)
  have ent: "flashed_entrant key_of' mac keys e" using ents by (simp add: x)
  have few: "length qs1 < 4700" and room: "adv_time s1 + 2 * length fss + 1 < 2 ^ 64" using many 1(2) snoc.prems(2) rounds l by simp_all
  have run: "epoch pf (e, fss) (s1, qs1) = (s', qs')" using last life by (simp add: network_life_def x)
  note 2 = steady_epoch [OF assms(1-6) 1(1) held new ent ok(2) few room bear [folded l] run]
  have lens: "\<forall>fs \<in> set fss. length fs = Suc (length es)" using ok(2) by (simp add: epoch_ok_def l)
  have l': "length qs' = Suc (length es)" using 2(3) l by (metis length_append_singleton length_map)
  have "steady pf key_of key_of' mac (key_of (psa_store adv')) (keys ! 0) (\<lambda>n. fates_of n (es @ [x])) s' qs' (phases_of (es @ [x]))"
    using 2(1) phases_of_snoc [OF lens, of e] by (simp add: steady_def l' x fates_of_snoc)
  moreover have "\<forall>n < length (es @ [x]). grown_from (fst ((es @ [x]) ! n)) (qs' ! n)"
    using 2(4,5) 1(4) by (auto simp: nth_append x l less_Suc_eq)
  ultimately show ?case using 2(2,3) 1(2,3) rounds by (simp add: x)
qed

text \<open>A scanner whose sync timed out at least two rounds ago can enter again, once its host reports the
  advertisement: it is in the state of a scanner that scans, and the advertiser's counter is ahead again.\<close>

definition again :: "bt_le_scan_recv_info \<Rightarrow> byte list \<Rightarrow> 'q station list \<Rightarrow> nat \<Rightarrow> 'q epoch list \<Rightarrow> 'q entrant" where
  "again info bytes qs n es = (fst (es ! n))\<lparr>en_info := info, en_bytes := bytes, en_dev := st_dev (qs ! n)\<rparr>"

lemma lost_may_return:
  assumes "pawr_reliable pf key_of mac" and "counter_readable (key_of (psa_store adv)) (COUNTER_ID pf)"
    and "keys \<noteq> []" and "length keys \<le> 65536" and "\<forall>k \<in> set keys. length k = MAC_LEN" and "flasher_main pf keys 0 adv = Some (ra, adv')"
    and "flashed_life pf key_of' mac keys (psa_store adv') es (s', qs')" and "2 * rounds_in es + 1 < 2 ^ 64"
    and n: "n < length es" and "timed_out (fates_of n es)" and lost: "2 \<le> since_lost (fates_of n es)"
    and e: "e = again info bytes qs' n es" and "reports (en_platform e) info bytes (advertised s' @ mac (keys ! 0) (advertised s'))"
  shows "flashed_entrant key_of' mac keys e \<and> hears_slots (mac (keys ! 0)) s' e"
proof -
  from life_steady [OF assms(1-8)] have
    st: "steady pf key_of key_of' mac (key_of (psa_store adv')) (keys ! 0) (\<lambda>n. fates_of n es) s' qs' (phases_of es)" and
    ids: "map st_id qs' = map (en_id \<circ> fst) es" and src: "grown_from (fst (es ! n)) (qs' ! n)"
    using n by simp_all
  from ids n have l: "n < length qs'" by (metis length_map)
  have gone: "\<not> in_sync (fates_of n es)" using lost since_lost_in_sync by force
  have ent: "flashed_entrant key_of' mac keys (fst (es ! n))"
    using assms(7) nth_mem [OF n] by (force simp: flashed_life_def)
  have "scan_starts (st_platform (qs' ! n))" using ent src by (simp add: scan_starts_def flashed_entrant_def grown_from_def)
  from may_return [OF ent src steadyD(6) [OF st l gone assms(10) this]]
  have "flashed_entrant key_of' mac keys e" by (simp add: e again_def flashed_entrant_def)
  moreover have "cc_value (sc_counter (st_dev (qs' ! n))) \<le> cc_value (counter s')"
    using steadyD(7) [OF st l gone] lost by (simp add: behind_def)
  then have "hears_slots (mac (keys ! 0)) s' e"
    unfolding hears_slots_def using assms(13)
    by (intro exI [of _ "cc_value (counter s')"] exI) (auto simp: e again_def advertised_def)
  ultimately show ?thesis ..
qed

section \<open>Two scanners that join, of which one leaves and returns, for the witnesses\<close>

definition flash_list :: "byte list list" where
  "flash_list = [demo_key 4, demo_key 5, demo_key 6]"

definition blank_device :: "key_map device" where
  "blank_device = \<lparr>psa_store = Map.empty, zlog = []\<rparr>"

lemma flash_list_ok:
  "flash_list \<noteq> []" "length flash_list \<le> 65536" "\<forall>k \<in> set flash_list. length k = MAC_LEN" "length flash_list = 3"
  "counter_readable (psa_store blank_device) x"
  by (simp_all add: flash_list_def blank_device_def demo_key_def MAC_LEN_def counter_readable_def)

text \<open>The host of the scanners finds the flags, and takes the rest of a report for the manufacturer's data.\<close>

definition demo_parse :: "byte list \<Rightarrow> bt_data list" where
  "demo_parse bytes = [\<lparr>bt_data_type = BT_DATA_FLAGS, bt_data_data = [adv_flags]\<rparr>, \<lparr>bt_data_type = BT_DATA_MANUFACTURER_DATA, bt_data_data = bytes\<rparr>]"

definition demo_info :: bt_le_scan_recv_info where
  "demo_info = \<lparr>scan_addr = Some [1, 2, 3, 4, 5, 6], scan_ext_adv = True, scan_interval = 2000, scan_sid = 0\<rparr>"

abbreviation demo_tag :: "byte list \<Rightarrow> byte list" where
  "demo_tag \<equiv> mac32 demo_hash (flash_list ! 0)"

definition demo_advert :: "'p advertiser \<Rightarrow> byte list" where
  "demo_advert s = advertised s @ demo_tag (advertised s)"

lemma demo_reports: "reports (parsing_demo demo_parse) demo_info m m"
  by (simp add: reports_def demo_info_def demo_parse_def)

text \<open>Whatever the advertiser has come to, there is a scanner that hears its slots.\<close>

lemma demo_enters:
  assumes "0 < d" and "d < 3"
  shows "\<exists>e. flashed_entrant (\<lambda>p. p) (mac32 demo_hash) flash_list e \<and> hears_slots demo_tag s e \<and> en_id e = of_nat d \<and>
    en_platform e = parsing_demo demo_parse"
proof -
  let ?pf = "parsing_demo demo_parse"
  have d: "d < length flash_list" using assms(2) by (simp add: flash_list_ok)
  from flashed_devices_share_keys [where key_of = "\<lambda>p. p" and key_of' = "\<lambda>p. p" and adv = blank_device and sc = blank_device, OF demo_reliable parsing_demo_reliable flash_list_ok(5,5) assms(1) d flash_list_ok(2,3)] obtain sc' cs where
    sc': "flasher_main ?pf flash_list d blank_device = Some (Flashed, sc')"
      "psa_store sc' (COUNTER_ID ?pf) = Some (cs, le_bytes 4 (0 :: u64))" "psa_key_usage_flags cs = PSA_KEY_USAGE_EXPORT"
    by blast
  from demo_syncing [where p = "psa_store sc'", OF sc'(2,3), of "of_nat d"] obtain t where
    t: "sc_reach ?pf (of_nat d) (psa_store sc') t" "sc_at t = Syncing_wait" "synced_sem t = new_sem" "synced_evt_sem t = new_sem"
      "cc_value (sc_counter t) = 0"
    by blast
  let ?e = "\<lparr>en_platform = ?pf, en_id = of_nat d, en_info = demo_info, en_bytes = demo_advert s, en_sync = 3, en_dev = t\<rparr>"
  have "flashed_entrant (\<lambda>p. p) (mac32 demo_hash) flash_list ?e"
    using parsing_demo_reliable sc'(1) t assms(1) d flash_list_ok(5) by (auto simp: flashed_entrant_def new_sem_def)
  moreover have "hears_slots demo_tag s ?e"
    unfolding hears_slots_def using demo_reports
    by (intro exI [of _ "cc_value (counter s)"] exI) (auto simp: t(5) demo_advert_def advertised_def)
  ultimately show ?thesis by (intro exI [of _ ?e]) simp
qed

definition fair :: fate where
  "fair = \<lparr>ft_timer = True, ft_lost = None, ft_down = True, ft_up = True\<rparr>"

text \<open>The first scanner enters, then the second; the first one loses its sync and comes back.\<close>

definition first_rounds :: "fate list list" where
  "first_rounds = [[fair\<lparr>ft_up := False\<rparr>], [fair], [fair]]"

definition second_rounds :: "fate list list" where
  "second_rounds = [[fair, fair], [fair\<lparr>ft_lost := Some 8\<rparr>, fair], [fair, fair]]"

definition third_rounds :: "fate list list" where
  "third_rounds = replicate 3 [fair, fair, fair]"

definition demo_epochs :: "'q entrant \<Rightarrow> 'q entrant \<Rightarrow> 'q entrant \<Rightarrow> 'q epoch list" where
  "demo_epochs e1 e2 e3 = [(e1, first_rounds), (e2, second_rounds), (e3, third_rounds)]"

lemmas demo_rounds_defs = fates_of_def column_def first_rounds_def second_rounds_def third_rounds_def fair_def

lemma demo_fates_of:
  "fates_of 0 (demo_epochs e1 e2 e3) = [fair\<lparr>ft_up := False\<rparr>, fair, fair, fair, fair\<lparr>ft_lost := Some 8\<rparr>, fair, fair, fair, fair]"
  "fates_of 1 (demo_epochs e1 e2 e3) = replicate 6 fair"
  "fates_of 2 (demo_epochs e1 e2 e3) = replicate 3 fair"
  by (simp_all add: demo_epochs_def demo_rounds_defs numeral_nat)

lemma served_easily:
  assumes "in_sync fs" and "\<forall>f \<in> set fs. ft_timer f" and "losses fs \<le> 2"
  shows "served fs"
proof -
  have "losses (take 6 (drop i fs)) \<le> 2" for i
  proof -
    have "losses fs = losses (take i fs) + (losses (take 6 (drop i fs)) + losses (drop 6 (drop i fs)))"
      by (metis append_take_drop_id losses_simps(3))
    with assms(3) show ?thesis by simp
  qed
  moreover have "\<exists>f \<in> set (take 5 (drop i fs)). ft_timer f" if "i + 5 \<le> length fs" for i
  proof -
    have "fs ! i \<in> set (take 5 (drop i fs))" using that by (simp add: Cons_nth_drop_Suc [symmetric] numeral_nat)
    moreover have "fs ! i \<in> set fs" using that by simp
    ultimately show ?thesis using assms(2) by blast
  qed
  ultimately show ?thesis using assms(1) by (simp add: served_def few_losses_def regular_def)
qed

lemma demo_bearable:
  "bearable (fates_of 0 (demo_epochs e1 e2 e3))" "bearable (fates_of 1 (demo_epochs e1 e2 e3))" "bearable (fates_of 2 (demo_epochs e1 e2 e3))"
  unfolding demo_fates_of bearable_def
  by (rule served_easily; simp add: synced_part_def fair_def lossy_def in_sync_def losses_def numeral_nat)+

lemma demo_bearable_before:
  "bearable (fates_of 0 [(e1, first_rounds)])" "bearable (fates_of 0 [(e1, first_rounds), (e2, second_rounds)])"
  "bearable (fates_of 1 [(e1, first_rounds), (e2, second_rounds)])"
  unfolding bearable_def by (rule served_easily; simp add: synced_part_def demo_rounds_defs lossy_def in_sync_def losses_def)+

lemma demo_lost:
  "timed_out (fates_of 0 [(e1, first_rounds), (e2, second_rounds)])" "since_lost (fates_of 0 [(e1, first_rounds), (e2, second_rounds)]) = 2"
  by (simp_all add: timed_out_def since_lost_def demo_rounds_defs)

lemma demo_leaves:
  "\<exists>adv' e1 e2 s qs. flasher_main demo flash_list 0 blank_device = Some (Flashed, adv') \<and> en_id e1 = 1 \<and> en_id e2 = 2 \<and>
    en_platform e1 = parsing_demo demo_parse \<and>
    flashed_life demo (\<lambda>p. p) (mac32 demo_hash) flash_list (psa_store adv') [(e1, first_rounds), (e2, second_rounds)] (s, qs)"
proof -
  have d: "0 < (1 :: nat)" "1 < length flash_list" "0 < (2 :: nat)" "(1 :: nat) < 3" "(2 :: nat) < 3" by (simp_all add: flash_list_ok)
  from flashed_devices_share_keys [where key_of = "\<lambda>p. p" and key_of' = "\<lambda>p. p" and adv = blank_device and sc = blank_device, OF demo_reliable demo_reliable flash_list_ok(5,5) d(1,2) flash_list_ok(2,3)] obtain adv' where
    adv': "flasher_main demo flash_list 0 blank_device = Some (Flashed, adv')" by blast
  let ?s = "started demo (psa_store adv')" and ?ent = "flashed_entrant (\<lambda>p. p) (mac32 demo_hash) flash_list"
    and ?life = "flashed_life demo (\<lambda>p. p) (mac32 demo_hash) flash_list (psa_store adv')"
  from demo_enters [OF d(1,4), of ?s] obtain e1 where
    e1: "?ent e1" "hears_slots demo_tag ?s e1" "en_id e1 = 1" "en_platform e1 = parsing_demo demo_parse" by auto
  obtain s1 qs1 where r1: "network_life demo [(e1, first_rounds)] (?s, []) = (s1, qs1)" by (metis prod.exhaust)
  from demo_enters [OF d(3,5), of s1] obtain e2 where e2: "?ent e2" "hears_slots demo_tag s1 e2" "en_id e2 = 2" by auto
  let ?es = "[(e1, first_rounds), (e2, second_rounds)]"
  obtain s2 qs2 where r2: "network_life demo ?es (?s, []) = (s2, qs2)" by (metis prod.exhaust)
  have ok: "life_ok demo_tag demo [(e1, first_rounds)] (?s, [])"
    using e1(2) by (simp add: life_ok_def epoch_ok_def network_life_def first_rounds_def)
  then have "?life [(e1, first_rounds)] (s1, qs1)" using e1(1) demo_bearable_before(1) r1 by (simp add: flashed_life_def)
  moreover have "2 * rounds_in [(e1, first_rounds)] + 1 < 2 ^ 64" by (simp add: rounds_in_def first_rounds_def)
  ultimately have "map st_id qs1 = map (en_id \<circ> fst) [(e1, first_rounds)]"
    using life_steady [OF demo_reliable flash_list_ok(5,1-3) adv'] by blast
  then have "length qs1 = 1" by (metis length_Cons length_map list.size(3) One_nat_def)
  then have "life_ok demo_tag demo ([(e1, first_rounds)] @ [(e2, second_rounds)]) (?s, [])"
    unfolding life_ok_snoc using ok r1 e2(2) by (simp add: epoch_ok_def second_rounds_def)
  then have "?life ?es (s2, qs2)" using e1(1) e2(1) demo_bearable_before(2,3) r2 by (auto simp: flashed_life_def less_Suc_eq)
  with adv' e1(3,4) e2(3) show ?thesis by blast
qed

text \<open>The first scanner once more, with the report of the slots of that time.\<close>

definition demo_again :: "key_map advertiser \<Rightarrow> key_map station list \<Rightarrow> key_map entrant \<Rightarrow> key_map entrant \<Rightarrow> key_map entrant" where
  "demo_again s qs e1 e2 = again demo_info (demo_advert s) qs 0 [(e1, first_rounds), (e2, second_rounds)]"

lemma demo_again_reports:
  "en_platform e1 = parsing_demo demo_parse \<Longrightarrow>
    reports (en_platform (demo_again s qs e1 e2)) demo_info (demo_advert s) (advertised s @ demo_tag (advertised s))"
  by (simp add: demo_again_def again_def demo_reports demo_advert_def)

lemma demo_two_rounds: "2 * rounds_in [(e1, first_rounds), (e2, second_rounds)] + 1 < 2 ^ 64"
  by (simp add: rounds_in_def first_rounds_def second_rounds_def)

lemma demo_life:
  "\<exists>adv' e1 e2 e3 s qs. flasher_main demo flash_list 0 blank_device = Some (Flashed, adv') \<and> en_id e1 = 1 \<and> en_id e2 = 2 \<and> en_id e3 = 1 \<and>
    flashed_life demo (\<lambda>p. p) (mac32 demo_hash) flash_list (psa_store adv') (demo_epochs e1 e2 e3) (s, qs)"
proof -
  from demo_leaves obtain adv' e1 e2 s2 qs2 where
    adv': "flasher_main demo flash_list 0 blank_device = Some (Flashed, adv')" and e: "en_id e1 = 1" "en_id e2 = 2" "en_platform e1 = parsing_demo demo_parse" and
    life: "flashed_life demo (\<lambda>p. p) (mac32 demo_hash) flash_list (psa_store adv') [(e1, first_rounds), (e2, second_rounds)] (s2, qs2)"
    by blast
  let ?s = "started demo (psa_store adv')" and ?ent = "flashed_entrant (\<lambda>p. p) (mac32 demo_hash) flash_list"
    and ?es2 = "[(e1, first_rounds), (e2, second_rounds)]" and ?e3 = "demo_again s2 qs2 e1 e2"
  let ?es = "demo_epochs e1 e2 ?e3"
  have e3: "?ent ?e3 \<and> hears_slots demo_tag s2 ?e3"
    using lost_may_return [OF demo_reliable flash_list_ok(5,1-3) adv' life demo_two_rounds _ demo_lost(1) _ demo_again_def demo_again_reports [OF e(3)]]
    by (simp add: demo_lost(2))
  from life_steady [OF demo_reliable flash_list_ok(5,1-3) adv' life demo_two_rounds] have "map st_id qs2 = map (en_id \<circ> fst) ?es2" by simp
  then have "length qs2 = length ?es2" by (metis length_map)
  then have "life_ok demo_tag demo (?es2 @ [(?e3, third_rounds)]) (?s, [])"
    unfolding life_ok_snoc using life e3 by (simp add: flashed_life_def epoch_ok_def third_rounds_def)
  then have "life_ok demo_tag demo ?es (?s, [])" by (simp add: demo_epochs_def)
  moreover obtain s qs where "network_life demo ?es (?s, []) = (s, qs)" by (metis prod.exhaust)
  moreover have "\<forall>(e, fss) \<in> set ?es. ?ent e" "length ?es = 3" using life e3 by (simp_all add: flashed_life_def demo_epochs_def)
  moreover have "en_id ?e3 = 1" by (simp add: demo_again_def again_def e(1))
  moreover have "\<forall>n < length ?es. bearable (fates_of n ?es)"
    using demo_bearable [of e1 e2 ?e3] by (simp add: demo_epochs_def less_Suc_eq numeral_nat)
  ultimately show ?thesis
    using adv' e(1,2)
    by (intro exI [of _ adv'] exI [of _ e1] exI [of _ e2] exI [of _ ?e3] exI [of _ s] exI [of _ qs]) (simp add: flashed_life_def)
qed

lemma demo_rounds: "2 * rounds_in (demo_epochs e1 e2 e3) + 13 < 2 ^ 64"
  by (simp add: rounds_in_def demo_epochs_def first_rounds_def second_rounds_def third_rounds_def)

section \<open>The properties\<close>

text \<open>C1: the whole system from the flasher on: the advertiser is flashed and starts with no scanners; up to
  4700 times a scanner flashed from the same keys enters, one after another and at least three rounds
  apart, each from the signed advertisement of the register slots of its time; the host of a scanner may lose its
  sync at any time, for any reason, and until then the scanner loses at most two of its messages and responses in any
  six rounds, and its timer expires at least once in any five. Then at the end of every epoch all
  scanners are in the network in their order; each of those that have kept their sync is registered and is the
  holder of its slot in the advertiser's table, and their slots are distinct; the others have stopped their timers
  and have no sync; every slot on offer exists and is free; and no slot is both held and free or advertised, or
  listed twice.\<close>

theorem network_grows:
  assumes "pawr_reliable pf key_of mac" and "counter_readable (key_of (psa_store adv)) (COUNTER_ID pf)"
    and "keys \<noteq> []" and "length keys \<le> 65536" and "\<forall>k \<in> set keys. length k = MAC_LEN" and "flasher_main pf keys 0 adv = Some (ra, adv')"
    and "flashed_life pf key_of' mac keys (psa_store adv') es (s', qs')" and "2 * rounds_in es + 1 < 2 ^ 64"
  shows "map st_id qs' = map (en_id \<circ> fst) es \<and> settled {n. n < length es \<and> in_sync (fates_of n es)} s' qs' \<and>
    (\<forall>n < length es. \<not> in_sync (fates_of n es) \<longrightarrow> gone (st_dev (qs' ! n))) \<and>
    (\<forall>d \<in> set (register_subevent_data s'). slot_exists (unat (subevent d), unat (rsp_slot d)) \<and>
      view_at s' (unat (subevent d), unat (rsp_slot d)) = Free) \<and> slots_disjoint s'"
proof -
  from life_steady [OF assms] have
    st: "steady pf key_of key_of' mac (key_of (psa_store adv')) (keys ! 0) (\<lambda>n. fates_of n es) s' qs' (phases_of es)" and
    ids: "map st_id qs' = map (en_id \<circ> fst) es"
    by simp_all
  from ids have l: "length qs' = length es" by (metis length_map)
  have life: "life_ok (mac (keys ! 0)) pf es (started pf (psa_store adv'), [])" "\<forall>n < length es. bearable (fates_of n es)"
    using assms(7) by (simp_all add: flashed_life_def)
  have "settled {n. n < length es \<and> in_sync (fates_of n es)} s' qs'"
    by (rule steady_settled [OF st]) (use life three_rounds [OF life(1)] bearable_served l in auto)
  moreover have "gone (st_dev (qs' ! n))" if n: "n < length es" "\<not> in_sync (fates_of n es)" for n
    using steadyD(1,5) [OF st] n by (fastforce simp: fleet_ok_def station_ok_def l)
  moreover from steadyD(2) [OF st] obtain a where a: "adv_sim key_of (key_of (psa_store adv')) (mac (keys ! 0)) s' a" "alloc_ok a"
      "slot_number (a_next a) \<le> 10 + card (claimed s' qs' (phases_of es))"
    by (auto simp: handed_out_def)
  have "slot_number (a_next a) \<le> NUM_RSP_SLOTS * MAX_NUM_SUBEVENTS"
    using a(3) claimed_few(1) [of s' qs' "phases_of es"] assms(7) by (simp add: flashed_life_def l adv_sizes)
  with advertised_slot_free [OF a(1,2)] have "\<forall>d \<in> set (register_subevent_data s').
      slot_exists (unat (subevent d), unat (rsp_slot d)) \<and> view_at s' (unat (subevent d), unat (rsp_slot d)) = Free"
    by blast
  moreover have "slots_disjoint s'" using steadyD(2) [OF st] slots_disjoint_sim(1) by (fastforce simp: handed_out_def)
  ultimately show ?thesis using ids by simp
qed

theorem network_grows_witness:
  "\<exists>p (e1 :: key_map entrant) e2 e3 s qs. network_life demo (demo_epochs e1 e2 e3) (started demo p, []) = (s, qs) \<and>
    map st_id qs = [1, 2, 1] \<and> settled {1, 2} s qs \<and> gone (st_dev (qs ! 0))"
proof -
  from demo_life obtain adv' e1 e2 e3 s qs where
    adv': "flasher_main demo flash_list 0 blank_device = Some (Flashed, adv')" and e: "en_id e1 = 1" "en_id e2 = 2" "en_id e3 = 1" and
    life: "flashed_life demo (\<lambda>p. p) (mac32 demo_hash) flash_list (psa_store adv') (demo_epochs e1 e2 e3) (s, qs)"
    by blast
  let ?es = "demo_epochs e1 e2 e3"
  have l: "length ?es = 3" by (simp add: demo_epochs_def)
  have sync: "\<not> in_sync (fates_of 0 ?es)" "in_sync (fates_of 1 ?es)" "in_sync (fates_of 2 ?es)"
    unfolding demo_fates_of by (simp_all add: in_sync_def fair_def list_all_iff)
  then have J: "{n. n < length ?es \<and> in_sync (fates_of n ?es)} = {1, 2}" by (auto simp: l less_Suc_eq numeral_nat)
  have "2 * rounds_in ?es + 1 < 2 ^ 64" using demo_rounds [of e1 e2 e3] by simp
  from network_grows [OF demo_reliable flash_list_ok(5,1-3) adv' life this, unfolded J] e l sync(1)
  have "map st_id qs = [1, 2, 1]" "settled {1, 2} s qs" "gone (st_dev (qs ! 0))" by (simp_all add: demo_epochs_def)
  moreover have "network_life demo ?es (started demo (psa_store adv'), []) = (s, qs)"
    using life by (simp add: flashed_life_def)
  ultimately show ?thesis
    by (intro exI [of _ "psa_store adv'"] exI [of _ e1] exI [of _ e2] exI [of _ e3] exI [of _ s] exI [of _ qs] conjI)
qed

text \<open>C2: and it delivers: in a network that has grown like that, whenever the timer of a scanner
  expires in the next round, the scanner has the ack of its data within six rounds.\<close>

theorem grown_network_delivers:
  assumes "pawr_reliable pf key_of mac" and "counter_readable (key_of (psa_store adv)) (COUNTER_ID pf)"
    and "keys \<noteq> []" and "length keys \<le> 65536" and "\<forall>k \<in> set keys. length k = MAC_LEN" and "flasher_main pf keys 0 adv = Some (ra, adv')"
    and "flashed_life pf key_of' mac keys (psa_store adv') es (s', qs')" and "2 * rounds_in es + 13 < 2 ^ 64"
    and "length fss = 6" and "\<forall>fs \<in> set fss. length fs = length es" and "n < length es" and "few_losses (column n fss)"
    and "timer_running (zlog (st_dev (qs' ! n)))" and "ft_timer (fss ! 0 ! n)"
  shows "\<exists>m \<le> 6. 0 < m \<and> informed False EVT_GOT_ACK (device_at pf fss (s', qs') n m)"
proof -
  have "2 * rounds_in es + 1 < 2 ^ 64" using assms(8) by simp
  from life_steady [OF assms(1-7) this] have
    st: "steady pf key_of key_of' mac (key_of (psa_store adv')) (keys ! 0) (\<lambda>n. fates_of n es) s' qs' (phases_of es)" and
    time: "adv_time s' \<le> 2 * rounds_in es" and ids: "map st_id qs' = map (en_id \<circ> fst) es"
    by simp_all
  from ids have l: "length qs' = length es" by (metis length_map)
  note fleet = steadyD(1) [OF st]
  have ok: "station_ok pf key_of key_of' mac (key_of (psa_store adv')) (keys ! 0) s' (qs' ! n) (phases_of es ! n)"
    using fleet assms(11) by (simp add: fleet_ok_def l)
  have "phases_of es ! n \<noteq> Gone" using ok assms(13) by (auto simp: station_ok_def gone_def)
  then have "in_sync (fates_of n es)" using steadyD(5) [OF st] assms(11) by (auto simp: l)
  from steadyD(3) [OF st _ this] assms(11) have p: "persists (fates_of n es) (phases_of es ! n)" by (simp add: secure_def l)
  from persists_registered(2) [OF ok p assms(13)]
  have ph: "after_timer True (phases_of es ! n) \<in> {Asking False 0, Heard False 0}" .
  obtain fs fss' where f: "fss = fs # fss'" "length fss' = 5" using assms(9) by (auto simp: length_Suc_conv numeral_nat)
  have col: "column n fss = fs ! n # column n fss'" "length (column n fss') = 5" by (simp_all add: f column_def)
  have loss: "in_sync (fs ! n # column n fss')" "losses (fs ! n # column n fss') \<le> 2"
    using few_losses_in_sync [OF assms(12)] few_losses_window [of "[]" "column n fss"] assms(12) col by simp_all
  have timer: "ft_timer (fs ! n)" using assms(14) by (simp add: f)
  from expiry_told [OF timer ph loss] col(2) obtain m where m: "m \<le> 5" "fold next_phase (take (Suc m) (column n fss)) (phases_of es ! n) = Told False"
    unfolding col by blast
  note ka = flashed_advertiser_key(1) [OF assms(1-6)]
  have "\<exists>m \<le> 6. 0 < m \<and> m \<le> length fss \<and> fold next_phase (take m (column n fss)) (phases_of es ! n) = Told False"
    using m assms(9) by (intro exI [of _ "Suc m"]) simp
  from station_told [OF assms(1) ka fleet _ _ _ this] assms(8-11) time l show ?thesis by auto
qed

theorem grown_network_delivers_witness:
  "\<exists>p (e1 :: key_map entrant) e2 e3. \<exists>m \<le> 6. 0 < m \<and> informed False EVT_GOT_ACK
    (device_at demo (replicate 6 [fair, fair, fair]) (network_life demo (demo_epochs e1 e2 e3) (started demo p, [])) 2 m)"
proof -
  from demo_life obtain adv' e1 e2 e3 s qs where
    adv': "flasher_main demo flash_list 0 blank_device = Some (Flashed, adv')" and
    life: "flashed_life demo (\<lambda>p. p) (mac32 demo_hash) flash_list (psa_store adv') (demo_epochs e1 e2 e3) (s, qs)"
    by blast
  let ?es = "demo_epochs e1 e2 e3" and ?fss = "replicate 6 [fair, fair, fair]"
  have l: "length ?es = 3" by (simp add: demo_epochs_def)
  have "2 * rounds_in ?es + 1 < 2 ^ 64" using demo_rounds [of e1 e2 e3] by simp
  from life_steady [OF demo_reliable flash_list_ok(5,1-3) adv' life this]
  have fleet: "fleet_ok demo (\<lambda>p. p) (\<lambda>p. p) (mac32 demo_hash) (psa_store adv') (flash_list ! 0) s qs (phases_of ?es)"
    and ids: "map st_id qs = map (en_id \<circ> fst) ?es"
    using steadyD(1) by blast+
  from ids have "length qs = 3" by (metis l length_map)
  moreover have "phases_of ?es ! 2 = Asleep"
    using demo_fates_of(3) [of e1 e2 e3] by (simp add: phases_of_def l) (simp add: fair_def next_phase_def after_wait_def numeral_nat)
  ultimately have "asleep (st_dev (qs ! 2))"
    using fleet by (auto simp: fleet_ok_def station_ok_def dest!: spec [of _ 2])
  then have timer: "timer_running (zlog (st_dev (qs ! 2)))" by (simp add: asleep_def)
  have few: "few_losses (column 2 ?fss)" using served_easily [of "column 2 ?fss"] by (simp add: served_def column_def fair_def lossy_def losses_def in_sync_def list_all_iff)
  have len: "length ?fss = 6" "\<forall>fs \<in> set ?fss. length fs = length ?es" "2 < length ?es" "ft_timer (?fss ! 0 ! 2)" by (simp_all add: fair_def l)
  from grown_network_delivers [OF demo_reliable flash_list_ok(5,1-3) adv' life demo_rounds len(1-3) few timer len(4)]
  have "\<exists>m \<le> 6. 0 < m \<and> informed False EVT_GOT_ACK (device_at demo ?fss (s, qs) 2 m)" .
  moreover have "network_life demo ?es (started demo (psa_store adv'), []) = (s, qs)" using life by (simp add: flashed_life_def)
  ultimately show ?thesis by (intro exI [of _ "psa_store adv'"] exI [of _ e1] exI [of _ e2] exI [of _ e3]) (simp only:)
qed

text \<open>C3: and a scanner that has lost its sync comes back: in a network that has grown like that, a scanner whose sync
  timed out at least two rounds ago enters again as it is, without a reboot, as soon as its host reports the signed
  advertisement of the register slots with the advertiser's counter: it waits for its confirmation in a slot that is
  free, and the life of the network goes on from there as before.\<close>

theorem lost_scanner_returns:
  assumes "pawr_reliable pf key_of mac" and "counter_readable (key_of (psa_store adv)) (COUNTER_ID pf)"
    and "keys \<noteq> []" and "length keys \<le> 65536" and "\<forall>k \<in> set keys. length k = MAC_LEN" and "flasher_main pf keys 0 adv = Some (ra, adv')"
    and "flashed_life pf key_of' mac keys (psa_store adv') es (s', qs')" and "2 * rounds_in es + 1 < 2 ^ 64" and "length es < 4700"
    and "n < length es" and "timed_out (fates_of n es)" and "2 \<le> since_lost (fates_of n es)" and "e = again info bytes qs' n es"
    and "reports (en_platform e) info bytes (advertised s' @ mac (keys ! 0) (advertised s'))"
  shows "\<exists>t. enter e qs' = qs' @ [entered e t] \<and> expects True 0 t \<and> view_at s' (station_slot (entered e t)) = Free \<and>
    (\<forall>fss. 3 \<le> length fss \<and> (\<forall>fs \<in> set fss. length fs = Suc (length es)) \<and>
        (\<forall>m \<le> length es. bearable (fates_of m (es @ [(e, fss)]))) \<longrightarrow>
      flashed_life pf key_of' mac keys (psa_store adv') (es @ [(e, fss)]) (network_run pf fss (s', qs' @ [entered e t])))"
proof -
  from life_steady [OF assms(1-8)] have
    st: "steady pf key_of key_of' mac (key_of (psa_store adv')) (keys ! 0) (\<lambda>n. fates_of n es) s' qs' (phases_of es)" and
    time: "adv_time s' \<le> 2 * rounds_in es" and ids: "map st_id qs' = map (en_id \<circ> fst) es"
    by simp_all
  from ids have l: "length qs' = length es" by (metis length_map)
  from lost_may_return [OF assms(1-8) assms(10-14)] have
    e: "flashed_entrant key_of' mac keys e" "hears_slots (mac (keys ! 0)) s' e"
    by simp_all
  have few: "10 + card (claimed s' qs' (phases_of es)) \<le> NUM_RSP_SLOTS * MAX_NUM_SUBEVENTS"
    using claimed_few(1) [of s' qs' "phases_of es"] assms(9) by (simp add: l adv_sizes)
  have room: "adv_time s' + 1 < 2 ^ 64" using time assms(8) by simp
  from entrant_joins [OF assms(1,2,4-6) steadyD(2) [OF st] few e room] obtain t where
    t: "join (en_platform e) (en_info e) (en_bytes e) (en_sync e) (en_dev e) = Some t"
      "station_ok pf key_of key_of' mac (key_of (psa_store adv')) (keys ! 0) s' (entered e t) (Asking True 0)"
      "view_at s' (station_slot (entered e t)) = Free"
    by blast
  have enter: "enter e qs' = qs' @ [entered e t]" by (simp add: enter_def t(1))
  have "expects True 0 t" using t(2) by (simp add: station_ok_def entered_def)
  moreover have "flashed_life pf key_of' mac keys (psa_store adv') (es @ [(e, fss)]) (network_run pf fss (s', qs' @ [entered e t]))"
    if "3 \<le> length fss" "\<forall>fs \<in> set fss. length fs = Suc (length es)" "\<forall>m \<le> length es. bearable (fates_of m (es @ [(e, fss)]))" for fss
    using assms(7,9) e that l
    by (simp add: flashed_life_def life_ok_snoc epoch_ok_def less_Suc_eq_le) (simp add: network_life_def epoch_def enter)
  ultimately show ?thesis using t(3) enter by blast
qed

theorem lost_scanner_returns_witness:
  "\<exists>p e1 e2 s qs t. network_life demo [(e1, first_rounds), (e2, second_rounds)] (started demo p, []) = (s, qs) \<and>
    enter (demo_again s qs e1 e2) qs = qs @ [entered (demo_again s qs e1 e2) t] \<and> expects True 0 t"
proof -
  from demo_leaves obtain adv' e1 e2 s qs where
    adv': "flasher_main demo flash_list 0 blank_device = Some (Flashed, adv')" and e1: "en_platform e1 = parsing_demo demo_parse" and
    life: "flashed_life demo (\<lambda>p. p) (mac32 demo_hash) flash_list (psa_store adv') [(e1, first_rounds), (e2, second_rounds)] (s, qs)"
    by blast
  have pre: "length [(e1, first_rounds), (e2, second_rounds)] < 4700" "0 < length [(e1, first_rounds), (e2, second_rounds)]"
    "2 \<le> since_lost (fates_of 0 [(e1, first_rounds), (e2, second_rounds)])"
    by (simp_all add: demo_lost(2))
  from lost_scanner_returns [OF demo_reliable flash_list_ok(5,1-3) adv' life demo_two_rounds pre(1,2) demo_lost(1) pre(3) demo_again_def
      demo_again_reports [OF e1]]
  obtain t where "enter (demo_again s qs e1 e2) qs = qs @ [entered (demo_again s qs e1 e2) t]" "expects True 0 t" by blast
  moreover have "network_life demo [(e1, first_rounds), (e2, second_rounds)] (started demo (psa_store adv'), []) = (s, qs)"
    using life by (simp add: flashed_life_def)
  ultimately show ?thesis
    by (intro exI [of _ "psa_store adv'"] exI [of _ e1] exI [of _ e2] exI [of _ s] exI [of _ qs] exI [of _ t] conjI)
qed

end
