(* ===== verification/Giving_Up.thy ===== *)
theory Giving_Up
  imports Joining
begin

text \<open>
  What becomes of a scanner that has missed its confirmation or its acks: it deletes its sync, and the report of the
  deletion ends every new confirmation before it has begun.
\<close>

section \<open>Trying again\<close>

text \<open>One attempt of the scanner to get back: \<open>syncing\<close> deletes the sync, if there is one, and the host reports
  the deletion, with reason 22; the host reports an advertisement. If the scanner takes it, the main thread goes on
  to the confirmation, the host synchronises while it sleeps there, the messages \<open>ms\<close> arrive before the sleep is
  over, and the main thread leaves its wait as soon as it can; if the scanner does not take it, it goes on scanning. One that
  has come to the fault state makes no more attempts until it reboots.\<close>

type_synonym messages = "(bt_le_per_adv_sync_recv_info \<times> net_buf_simple) list"

definition hears_all :: "'q platform \<Rightarrow> sync_ptr \<Rightarrow> messages \<Rightarrow> 'q scanner \<Rightarrow> 'q scanner" where
  "hears_all pf sync ms s = fold (\<lambda>(info, b). recv_dispatch pf sync info (Some b)) ms s"

definition scanning :: "'q platform \<Rightarrow> 'q scanner \<Rightarrow> 'q scanner" where
  "scanning pf s = (if sc_at s = At_run then term_cb pf 22 (syncing_enter pf s) else s)"

definition join_hearing :: "'q platform \<Rightarrow> bt_le_scan_recv_info \<Rightarrow> byte list \<Rightarrow> sync_ptr \<Rightarrow> messages \<Rightarrow> 'q scanner \<Rightarrow> 'q scanner option" where
  "join_hearing pf info bytes sync ms t =
     Option.bind (scan_recv_cb pf (Some info) bytes t) (\<lambda>t.
     Option.bind (sc_main pf t) (\<lambda>t.
     Option.bind (sc_main pf t) (\<lambda>t. sc_main pf (hears_all pf sync ms (sync_cb pf sync t)))))"

definition attempt :: "'q platform \<Rightarrow> bt_le_scan_recv_info \<times> byte list \<times> sync_ptr \<times> messages \<Rightarrow> 'q scanner \<Rightarrow> 'q scanner" where
  "attempt pf = (\<lambda>(info, bytes, sync, ms) s.
     if sc_state s = SC_FAULT_HANDLING then s
     else case join_hearing pf info bytes sync ms (scanning pf s) of
       Some t \<Rightarrow> (case sc_main pf t of None \<Rightarrow> t | Some t' \<Rightarrow> t')
     | None \<Rightarrow> (case scan_recv_cb pf (Some info) bytes (scanning pf s) of None \<Rightarrow> scanning pf s | Some t \<Rightarrow> t))"

text \<open>Without messages this is how a new device joins.\<close>

lemma join_silent: "join_hearing pf info bytes sync [] t = join pf info bytes sync t"
  by (simp add: join_hearing_def join_def hears_all_def)

definition some_heard :: "(bt_le_scan_recv_info \<times> byte list \<times> sync_ptr \<times> messages) list \<Rightarrow> bool" where
  "some_heard xs \<longleftrightarrow> (\<exists>(info, bytes, sync, ms) \<in> set xs. ms \<noteq> [])"

lemma scan_stays:
  assumes "scan_recv_cb pf info bytes s = Some s'"
  shows "sc_at s' = sc_at s"
proof -
  have v: "sc_at (snd (snd (sc_verify pf b t))) = sc_at t" for b and t :: "'a scanner"
    by (simp add: sc_verify_def split_beta)
  have d: "sc_at t' = sc_at t" if "parse_adv_data pf d t = Some (g, e, t')" for d g e and t t' :: "'a scanner"
    using that v by (auto simp: parse_adv_data_def zephyr_do_def Let_def split_beta split: if_splits)
  have e: "sc_at t' = sc_at t" if "parse_elems pf ds t = Some (e, t')" for ds e and t t' :: "'a scanner"
    using that by (induction ds arbitrary: t) (auto split: option.splits if_splits dest!: d)
  show ?thesis
    using assms by (auto simp: scan_recv_cb_def zephyr_call_def Let_def split: option.splits if_splits dest!: e)
qed

text \<open>The scanner is about to delete a sync, or the report of a deletion is waiting for it.\<close>

definition stale :: "'q scanner \<Rightarrow> bool" where
  "stale s \<longleftrightarrow> sc_at s = Syncing_wait \<and> sc_state s = SYNCING \<and> sem_count (synced_evt_sem s) = 1 \<and> fault_reason s = EVT_BLE_SYNC_DELETED"

definition trapped :: "'q scanner \<Rightarrow> bool" where
  "trapped s \<longleftrightarrow> sem_ok (synced_evt_sem s) \<and> sc_state s = SYNCING \<and> (sc_at s = At_run \<and> default_sync s \<noteq> None \<or> stale s) \<and>
     recv s \<in> {No_recv, Ack_recv}"

text \<open>Messages in the sleep before the confirmation meet the callback for acks, if \<open>enabled\<close> has left it installed, and
  overwrite the report, but never with a confirmation.\<close>

definition sleeps_on :: "'q scanner \<Rightarrow> bool" where
  "sleeps_on s \<longleftrightarrow> sc_at s = Confirming_slept \<and> sc_state s = CONFIRMING \<and> default_sync s \<noteq> None \<and> recv s \<in> {No_recv, Ack_recv} \<and>
     sem_limit (synced_evt_sem s) = 1 \<and> sem_count (synced_evt_sem s) = 1 \<and>
     fault_reason s \<in> {EVT_BLE_SYNC_DELETED, EVT_INVALID_HASH, EVT_GOT_ACK, EVT_DIDNT_RECEIVE_ACK}"

lemma recv_keeps_sync: "default_sync (recv_dispatch pf sync info buf s) = default_sync s"
  by (auto simp: recv_dispatch_def register_recv_cb_def confirm_recv_cb_def ack_recv_cb_def sc_verify_def set_rsp_data_def
      give_synced_evt_def zephyr_call_def Let_def split: recv_cb.split option.split prod.split)

lemma ack_recv_event:
  shows "(synced_evt_sem (ack_recv_cb pf sync info buf s), fault_reason (ack_recv_cb pf sync info buf s)) \<in>
     {(synced_evt_sem s, fault_reason s)} \<union> {k_sem_give pf (synced_evt_sem s)} \<times> {EVT_INVALID_HASH, EVT_GOT_ACK, EVT_DIDNT_RECEIVE_ACK}"
  and "recv (ack_recv_cb pf sync info buf s) \<in> {recv s, No_recv}"
  by (auto simp: ack_recv_cb_def sc_verify_def set_rsp_data_def give_synced_evt_def zephyr_call_def Let_def split_beta split: option.split)

lemma scan_keeps_recv: "scan_recv_cb pf info bytes s = Some s' \<Longrightarrow> recv s \<in> {No_recv, Ack_recv} \<Longrightarrow> recv s' \<in> {No_recv, recv s}"
  by (drule scan_recv_cb_frame) (auto simp: data_frame_def)

lemma attempts_stop: "sc_state s = SC_FAULT_HANDLING \<Longrightarrow> fold (attempt pf) xs s = s"
  by (induction xs) (auto simp: attempt_def)

text \<open>The attempt that was taken is back at once: in \<open>SYNCING\<close>, with no callback installed any more, or in the fault state.\<close>

definition returned :: "bool \<Rightarrow> 'q scanner \<Rightarrow> bool" where
  "returned heard t \<longleftrightarrow> sc_at t = At_run \<and> (trapped t \<and> recv t = No_recv \<or> sc_state t = SC_FAULT_HANDLING \<and> heard)"

context pawr_platform
begin

lemma hears_all_sleeps:
  assumes "sleeps_on s"
  shows "sleeps_on (hears_all pf sync ms s) \<and> (ms = [] \<or> recv s = No_recv \<longrightarrow> hears_all pf sync ms s = s)"
  using assms
proof (induction ms arbitrary: s)
  case Nil
  then show ?case by (simp add: hears_all_def)
next
  case (Cons m ms)
  obtain info b where m: "m = (info, b)" by (cases m)
  let ?s = "recv_dispatch pf sync info (Some b) s"
  have silent: "?s = s" if "recv s = No_recv" using that by (simp add: recv_dispatch_def)
  have "sleeps_on ?s"
  proof (cases "recv s = No_recv")
    case True
    with Cons.prems silent show ?thesis by simp
  next
    case False
    with Cons.prems have r: "recv s = Ack_recv" by (simp add: sleeps_on_def)
    then have s: "?s = ack_recv_cb pf sync info (Some b) s" by (simp add: recv_dispatch_def)
    show ?thesis
      using Cons.prems recv_cbs_state [of pf sync info "Some b" s] recv_keeps_sync [of pf sync info "Some b" s]
        ack_recv_event [of pf sync info "Some b" s] r
      unfolding s by (auto simp: sleeps_on_def sem_give)
  qed
  from Cons.IH [OF this] Cons.prems show ?case by (cases "recv s = No_recv") (simp_all add: hears_all_def m silent)
qed

lemma scanning_stale:
  assumes "trapped s" and "scan_starts pf"
  shows "stale (scanning pf s) \<and> sem_ok (synced_evt_sem (scanning pf s)) \<and> recv (scanning pf s) = recv s \<and>
    responses_sent (zlog (scanning pf s)) = responses_sent (zlog s)"
proof (cases "sc_at s = At_run")
  case True
  then show ?thesis
    using assms
    by (auto simp: trapped_def scanning_def stale_def term_cb_def syncing_enter_def zephyr_call_def scan_starts_def zephyr_do_def
        sc_wait_def sem_give sem_ok_def Let_def)
qed (use assms(1) in \<open>simp add: trapped_def scanning_def\<close>)

lemma sleep_ends:
  assumes "sleeps_on s"
  shows "\<exists>t. sc_main pf (confirming_start s) = Some t \<and> returned (fault_reason s \<in> {EVT_GOT_ACK, EVT_DIDNT_RECEIVE_ACK}) t \<and>
    responses_sent (zlog t) = responses_sent (zlog s)"
  using assms
  by (auto simp: sleeps_on_def confirming_start_def sc_main_def confirming_resume_def sc_wait_def sc_return_def sem_take sem_reset
      returned_def trapped_def sem_ok_def Let_def)

lemma stale_joins:
  assumes "stale u" and "sem_ok (synced_evt_sem u)" and "recv u \<in> {No_recv, Ack_recv}" and "join_hearing pf info bytes sync ms u = Some t"
  shows "\<exists>t'. sc_main pf t = Some t' \<and> returned (recv u \<noteq> No_recv \<and> ms \<noteq> []) t' \<and>
    (ms = [] \<or> recv u = No_recv \<longrightarrow> responses_sent (zlog t') = responses_sent (zlog u))"
proof -
  from assms(4) obtain t1 t2 t3 where
    j: "scan_recv_cb pf (Some info) bytes u = Some t1" "sc_main pf t1 = Some t2" "sc_main pf t2 = Some t3"
      "sc_main pf (hears_all pf sync ms (sync_cb pf sync t3)) = Some t"
    by (auto simp: join_hearing_def bind_eq_Some_conv)
  have t1: "sc_at t1 = Syncing_wait" "sem_count (synced_evt_sem t1) = 1" "fault_reason t1 = EVT_BLE_SYNC_DELETED" "sem_ok (synced_evt_sem t1)"
      "responses_sent (zlog t1) = responses_sent (zlog u)" "recv t1 \<in> {No_recv, recv u}"
    using scan_stays [OF j(1)] scan_keeps_event [OF j(1)] scan_recv_cb_up [OF j(1)] scan_keeps_recv [OF j(1) assms(3)] assms(1,2)
    by (simp_all add: stale_def counter_up_def)
  from j(2) t1(1) obtain x where t2: "t2 = sc_return CONFIRMING (t1\<lparr>synced_sem := x\<rparr>)"
    by (auto simp: sc_main_def syncing_resume_def split: option.splits)
  have t3: "t3 = confirming_enter t2" using j(3) by (simp add: t2 sc_main_def sc_run_state_def sc_return_def)
  let ?v = "sync_cb pf sync t3"
  have v: "sleeps_on ?v" "recv ?v = recv t1" "responses_sent (zlog ?v) = responses_sent (zlog u)" "fault_reason ?v = EVT_BLE_SYNC_DELETED"
    using t1 assms(3)
    by (auto simp: t3 t2 sleeps_on_def sync_cb_def confirming_enter_def sc_return_def sc_wait_def zephyr_do_def zephyr_call_def sem_ok_def Let_def)
  let ?w = "hears_all pf sync ms ?v"
  from hears_all_sleeps [OF v(1), of sync ms] have w: "sleeps_on ?w" "ms = [] \<or> recv u = No_recv \<longrightarrow> ?w = ?v"
    using v(2) t1(6) by auto
  have t: "t = confirming_start ?w" using j(4) w(1) by (simp add: sc_main_def sleeps_on_def)
  from sleep_ends [OF w(1)] obtain t' where t': "sc_main pf t = Some t'" "returned (fault_reason ?w \<in> {EVT_GOT_ACK, EVT_DIDNT_RECEIVE_ACK}) t'"
      "responses_sent (zlog t') = responses_sent (zlog ?w)"
    unfolding t by blast
  have "returned (recv u \<noteq> No_recv \<and> ms \<noteq> []) t'"
    using t'(2) w(2) v(4) by (auto simp: returned_def)
  with t' w(2) v(3) show ?thesis by auto
qed

text \<open>An advertisement that the scanner takes brings it as far as the confirmation, and back.\<close>

lemma attempt_taken:
  assumes "trapped s" and "scan_starts pf" and "scan_recv_cb pf (Some info) bytes (scanning pf s) = Some t" and "sem_count (synced_sem t) = 1"
  shows "returned (recv s \<noteq> No_recv \<and> ms \<noteq> []) (attempt pf (info, bytes, sync, ms) s)"
proof -
  note u = scanning_stale [OF assms(1,2)]
  let ?t2 = "sc_return CONFIRMING (t\<lparr>synced_sem := k_sem_reset pf ((synced_sem t)\<lparr>sem_count := 0\<rparr>)\<rparr>)"
  let ?v = "hears_all pf sync ms (sync_cb pf sync (confirming_enter ?t2))"
  have at: "sc_at t = Syncing_wait" "recv t \<in> {No_recv, Ack_recv}" "sem_limit (synced_evt_sem t) = 1" "sem_count (synced_evt_sem t) = 1"
      "fault_reason t = EVT_BLE_SYNC_DELETED"
    using scan_stays [OF assms(3)] scan_keeps_event [OF assms(3)] scan_keeps_recv [OF assms(3)] u assms(1)
    by (auto simp: stale_def trapped_def sem_ok_def)
  have m: "sc_main pf t = Some ?t2" using at assms(4) by (simp add: sc_main_def syncing_resume_def sem_take)
  have m2: "sc_main pf ?t2 = Some (confirming_enter ?t2)" by (simp add: sc_main_def sc_run_state_def sc_return_def)
  have "sleeps_on (sync_cb pf sync (confirming_enter ?t2))"
    using at by (auto simp: sleeps_on_def sync_cb_def confirming_enter_def sc_return_def sc_wait_def zephyr_do_def zephyr_call_def Let_def)
  from hears_all_sleeps [OF this, of sync ms] have m3: "sc_main pf ?v = Some (confirming_start ?v)"
    by (simp add: sc_main_def sleeps_on_def)
  have j: "join_hearing pf info bytes sync ms (scanning pf s) = Some (confirming_start ?v)"
    by (simp only: join_hearing_def assms(3) m m2 m3 Option.bind.simps)
  have "recv (scanning pf s) \<in> {No_recv, Ack_recv}" using u assms(1) by (simp add: trapped_def)
  from stale_joins [OF conjunct1 [OF u] conjunct1 [OF conjunct2 [OF u]] this j] j u assms(1) show ?thesis
    by (auto simp: attempt_def trapped_def)
qed

text \<open>After any number of attempts: trapped, or in the fault state. Once an attempt was taken, no callback is installed.\<close>

lemma attempt_trapped:
  assumes "trapped s" and "scan_starts pf"
  shows "(trapped (attempt pf (info, bytes, sync, ms) s) \<or>
      sc_state (attempt pf (info, bytes, sync, ms) s) = SC_FAULT_HANDLING \<and> recv s \<noteq> No_recv \<and> ms \<noteq> []) \<and>
    (sc_at (attempt pf (info, bytes, sync, ms) s) = At_run \<or> recv s = No_recv \<longrightarrow>
      recv (attempt pf (info, bytes, sync, ms) s) = No_recv \<or> sc_state (attempt pf (info, bytes, sync, ms) s) = SC_FAULT_HANDLING) \<and>
    (ms = [] \<or> recv s = No_recv \<longrightarrow> responses_sent (zlog (attempt pf (info, bytes, sync, ms) s)) = responses_sent (zlog s))"
proof -
  let ?u = "scanning pf s"
  note u = scanning_stale [OF assms]
  have r: "recv s \<in> {No_recv, Ack_recv}" "sc_state s = SYNCING" using assms(1) by (simp_all add: trapped_def)
  show ?thesis
  proof (cases "join_hearing pf info bytes sync ms ?u")
    case None
    show ?thesis
    proof (cases "scan_recv_cb pf (Some info) bytes ?u")
      case None
      with \<open>join_hearing pf info bytes sync ms ?u = None\<close> u r show ?thesis by (auto simp: attempt_def trapped_def stale_def)
    next
      case (Some t)
      with \<open>join_hearing pf info bytes sync ms ?u = None\<close> u r scan_stays [OF Some] scan_keeps_event [OF Some] scan_recv_cb_up [OF Some]
        scan_keeps_recv [OF Some]
      show ?thesis by (auto simp: attempt_def trapped_def stale_def counter_up_def)
    qed
  next
    case (Some t)
    from stale_joins [OF _ _ _ Some] u r Some show ?thesis by (auto simp: attempt_def returned_def)
  qed
qed

text \<open>Without a callback nothing is ever sent again.\<close>

lemma attempts_quiet:
  assumes "scan_starts pf" and "trapped s \<and> recv s = No_recv \<or> sc_state s = SC_FAULT_HANDLING"
  shows "responses_sent (zlog (fold (attempt pf) xs s)) = responses_sent (zlog s) \<and>
    (sc_state s \<noteq> SC_FAULT_HANDLING \<longrightarrow> sc_state (fold (attempt pf) xs s) = SYNCING)"
proof (cases "sc_state s = SC_FAULT_HANDLING")
  case True
  then show ?thesis by (simp add: attempts_stop)
next
  case False
  with assms(2) have "trapped s" "recv s = No_recv" by simp_all
  then show ?thesis
  proof (induction xs arbitrary: s)
    case Nil
    then show ?case by (simp add: trapped_def)
  next
    case (Cons x xs)
    obtain info bytes sync ms where x: "x = (info, bytes, sync, ms)" by (metis prod.exhaust)
    from attempt_trapped [OF Cons.prems(1) assms(1), of info bytes sync ms] Cons.prems(2)
    have "trapped (attempt pf x s)" "recv (attempt pf x s) = No_recv" "responses_sent (zlog (attempt pf x s)) = responses_sent (zlog s)"
      by (auto simp: x trapped_def)
    with Cons.IH [OF this(1,2)] Cons.prems(1) show ?case by (simp add: trapped_def)
  qed
qed

lemma attempts_trapped:
  assumes "trapped s" and "scan_starts pf"
  defines "u \<equiv> \<lambda>xs. fold (attempt pf) xs s"
  shows "(trapped (u xs) \<or> sc_state (u xs) = SC_FAULT_HANDLING \<and> recv s \<noteq> No_recv \<and> some_heard xs) \<and>
    (recv s = No_recv \<or> xs \<noteq> [] \<and> sc_at (u xs) = At_run \<longrightarrow> recv (u xs) = No_recv \<or> sc_state (u xs) = SC_FAULT_HANDLING) \<and>
    (recv s = No_recv \<or> \<not> some_heard xs \<longrightarrow> responses_sent (zlog (u xs)) = responses_sent (zlog s))"
  unfolding u_def using assms(1)
proof (induction xs rule: rev_induct)
  case Nil
  then show ?case by simp
next
  case (snoc x xs)
  obtain info bytes sync ms where x: "x = (info, bytes, sync, ms)" by (metis prod.exhaust)
  define v where "v = fold (attempt pf) xs s"
  have heard: "some_heard (xs @ [x]) \<longleftrightarrow> some_heard xs \<or> ms \<noteq> []" by (auto simp: some_heard_def x)
  note ih = snoc.IH [OF snoc.prems, folded v_def]
  show ?case
  proof (cases "sc_state v = SC_FAULT_HANDLING")
    case True
    then have w: "fold (attempt pf) (xs @ [x]) s = v" using attempts_stop [OF True, of pf "[x]"] by (simp add: v_def)
    have "recv s \<noteq> No_recv" "some_heard xs" using ih True by (auto simp: trapped_def)
    with True show ?thesis unfolding w heard by simp
  next
    case False
    with ih have v: "trapped v" by blast
    define w where "w = attempt pf (info, bytes, sync, ms) v"
    have fold: "fold (attempt pf) (xs @ [x]) s = w" by (simp add: v_def w_def x)
    note st = attempt_trapped [OF v assms(2), of info bytes sync ms, folded w_def]
    have r: "recv s = No_recv \<longrightarrow> recv v = No_recv" using ih False by blast
    show ?thesis
      unfolding fold heard
    proof (intro conjI)
      show "trapped w \<or> sc_state w = SC_FAULT_HANDLING \<and> recv s \<noteq> No_recv \<and> (some_heard xs \<or> ms \<noteq> [])"
        using st r by blast
      show "recv s = No_recv \<or> xs @ [x] \<noteq> [] \<and> sc_at w = At_run \<longrightarrow> recv w = No_recv \<or> sc_state w = SC_FAULT_HANDLING"
        using st r by blast
      show "recv s = No_recv \<or> \<not> (some_heard xs \<or> ms \<noteq> []) \<longrightarrow> responses_sent (zlog w) = responses_sent (zlog s)"
        using st r ih by metis
    qed
  qed
qed

lemma gives_up:
  assumes "sem_ok (synced_evt_sem t)" and "informed c (if c then EVT_CONFIRMATION_FAILED else EVT_DIDNT_RECEIVE_ACK) t"
    and "\<not> c \<longrightarrow> recv t = Ack_recv"
  shows "\<exists>s. sc_main pf t = Some s \<and> trapped s \<and> responses_sent (zlog s) = responses_sent (zlog t) \<and> (c \<longrightarrow> recv s = No_recv)"
  using assms
  by (cases c) (auto simp: informed_def wait_point_def listening_def sc_main_def confirming_resume_def enabled_resume_def sem_take sem_reset
      trapped_def sc_return_def data_generator_stop_def zephyr_do_def sem_ok_def Let_def)

end

text \<open>What the callback for acks, left installed, does in the sleep before the confirmation: a message that
  acknowledges the scanner takes it to the fault state, and one that does not is answered.\<close>

lemma message_in_sleep:
  assumes "pawr_platform pf key_of mac" and "sc_inv i s" and "sleeps_on s" and "recv s = Ack_recv" and "slot_in_range s"
    and "nb_wf b" and "nb_len b \<noteq> 0"
  shows "sc_reading pf s (nb_data b) = Ack c \<Longrightarrow>
      \<exists>t. sc_main pf (confirming_start (recv_dispatch pf sync info (Some b) s)) = Some t \<and> sc_state t = SC_FAULT_HANDLING"
    and "sc_reading pf s (nb_data b) = Nack c \<Longrightarrow> unconfirmed_ticks s = 0 \<Longrightarrow>
      length (zlog (recv_dispatch pf sync info (Some b) s)) = length (zlog s) + 1"
proof -
  have cb: "recv_dispatch pf sync info (Some b) s = ack_recv_cb pf sync info (Some b) s" using assms(4) by (simp add: recv_dispatch_def)
  note reading = ack_recv_reading [OF assms(1,2,6,7,5) cb]
  let ?s = "recv_dispatch pf sync info (Some b) s"
  {
    assume "sc_reading pf s (nb_data b) = Ack c"
    with reading have "fault_reason ?s = EVT_GOT_ACK" by simp
    moreover have "sleeps_on ?s"
      using pawr_platform.hears_all_sleeps [OF assms(1,3), of sync "[(info, b)]"] by (simp add: hears_all_def)
    ultimately show "\<exists>t. sc_main pf (confirming_start ?s) = Some t \<and> sc_state t = SC_FAULT_HANDLING"
      using pawr_platform.sleep_ends [OF assms(1), of ?s] assms(1)
      by (auto simp: sleeps_on_def confirming_start_def sc_main_def confirming_resume_def sc_wait_def sc_return_def Let_def
          split: option.splits)
  next
    assume "sc_reading pf s (nb_data b) = Nack c" "unconfirmed_ticks s = 0"
    moreover have "\<not> (4 :: u8) \<le> 1" by (simp add: word_le_nat_alt)
    ultimately show "length (zlog ?s) = length (zlog s) + 1"
      using reading by (auto simp: responded_def)
  }
qed





end
