(* ===== verification/Drivers.thy ===== *)
theory Drivers
  imports Data_Generator
begin

text \<open>
  The two example drivers: the blinking LED (\<open>drivers/blink/gpio_led.c\<close> with the driver class
  of \<open>include/app/drivers/blink.h\<close>) and the example sensor
  (\<open>drivers/sensor/example_sensor/example_sensor.c\<close>). A driver instance is a device with its
  configuration; the kernel timer lives in the calls that were made, as for the data generator.
\<close>

section \<open>Error numbers\<close>

definition ENODEV :: int where "ENODEV = 19"
definition ENOTSUP :: int where "ENOTSUP = 134"

section \<open>The blinking LED\<close>

record blink_gpio_led_config =
  blink_led :: nat
  blink_period_ms :: u32

definition blink_gpio_led_on_timer_expire ::
    "'p platform \<Rightarrow> blink_gpio_led_config \<Rightarrow> ('p, 'x) device_scheme \<Rightarrow> ('p, 'x) device_scheme" where
  "blink_gpio_led_on_timer_expire pf config dev = snd (zephyr_call pf (Gpio_pin_toggle (blink_led config)) dev)"

definition blink_gpio_led_set_period_ms ::
    "'p platform \<Rightarrow> blink_gpio_led_config \<Rightarrow> u32 \<Rightarrow> ('p, 'x) device_scheme \<Rightarrow> int \<times> ('p, 'x) device_scheme" where
  "blink_gpio_led_set_period_ms pf config period_ms dev =
     (if period_ms = 0 then zephyr_call pf (Gpio_pin_set (blink_led config) 0) (zephyr_do K_timer_stop dev)
      else (0, zephyr_do (K_timer_start (uint period_ms) (uint period_ms)) dev))"

definition blink_gpio_led_init ::
    "'p platform \<Rightarrow> blink_gpio_led_config \<Rightarrow> ('p, 'x) device_scheme \<Rightarrow> int \<times> ('p, 'x) device_scheme" where
  "blink_gpio_led_init pf config dev =
     (let (ready, dev) = zephyr_call pf (Gpio_is_ready (blink_led config)) dev
      in if ready = 0 then (- ENODEV, dev)
         else
           let (ret, dev) = zephyr_call pf (Gpio_pin_configure (blink_led config) GPIO_OUTPUT_INACTIVE) dev
           in if ret < 0 then (ret, dev)
              else
                let dev = zephyr_do K_timer_init dev
                in if blink_period_ms config > 0
                   then (0, zephyr_do (K_timer_start (uint (blink_period_ms config)) (uint (blink_period_ms config))) dev)
                   else (0, dev))"

text \<open>The driver class: a device has a table of operations, and the calls of the class go through it.\<close>

record ('p, 'x) blink_driver_api =
  set_period_ms :: "'p platform \<Rightarrow> blink_gpio_led_config \<Rightarrow> u32 \<Rightarrow> ('p, 'x) device_scheme \<Rightarrow> int \<times> ('p, 'x) device_scheme"

definition blink_gpio_led_api :: "('p, 'x) blink_driver_api" where
  "blink_gpio_led_api = \<lparr>set_period_ms = blink_gpio_led_set_period_ms\<rparr>"

record ('p, 'x) blink_instance =
  blink_config :: blink_gpio_led_config
  blink_init :: "'p platform \<Rightarrow> blink_gpio_led_config \<Rightarrow> ('p, 'x) device_scheme \<Rightarrow> int \<times> ('p, 'x) device_scheme"
  blink_api :: "('p, 'x) blink_driver_api"

text \<open>A node of the device tree, and the instance it is made into: without a period the LED does
  not blink. The kernel calls \<open>blink_init\<close> when it boots.\<close>

record blink_node =
  led_gpios :: nat
  blink_period_ms_prop :: "u32 option"

definition BLINK_GPIO_LED_DEFINE :: "blink_node \<Rightarrow> ('p, 'x) blink_instance" where
  "BLINK_GPIO_LED_DEFINE inst =
     \<lparr>blink_config = \<lparr>blink_led = led_gpios inst, blink_period_ms = (case blink_period_ms_prop inst of Some n \<Rightarrow> n | None \<Rightarrow> 0)\<rparr>,
      blink_init = blink_gpio_led_init, blink_api = blink_gpio_led_api\<rparr>"

definition blink_set_period_ms ::
    "'p platform \<Rightarrow> ('p, 'x) blink_instance \<Rightarrow> u32 \<Rightarrow> ('p, 'x) device_scheme \<Rightarrow> int \<times> ('p, 'x) device_scheme" where
  "blink_set_period_ms pf inst period_ms dev = set_period_ms (blink_api inst) pf (blink_config inst) period_ms dev"

definition blink_off ::
    "'p platform \<Rightarrow> ('p, 'x) blink_instance \<Rightarrow> ('p, 'x) device_scheme \<Rightarrow> int \<times> ('p, 'x) device_scheme" where
  "blink_off pf inst dev = blink_set_period_ms pf inst 0 dev"

text \<open>The running driver: the timer expires while it runs, and clients set periods.\<close>

datatype blink_event = Expires | Sets u32

inductive blink_run ::
    "'p platform \<Rightarrow> ('p, 'x) blink_instance \<Rightarrow> ('p, 'x) device_scheme \<Rightarrow> blink_event list \<Rightarrow> ('p, 'x) device_scheme \<Rightarrow> bool"
  for pf :: "'p platform" and inst :: "('p, 'x) blink_instance" and d :: "('p, 'x) device_scheme" where
  blink_starts: "blink_run pf inst d [] d"
| blink_expires: "blink_run pf inst d es d' \<Longrightarrow> timer_running (zlog d') \<Longrightarrow>
    blink_run pf inst d (es @ [Expires]) (blink_gpio_led_on_timer_expire pf (blink_config inst) d')"
| blink_set: "blink_run pf inst d es d' \<Longrightarrow> blink_run pf inst d (es @ [Sets n]) (snd (blink_set_period_ms pf inst n d'))"

text \<open>Whether the LED is lit, after the calls made so far: a call on the pin that returns an error has changed nothing.\<close>

definition led_effect :: "nat \<Rightarrow> zcall \<Rightarrow> bool \<Rightarrow> bool" where
  "led_effect led c on =
     (case c of Gpio_pin_toggle p \<Rightarrow> if p = led then \<not> on else on
      | Gpio_pin_set p v \<Rightarrow> if p = led then v \<noteq> 0 else on
      | Gpio_pin_configure p f \<Rightarrow> if p = led then f = GPIO_OUTPUT_ACTIVE else on
      | _ \<Rightarrow> on)"

fun led_after :: "'p platform \<Rightarrow> nat \<Rightarrow> zcall list \<Rightarrow> bool \<Rightarrow> zcall list \<Rightarrow> bool" where
  "led_after pf led made on [] = on"
| "led_after pf led made on (c # cs) =
     led_after pf led (made @ [c]) (if zephyr_ret pf made c < 0 then on else led_effect led c on) cs"

definition led_lit :: "'p platform \<Rightarrow> nat \<Rightarrow> bool \<Rightarrow> zcall list \<Rightarrow> bool" where
  "led_lit pf led on cs = led_after pf led [] on cs"

lemma led_after_append: "led_after pf led made on (xs @ ys) = led_after pf led (made @ xs) (led_after pf led made on xs) ys"
  by (induction xs arbitrary: made on) simp_all

lemma led_lit_append [simp]: "led_lit pf led on (xs @ ys) = led_after pf led xs (led_lit pf led on xs) ys"
  by (simp add: led_lit_def led_after_append)

section \<open>The timer\<close>

lemma zlog_blink_set:
  "zlog (snd (blink_set_period_ms pf (BLINK_GPIO_LED_DEFINE node) n d)) = zlog d @
     (if n = 0 then [K_timer_stop, Gpio_pin_set (led_gpios node) 0] else [K_timer_start (uint n) (uint n)])"
  by (simp add: blink_set_period_ms_def BLINK_GPIO_LED_DEFINE_def blink_gpio_led_api_def blink_gpio_led_set_period_ms_def zephyr_call_def zephyr_do_def)

lemma zlog_blink_expire:
  "zlog (blink_gpio_led_on_timer_expire pf config d) = zlog d @ [Gpio_pin_toggle (blink_led config)]"
  by (simp add: blink_gpio_led_on_timer_expire_def)

lemma timer_running_snoc2: "timer_running (cs @ [c, d]) = (case d of K_timer_start _ _ \<Rightarrow> True | K_timer_stop \<Rightarrow> False | _ \<Rightarrow> timer_running (cs @ [c]))"
  using timer_running_snoc [of "cs @ [c]" d] by simp

lemma blink_set_timer: "timer_running (zlog (snd (blink_set_period_ms pf (BLINK_GPIO_LED_DEFINE node) n d))) = (n \<noteq> 0)"
  by (simp add: zlog_blink_set timer_running_snoc2)

text \<open>An instance that has been initialised blinks if the device tree says so, and is dark until then.\<close>

lemma blink_init_calls:
  assumes "blink_init (BLINK_GPIO_LED_DEFINE node) pf (blink_config (BLINK_GPIO_LED_DEFINE node)) dev = (0, dev')"
  defines "n \<equiv> (case blink_period_ms_prop node of Some n \<Rightarrow> n | None \<Rightarrow> 0)"
  shows "zlog dev' = zlog dev @ [Gpio_is_ready (led_gpios node), Gpio_pin_configure (led_gpios node) GPIO_OUTPUT_INACTIVE, K_timer_init] @
      (if n > 0 then [K_timer_start (uint n) (uint n)] else [])"
    and "\<not> zephyr_ret pf (zlog dev @ [Gpio_is_ready (led_gpios node)]) (Gpio_pin_configure (led_gpios node) GPIO_OUTPUT_INACTIVE) < 0"
  using assms(1) unfolding n_def
  by (auto simp: BLINK_GPIO_LED_DEFINE_def blink_gpio_led_init_def zephyr_call_def zephyr_do_def ENODEV_def Let_def split: if_splits option.splits)

lemma blink_init_dark:
  assumes "blink_init (BLINK_GPIO_LED_DEFINE node) pf (blink_config (BLINK_GPIO_LED_DEFINE node)) dev = (0, dev')" and "zlog dev = []"
  shows "timer_running (zlog dev') \<longleftrightarrow> blink_period_ms_prop node \<notin> {None, Some 0}" and "\<not> led_lit pf (led_gpios node) on (zlog dev')"
  using blink_init_calls [OF assms(1)] assms(2)
  by (auto simp: word_gt_0 led_lit_def led_effect_def split: option.splits)

text \<open>Switched off: the timer does not run, and the LED is dark if the call on the pin succeeds.\<close>

lemma blink_set_ret: "fst (blink_set_period_ms pf (BLINK_GPIO_LED_DEFINE node) 0 d) =
    zephyr_ret pf (zlog d @ [K_timer_stop]) (Gpio_pin_set (led_gpios node) 0)"
  by (simp add: blink_set_period_ms_def BLINK_GPIO_LED_DEFINE_def blink_gpio_led_api_def blink_gpio_led_set_period_ms_def zephyr_call_def zephyr_do_def)

lemma blink_off_dark:
  "led_lit pf (led_gpios node) on (zlog (snd (blink_set_period_ms pf (BLINK_GPIO_LED_DEFINE node) 0 d))) \<longleftrightarrow>
     fst (blink_set_period_ms pf (BLINK_GPIO_LED_DEFINE node) 0 d) < 0 \<and> led_lit pf (led_gpios node) on (zlog d)"
  by (simp add: zlog_blink_set blink_set_ret led_effect_def)

section \<open>The example sensor\<close>

datatype sensor_channel = SENSOR_CHAN_PROX | Other_channel nat

record sensor_value =
  val1 :: int
  val2 :: int

record 'p example_sensor = "'p device" +
  sensor_state :: int

definition example_sensor_sample_fetch ::
    "'p platform \<Rightarrow> nat \<Rightarrow> sensor_channel \<Rightarrow> 'p example_sensor \<Rightarrow> int \<times> 'p example_sensor" where
  "example_sensor_sample_fetch pf input chan dev =
     (let (v, dev) = zephyr_call pf (Gpio_pin_get input) dev in (0, dev\<lparr>sensor_state := v\<rparr>))"

definition example_sensor_channel_get ::
    "'p example_sensor \<Rightarrow> sensor_channel \<Rightarrow> sensor_value \<Rightarrow> int \<times> sensor_value" where
  "example_sensor_channel_get dev chan val =
     (if chan \<noteq> SENSOR_CHAN_PROX then (- ENOTSUP, val) else (0, val\<lparr>val1 := sensor_state dev\<rparr>))"

definition example_sensor_init :: "'p platform \<Rightarrow> nat \<Rightarrow> 'p example_sensor \<Rightarrow> int \<times> 'p example_sensor" where
  "example_sensor_init pf input dev =
     (let (ready, dev) = zephyr_call pf (Gpio_is_ready input) dev
      in if ready = 0 then (- ENODEV, dev)
         else let (ret, dev) = zephyr_call pf (Gpio_pin_configure input GPIO_INPUT) dev
              in if ret < 0 then (ret, dev) else (0, dev))"

text \<open>The table of operations, and the instance of a node with its input pin.\<close>

record 'p sensor_driver_api =
  sample_fetch :: "'p platform \<Rightarrow> nat \<Rightarrow> sensor_channel \<Rightarrow> 'p example_sensor \<Rightarrow> int \<times> 'p example_sensor"
  channel_get :: "'p example_sensor \<Rightarrow> sensor_channel \<Rightarrow> sensor_value \<Rightarrow> int \<times> sensor_value"

definition example_sensor_api :: "'p sensor_driver_api" where
  "example_sensor_api = \<lparr>sample_fetch = example_sensor_sample_fetch, channel_get = example_sensor_channel_get\<rparr>"

record 'p sensor_instance =
  sensor_input :: nat
  sensor_init :: "'p platform \<Rightarrow> nat \<Rightarrow> 'p example_sensor \<Rightarrow> int \<times> 'p example_sensor"
  sensor_api :: "'p sensor_driver_api"

definition EXAMPLE_SENSOR_INIT :: "nat \<Rightarrow> 'p sensor_instance" where
  "EXAMPLE_SENSOR_INIT input_gpios =
     \<lparr>sensor_input = input_gpios, sensor_init = example_sensor_init, sensor_api = example_sensor_api\<rparr>"

text \<open>A sample is what the pin reads at the time of the fetch, errors of the read included:
  fetching never fails.\<close>

lemma sensor_reads_pin:
  assumes "inst = EXAMPLE_SENSOR_INIT input" and "sample_fetch (sensor_api inst) pf (sensor_input inst) chan dev = (e, dev')"
  shows "e = 0" and "channel_get (sensor_api inst) dev' SENSOR_CHAN_PROX val =
    (0, val\<lparr>val1 := zephyr_ret pf (zlog dev) (Gpio_pin_get input)\<rparr>)"
  using assms(2) unfolding assms(1)
  by (auto simp: EXAMPLE_SENSOR_INIT_def example_sensor_api_def example_sensor_sample_fetch_def example_sensor_channel_get_def zephyr_call_def)

section \<open>Off stays off\<close>

text \<open>C40: once \<open>blink_off\<close> has returned without an error, and from boot on where the device tree sets no period, the
  timer is stopped and the LED is dark, and so it stays, at whatever phase of the blinking it was switched off: until a
  client sets a period, the timer never expires, and switching off again leaves the LED dark even if the call on the pin fails.\<close>

theorem blink_off_stays_off:
  assumes "inst = BLINK_GPIO_LED_DEFINE node"
    and "blink_off pf inst dev = (e, dev0) \<and> 0 \<le> e \<or>
      blink_init inst pf (blink_config inst) dev = (0, dev0) \<and> zlog dev = [] \<and> blink_period_ms_prop node \<in> {None, Some 0}"
    and "blink_run pf inst dev0 es dev1" and "\<forall>n. Sets n \<in> set es \<longrightarrow> n = 0"
  shows "\<not> timer_running (zlog dev1) \<and> \<not> led_lit pf (led_gpios node) on (zlog dev1) \<and> Expires \<notin> set es"
  using assms(3,4)
proof (induction rule: blink_run.induct)
  case blink_starts
  from assms(2) show ?case
  proof
    assume "blink_off pf inst dev = (e, dev0) \<and> 0 \<le> e"
    then have "e = fst (blink_set_period_ms pf (BLINK_GPIO_LED_DEFINE node) 0 dev)" "0 \<le> e"
        "dev0 = snd (blink_set_period_ms pf (BLINK_GPIO_LED_DEFINE node) 0 dev)"
      by (auto simp: blink_off_def assms(1) prod_eq_iff)
    then show ?thesis by (simp add: blink_set_timer blink_off_dark)
  next
    assume "blink_init inst pf (blink_config inst) dev = (0, dev0) \<and> zlog dev = [] \<and> blink_period_ms_prop node \<in> {None, Some 0}"
    then show ?thesis using blink_init_dark unfolding assms(1) by fastforce
  qed
next
  case (blink_expires es d)
  then show ?case by simp
next
  case (blink_set es d n)
  then have "n = 0" by simp
  with blink_set show ?case by (simp add: assms(1) blink_set_timer blink_off_dark)
qed

text \<open>Blinking at 500 ms, switched off, and switched off again.\<close>

theorem blink_off_stays_off_witness:
  "let inst = BLINK_GPIO_LED_DEFINE \<lparr>led_gpios = 4, blink_period_ms_prop = Some 500\<rparr>;
       dev = \<lparr>psa_store = demo_keys, zlog = [K_timer_start 500 500, Gpio_pin_toggle 4]\<rparr>;
       dev1 = snd (blink_set_period_ms demo inst 0 (snd (blink_off demo inst dev)))
   in led_lit demo 4 False (zlog dev) \<and> \<not> timer_running (zlog dev1) \<and> \<not> led_lit demo 4 False (zlog dev1)"
proof -
  let ?node = "\<lparr>led_gpios = 4, blink_period_ms_prop = Some 500\<rparr>"
  let ?i = "BLINK_GPIO_LED_DEFINE ?node"
  let ?d = "\<lparr>psa_store = demo_keys, zlog = [K_timer_start 500 500, Gpio_pin_toggle 4]\<rparr> :: key_map device"
  have ret: "zephyr_ret demo l c = 0" for l c by (simp add: demo_def store_platform_def)
  have off: "blink_off demo ?i ?d = (0, snd (blink_off demo ?i ?d))"
    by (simp add: prod_eq_iff blink_off_def blink_set_ret ret)
  have run: "blink_run demo ?i (snd (blink_off demo ?i ?d)) [Sets 0] (snd (blink_set_period_ms demo ?i 0 (snd (blink_off demo ?i ?d))))"
    using blink_set [OF blink_starts, of demo ?i _ 0] by simp
  have "led_lit demo 4 False (zlog ?d)" by (simp add: led_lit_def led_effect_def ret)
  with blink_off_stays_off [OF refl disjI1 run, of ?d 0 False] off show ?thesis by (simp add: Let_def)
qed

end
