(* ===== verification/Custom_Test.thy ===== *)
theory Custom_Test
  imports Prelude
begin

text \<open>
  The test of the custom library (\<open>tests/lib/custom/src/main.c\<close>). The library is not in the repository, so
  its one function is an argument; so is \<open>CONFIG_CUSTOM_GET_VALUE_DEFAULT\<close>.
\<close>

definition INT_MIN :: int where "INT_MIN = - (2 ^ 31)"
definition INT_MAX :: int where "INT_MAX = 2 ^ 31 - 1"

text \<open>\<open>zassert_equal\<close> ends the test at the first values that differ, with its message.\<close>

fun zassert_equal_all :: "(int \<times> int \<times> string) list \<Rightarrow> string option" where
  "zassert_equal_all [] = None"
| "zassert_equal_all ((a, b, msg) # rest) = (if a = b then zassert_equal_all rest else Some msg)"

definition test_get_value :: "(int \<Rightarrow> int) \<Rightarrow> int \<Rightarrow> string option" where
  "test_get_value custom_get_value custom_get_value_default = zassert_equal_all
     [(custom_get_value INT_MIN, INT_MIN, ''get_value failed input of INT_MIN''),
      (custom_get_value (INT_MIN + 1), INT_MIN + 1, ''get_value failed input of INT_MIN + 1''),
      (custom_get_value (- 1), - 1, ''get_value failed input of -1''),
      (custom_get_value 1, 1, ''get_value failed input of 1''),
      (custom_get_value (INT_MAX - 1), INT_MAX - 1, ''get_value failed input of INT_MAX - 1''),
      (custom_get_value INT_MAX, INT_MAX, ''get_value failed input of INT_MAX''),
      (custom_get_value 0, custom_get_value_default, ''get_value failed input of 0'')]"

lemma test_get_value_iff:
  "test_get_value f d = None \<longleftrightarrow> (\<forall>v \<in> {INT_MIN, INT_MIN + 1, - 1, 1, INT_MAX - 1, INT_MAX}. f v = v) \<and> f 0 = d"
  by (simp add: test_get_value_def)

text \<open>A library that answers 0 with the default and everything else with itself passes, and the test
  tells the two configurations of \<open>testcase.yaml\<close> apart; but it knows seven values only.\<close>

lemma test_get_value_passes: "test_get_value (\<lambda>v. if v = 0 then d else v) d = None"
  by (simp add: test_get_value_iff INT_MIN_def INT_MAX_def)

lemma test_get_value_default: "test_get_value f d = None \<Longrightarrow> test_get_value f d' = None \<Longrightarrow> d' = d"
  by (simp add: test_get_value_iff)

lemma test_get_value_misses: "test_get_value (\<lambda>v. if v \<in> {2 .. INT_MAX - 2} then 0 else v) 0 = None"
  by (simp add: test_get_value_iff INT_MIN_def INT_MAX_def)

end
