(* ===== verification/Spec2Isabelle.thy ===== *)
theory Spec2Isabelle
  imports Transfer_Props Advertiser_Props Allocation_Props Scanner_Props Scanner_Control Exchange Growing Giving_Up Drivers Custom_Test
begin

text \<open>
  \<^bold>\<open>The PAwR advertiser and scanner.\<close> The repository has three programs for Zephyr: an
  advertiser that runs periodic advertising with responses (PAwR) with 46 subevents of 103
  response slots, scanners that register for a response slot and send data in it, and a flasher
  that provisions both with keys. Advertiser and scanner share a wire format, HMAC signatures and
  a message counter (\<open>lib/transfer\<close>, \<open>lib/crypto\<close>).

  \<^bold>\<open>How the parts interact.\<close> The Bluetooth host of the advertiser asks for the data of
  subevents (\<open>request_cb\<close>); the advertiser ages its slots and sends, per subevent, one signed
  message with the acks of the 103 slots and the counter. A scanner scans for the signed
  advertisement with the free register slots, picks one, synchronises, and answers the messages of
  its subevent in its slot; the advertiser verifies the answer under the scanner's key and makes
  the sender the holder of the slot (\<open>response_cb\<close>). The next message acknowledges it, and
  the scanner sleeps until its data generator has new data, which it sends in the same way.

  \<^bold>\<open>Theories and code.\<close>
  \<^item> \<open>Prelude\<close>: words, little-endian bytes, storage, loops (\<open>for_up\<close>, \<open>for_down\<close>).
  \<^item> \<open>Platform\<close>, \<open>Platform_Laws\<close>, \<open>Reference_Platform\<close>: Zephyr and PSA Crypto are not in
    the repository. Every function of theirs that the code calls is a field of the record
    \<open>platform\<close>, an argument of the model; what is relied on are the locales
    \<open>zephyr_net_buf\<close>, \<open>zephyr_sem\<close>, \<open>psa_key_store\<close> and \<open>psa_reliable\<close>, each law under
    the documented precondition of its call. The reference platform interprets all of them and is
    generic in the MAC function and in the answers of the host. Calls whose effect lies outside
    the program (Bluetooth, GPIO, sleeping) are recorded in \<open>zlog\<close>; what they return is any
    function of the calls made so far.
  \<^item> \<open>Crypto\<close>: \<open>lib/crypto/crypto.c\<close>. \<open>Message_Transfer\<close>: \<open>lib/transfer/transfer.c\<close>, with the
    wire format in \<open>Transfer_Wire\<close>, the abstract verifier and what signatures give in
    \<open>Transfer_Auth\<close>, the properties in \<open>Transfer_Props\<close>.
  \<^item> \<open>Common\<close>: \<open>include/app/lib/common.h\<close> and \<open>lib/interactive\<close>.
  \<^item> \<open>Free_List\<close>: \<open>advertiser/src/free_list.c\<close>, against an abstract bounded stack (locale
    \<open>slot_stack\<close>).
  \<^item> \<open>Advertiser\<close>: \<open>advertiser/src/advertiser_fsm.c\<close>, one definition per function; bodies of
    loops and branches of the two callbacks are definitions of their own. \<open>Advertiser_Slots\<close>:
    the slot loop on \<open>slot_view\<close>s. \<open>Advertiser_Inv\<close>: the invariant. \<open>Advertiser_Spec\<close> and
    \<open>Advertiser_Response\<close>: the abstract advertiser \<open>adv_abs\<close> and the simulation \<open>adv_sim\<close>
    by both callbacks, bytes and signatures included. \<open>Advertiser_Run\<close>: the transition system
    of main thread, callbacks and reboots. \<open>Slot_Allocation\<close>: the order of the slots, and the
    invariant \<open>alloc_ok\<close> that keeps free, advertised and held slots apart along runs of the two
    callbacks. \<open>Advertiser_Batches\<close>: requests split and joined. \<open>Advertiser_Start\<close>: the state
    after \<open>init\<close>. \<open>Advertiser_Props\<close>, \<open>Allocation_Props\<close>: the properties.
  \<^item> \<open>Data_Generator\<close>: \<open>lib/data_generator\<close>. \<open>Scanner\<close>: state and callbacks of
    \<open>scanner/src/scanner_fsm.c\<close>; \<open>Scanner_FSM\<close>: its state functions, cut at their waits, and
    the transition system. \<open>Scanner_Read\<close>, \<open>Scanner_Recv\<close>: what a received message says on
    its bytes and what the callbacks do with it. \<open>Scanner_Inv\<close>, \<open>Scanner_Store\<close>: the
    invariant and the stored keys. \<open>Scanner_Run\<close>: the transitions of the main thread, the counter
    and the responses over the steps, and how messages end a wait. \<open>Scanner_Data\<close>: the timer and
    the pending response. \<open>Scanner_Control\<close>: the state machine as a deterministic automaton (\<open>control_next\<close>) that the
    code follows in every step. \<open>Scanner_Props\<close>: the other properties.
  \<^item> \<open>Flasher\<close>: \<open>crypto_flasher/src/main.c\<close>. \<open>Drivers\<close>: the blink and the example sensor driver,
    their classes and instances. \<open>Custom_Test\<close>: \<open>tests/lib/custom/src/main.c\<close>.
  \<^item> The programs together. \<open>Protocol\<close>: advertiser and scanner over a full period; \<open>Exchange\<close>: an
    answer and its acknowledgement, callback by callback. \<open>Radio_Link\<close>: what a period is for each
    side (\<open>period_replies\<close>, \<open>hear\<close>) and what the scanner's main thread does in between (\<open>wake\<close>); its
    locale \<open>radio_pair\<close> holds what two devices with shared keys promise each other. \<open>Session\<close>: one
    scanner over many periods. \<open>Fleet\<close>: the advertiser and any number of scanners, with lost messages,
    responses and syncs; a round (\<open>network_round\<close>) moves each scanner one step in the automaton \<open>phase\<close>.
    \<open>Flashed\<close>: the flasher makes such networks. \<open>Joining\<close>: how a scanning device gets into one.
    \<open>Slot_Keeping\<close>: what the advertiser has in a station's slot, round by round (\<open>watch\<close>, \<open>secure\<close>).
    \<open>Network_Slots\<close>: the advertiser's lists along the rounds (\<open>steady\<close>). \<open>Growing\<close>: networks that scanners
    join one after another, leave, and join again (\<open>network_life\<close>). \<open>Giving_Up\<close>: a scanner that has missed its
    confirmation or its acks tries again (\<open>attempt\<close>).
  \<^item> This theory: the properties that span the programs.

  \<^bold>\<open>State.\<close> A program's static variables are the fields of one record (\<open>advertiser\<close>,
  \<open>scanner\<close>), which extends \<open>device\<close> (PSA store and calls made); a function of the code takes
  and returns it. The names are the code's, with a prefix where two files use the same one.
  Machine integers are words, so the additions of the counters, ticks and slot numbers wrap as in C.
  What C leaves undefined is \<open>None\<close>, a \<open>stray\<close> value of the platform where compiled code
  merely reads something, or is excluded by a stated precondition. Loops are bounded by their
  counter (\<open>for_up n\<close> runs \<open>n\<close> rounds, \<open>replace_register_slot\<close> recurses over the entries that
  are left), so no fuel is needed; the endless loops of the main threads are step relations.

  \<^bold>\<open>Interleaving.\<close> A callback is one step. The scanner's state functions are cut where they
  wait (\<open>sc_point\<close>), so that callbacks, the timer and the loss of the sync happen between the
  segments; a wait with a timeout that only goes round again is the wait itself. The advertiser's
  \<open>init\<close> is one step, and its callbacks run after it.

  \<^bold>\<open>The network.\<close> In a round of \<open>Fleet\<close> the timers of some scanners expire, the hosts of some report the loss of
  the sync, every main thread runs until it waits, the advertiser is asked for all 46 subevents, every scanner that
  listens gets the message of its subevent or an empty report, and the responses that are not lost
  reach the advertiser in the order of the scanners. A \<open>fate\<close> says, for one scanner in one round,
  whether its timer expires, whether and why its sync is lost, and what gets through; fates are arbitrary. (The other
  order, in which the timer expires between the loss and the main thread, is \<open>lost_sync_is_overwritten\<close>.) Scanners that
  have lost their sync, or give it up, are \<open>Gone\<close>. Those whose sync timed out scan with the state they had, and can enter
  again two rounds later, when the counter in the advertisement has passed theirs. Those that gave up do not
  get back before they reboot: the deletion of their old sync ends every new confirmation
  (\<open>Giving_Up\<close>), so the network leaves them out. The entry of a scanner (\<open>join\<close>) has no message in the sleep before
  the confirmation. A new device would not hear one, since no callback is installed; one that lost its sync while it was enabled has
  the callback for acks installed and could answer there (\<open>message_in_sleep\<close>), which \<open>Giving_Up\<close> follows and the network does not. The counter moves by at
  most two in a round (the period and the answers to it), so \<open>2 * rounds\<close> more must fit in it. In a
  network that grows (\<open>Growing\<close>) an \<open>epoch\<close> is the entry of one scanner and the rounds up to the next
  entry. Entries are three rounds apart, after which every earlier scanner has been heard, so that no two
  scanners try the same register slot: their responses would collide on the air. That a scanner is
  \<open>served\<close> means that it loses at most two messages or responses in any six rounds and that its timer expires in
  any five, and that it is \<open>bearable\<close> that this is so until it loses its sync; by the code's constants it expires every 10 s, and a round takes 2.5 s. Then it is silent
  for at most eight rounds, and the advertiser evicts after ten. In \<open>Joining\<close> and \<open>Growing\<close> the advertisement is the one that \<open>set_adv_data\<close> would send from a buffer with
  room for it (\<open>set_adv_data_sends\<close>); the buffer of the code is too small (\<open>advertisement_does_not_fit\<close>).
  The bound of 4700 (responses in slots nobody held, or entries of scanners) keeps the slots handed out below the
  46 * 103 that exist.

  \<^bold>\<open>What the properties show.\<close> From the flasher on, scanners that join one after another, up to 4700 times, and are
  served until they lose their sync have slots of their own up to then, hold them, stay registered, and get an ack within six
  rounds of every expiry; one that has lost its sync gets a free slot again (\<open>Growing\<close>; \<open>Slot_Keeping\<close> for any network). Devices that were flashed from the same keys register and
  then deliver every time the timer expires, with one response and one ack each, when nothing is lost;
  in a fleet with losses each scanner that keeps its sync and loses at most two messages or responses in any six rounds is
  confirmed and acknowledged within six rounds and never gives up, whatever the others do (this theory;
  \<open>Fleet\<close> for any network of devices with shared keys and slots of their own); a device that scans
  gets a free slot and is registered in it (\<open>Joining\<close>). Only authentic and fresh messages are
  accepted, and messages survive the trip (\<open>Transfer_Props\<close>). The advertiser's callbacks implement
  the abstract advertiser, keep its invariant, and evict silent devices after ten rounds
  (\<open>Advertiser_Props\<close>). While responses come only in slots that are held or advertised and are not
  rejected, no slot is given to two devices; who holds a slot has signed for it; the messages handed
  to the host are well formed; the batches in which the host asks make no difference
  (\<open>Allocation_Props\<close>; the bound of 26000 responses in slots nobody held keeps the slot numbers, of which there are
  103 * 256, from running out). The scanner decides as its reading of a message says, takes an ack
  only from the advertiser, never accepts an answered message again before a reboot, and does not
  wait for more than four messages (\<open>Scanner_Props\<close>); its control follows an automaton over what it is told
  (\<open>Scanner_Control\<close>). Some properties state defects of the code as
  they are: lost counters, forged, late and replayed responses, advertising data that do not fit, events that
  overwrite each other or come too late, so that a scanner that has given up does not register again (\<open>Giving_Up\<close>).

  \<^bold>\<open>Not modelled.\<close> Logging and printing; preemption inside a callback; the delays between
  radio events; collisions on the air; what the host
  does with a null pointer for a sync, which the scanner passes to it when the loss of the sync was overwritten (the call is recorded); the Python scripts; the device tree, of which the values that the
  drivers read are arguments; the library of which only the test is in the repository. The platform's laws are assumptions about
  Zephyr and PSA Crypto, met by the reference platform.
\<close>

section \<open>Flashed devices\<close>

text \<open>C5: the programs fit together: when the advertiser and scanner \<open>d\<close> have been flashed from the
  same list of keys, then wherever the advertiser has come to after start-up, whatever requests and
  responses it saw, and wherever the scanner has come to after booting, a scanner that waits for the
  confirmation of a free slot and is not ahead of the advertiser's counter registers in two
  periods, and from then on delivers its data, with one response and an ack each time the timer
  expires, however many periods it has slept in between; it holds its slot at the end of each delivery.\<close>

theorem flashed_devices_deliver:
  assumes "pawr_reliable pf key_of mac" and "pawr_reliable pf' key_of' mac"
    and "counter_readable (key_of (psa_store adv)) (COUNTER_ID pf)" and "counter_readable (key_of' (psa_store sc)) (COUNTER_ID pf')"
    and "0 < d" and "d < length keys" and "length keys \<le> 65536" and "\<forall>k \<in> set keys. length k = MAC_LEN"
    and "flasher_main pf keys 0 adv = Some (ra, adv')" and "flasher_main pf' keys d sc = Some (rs, sc')"
    and "\<forall>e \<in> set es. event_ok e" and "s = fold (run_event pf) es (started pf (psa_store adv'))"
    and "sc_reach pf' (of_nat d) (psa_store sc') t" and "slot_in_range t" and "cc_value (sc_counter t) \<le> next_counter s"
    and "lk_sub l < MAX_NUM_SUBEVENTS" and "recv_subevent (lk_info l) = of_nat (lk_sub l)"
    and "sc_at t = Confirming_wait" and "recv t = Confirm_recv" and "unconfirmed_ticks t = 0" and "listening t"
    and "holder l s t = Free" and "adv_time s + sum_list sleeps + 3 * length sleeps + 5 < 2 ^ 64"
  shows "\<exists>s1 t1 s2 t2. register_device pf pf' l (s, t) = Some (s1, t1) \<and> holder l s1 t1 = Held (of_nat d) 1 \<and>
    fault_reason t1 = EVT_NO_FAULT \<and> deliveries pf pf' l sleeps (s1, t1) = Some (s2, t2) \<and> holder l s2 t2 = Held (of_nat d) 1 \<and>
    fault_reason t2 = (if sleeps = [] then EVT_NO_FAULT else EVT_GOT_ACK) \<and>
    length (responses_sent (zlog t2)) = length (responses_sent (zlog t)) + 1 + length sleeps"
proof -
  note pair = flashed_pair [OF assms(1-17)]
  have "unheard (of_nat d) (holder l s t)" by (simp add: assms(22) unheard_def)
  from radio_pair.registers [OF pair assms(18-21) this] assms(23) obtain s1 t1 where
    1: "register_device pf pf' l (s, t) = Some (s1, t1)"
      "linked key_of (key_of (psa_store adv')) (mac (keys ! 0)) key_of' (key_of' (psa_store sc')) (of_nat d) s1 t1"
      "asleep t1" "holder l s1 t1 = Held (of_nat d) 1" "adv_time s1 = adv_time s + 3" "fault_reason t1 = EVT_NO_FAULT"
      "length (responses_sent (zlog t1)) = Suc (length (responses_sent (zlog t)))"
    by auto
  have "unheard (of_nat d) (holder l s1 t1)" by (simp add: 1(4) unheard_def)
  from radio_pair.delivers_all [OF pair(1) 1(2,3) this, of sleeps] 1 assms(23) show ?thesis by auto
qed

theorem flashed_devices_deliver_witness:
  "\<exists>adv' sc' t s1 t1 s2 t2. flasher_main demo [demo_key 4, demo_key 5, demo_key 6] 0 \<lparr>psa_store = Map.empty, zlog = []\<rparr> = Some (Flashed, adv') \<and>
    flasher_main demo [demo_key 4, demo_key 5, demo_key 6] 2 \<lparr>psa_store = Map.empty, zlog = []\<rparr> = Some (Flashed, sc') \<and>
    sc_reach demo 2 (psa_store sc') t \<and> register_device demo demo demo_link (started demo (psa_store adv'), t) = Some (s1, t1) \<and>
    deliveries demo demo demo_link [3, 20, 0] (s1, t1) = Some (s2, t2) \<and>
    holder demo_link s2 t2 = Held 2 1 \<and> fault_reason t2 = EVT_GOT_ACK"
proof -
  let ?ks = "[demo_key 4, demo_key 5, demo_key 6]" and ?dev = "\<lparr>psa_store = Map.empty, zlog = []\<rparr> :: key_map device"
  have pre: "counter_readable (psa_store ?dev) (COUNTER_ID demo)" "0 < (2 :: nat)" "2 < length ?ks" "length ?ks \<le> 65536"
    "\<forall>k \<in> set ?ks. length k = MAC_LEN"
    by (simp_all add: counter_readable_def demo_key_def MAC_LEN_def)
  from flashed_devices_share_keys [OF demo_reliable demo_reliable pre(1,1) pre(2-5)] obtain adv' sc' ca cs where
    adv': "flasher_main demo ?ks 0 ?dev = Some (Flashed, adv')" and ca: "psa_store adv' (COUNTER_ID demo) = Some (ca, le_bytes 4 (0 :: u64))"
      "psa_key_usage_flags ca = PSA_KEY_USAGE_EXPORT"
    and sc': "flasher_main demo ?ks 2 ?dev = Some (Flashed, sc')" and cs: "psa_store sc' (COUNTER_ID demo) = Some (cs, le_bytes 4 (0 :: u64))"
      "psa_key_usage_flags cs = PSA_KEY_USAGE_EXPORT"
    by blast
  let ?s = "started demo (psa_store adv')"
  have sim: "adv_sim (\<lambda>p. p) (psa_store adv') (\<lambda>m. []) ?s (start_abs 0)"
    using pawr_reliable.started_sim [where p = "psa_store adv'", OF demo_reliable ca] by (simp add: store_le_bytes_0)
  then have start: "adv_time ?s = 0" by (simp add: adv_sim_def start_abs_def adv_time_def)
  from demo_confirming [where p = "psa_store sc'", OF cs, of 2] obtain t where
    t: "sc_reach demo 2 (psa_store sc') t" "recv t = Confirm_recv" "unconfirmed_ticks t = 0"
      "selected_slot t = \<lparr>subevent = 0, rsp_slot = 0\<rparr>" "cc_value (sc_counter t) = 0" "sc_at t = Confirming_wait" "listening t"
    by (auto simp: confirming_now_def)
  have slot: "slot_in_range t" "holder demo_link ?s t = Free"
    using sim_slot [OF sim, of 0 0] start_abs_free [of 0 0 0]
    by (simp_all add: slot_in_range_def holder_def view_at_def own_slot_def demo_link_def t(4) SCANNER_RSP_SLOTS_def adv_sizes)
  have two: "sc_reach demo (of_nat 2) (psa_store sc') t" using t(1) by simp
  have sub: "lk_sub demo_link < MAX_NUM_SUBEVENTS" "recv_subevent (lk_info demo_link) = of_nat (lk_sub demo_link)"
    by (simp_all add: demo_link_def adv_sizes)
  from flashed_devices_deliver [where es = "[]" and sleeps = "[3, 20, 0]",
      OF demo_reliable demo_reliable pre(1,1) pre(2-5) adv' sc' _ _ two slot(1) _ sub t(6,2,3,7) slot(2)] start t(5)
  obtain s1 t1 s2 t2 where "register_device demo demo demo_link (?s, t) = Some (s1, t1)"
    "deliveries demo demo demo_link [3, 20, 0] (s1, t1) = Some (s2, t2)" "holder demo_link s2 t2 = Held 2 1" "fault_reason t2 = EVT_GOT_ACK"
    by auto
  with adv' sc' t(1) show ?thesis by blast
qed

section \<open>A flashed fleet\<close>

text \<open>C4: a whole fleet: when the advertiser and any number of scanners have been flashed from the
  same list of keys, then wherever the advertiser has come to, if the scanners wait for their
  confirmation in free slots of their own and are not ahead of its counter, each of them gets
  through, whatever happens to the others, provided that its host keeps the sync and in any six consecutive rounds at most
  two of its own messages and responses are lost: it is confirmed within six rounds, from then on
  every expiry of its timer brings an ack within six rounds, and it never gives up its sync.\<close>

theorem flashed_fleet_delivers:
  assumes "pawr_reliable pf key_of mac" and "counter_readable (key_of (psa_store adv)) (COUNTER_ID pf)"
    and "keys \<noteq> []" and "length keys \<le> 65536" and "\<forall>k \<in> set keys. length k = MAC_LEN" and "flasher_main pf keys 0 adv = Some (ra, adv')"
    and "\<forall>e \<in> set es. event_ok e" and "s = fold (run_event pf) es (started pf (psa_store adv'))"
    and "\<forall>q \<in> set qs. flashed_station key_of' mac keys q \<and> confirming_now (st_dev q) \<and>
      cc_value (sc_counter (st_dev q)) \<le> next_counter s \<and> view_at s (station_slot q) = Free"
    and "distinct (map station_slot qs)"
    and "\<forall>fs \<in> set fss. length fs = length qs" and "adv_time s + 2 * length fss + 1 < 2 ^ 64"
    and "n < length qs" and "few_losses (column n fss)" and "t = device_at pf fss (s, qs) n"
  shows "(\<forall>r \<le> length fss. sc_state (t r) \<in> {CONFIRMING, SLEEPING, ENABLED} \<and> default_sync (t r) \<noteq> None) \<and>
    (6 \<le> length fss \<longrightarrow> (\<exists>m \<le> 6. informed True EVT_NO_FAULT (t m))) \<and>
    (\<forall>r. r + 6 \<le> length fss \<longrightarrow> timer_running (zlog (t r)) \<longrightarrow> ft_timer (fss ! r ! n) \<longrightarrow>
       (\<exists>m \<le> r + 6. r < m \<and> informed False EVT_GOT_ACK (t m)))"
proof -
  note fleet = flashed_fleet_ok [OF assms(1-10)]
  have "replicate (length qs) (Asking True 0) ! n = Asking True 0" using assms(13) by simp
  from station_delivers [OF assms(1) fleet assms(11-13) this assms(14), folded assms(15)] show ?thesis by blast
qed

text \<open>Two scanners, of which the second loses a message and a response at first.\<close>

definition demo_device :: "u16 \<Rightarrow> nat \<Rightarrow> key_map scanner \<Rightarrow> key_map station" where
  "demo_device i x t = \<lparr>st_platform = demo,
     st_link = \<lparr>lk_sub = x, lk_sync = 3, lk_info = \<lparr>recv_subevent = of_nat x, periodic_event_counter = 9\<rparr>, lk_rssi = 0\<rparr>,
     st_id = i, st_dev = t\<rparr>"

definition demo_air :: "fate list list" where
  "demo_air = demo_fates @ replicate 4 [\<lparr>ft_timer = False, ft_lost = None, ft_down = True, ft_up = True\<rparr>, \<lparr>ft_timer = True, ft_lost = None, ft_down = False, ft_up = True\<rparr>]"

lemma demo_air_ok: "length demo_air = 8" "fs \<in> set demo_air \<Longrightarrow> length fs = 2" "few_losses (column 0 demo_air)"
proof -
  show "length demo_air = 8" "fs \<in> set demo_air \<Longrightarrow> length fs = 2"
    by (auto simp: demo_air_def demo_fates_def)
  have "column 0 demo_air = map ((\<lambda>f. f ! 0)) demo_fates @ replicate 4 \<lparr>ft_timer = False, ft_lost = None, ft_down = True, ft_up = True\<rparr>"
    by (simp add: column_def demo_air_def)
  then show "few_losses (column 0 demo_air)"
    by (simp add: few_losses_def demo_fates_def lossy_def less_Suc_eq eval_nat_numeral)
qed

lemma demo_flashed:
  assumes "flasher_main demo keys d dev = Some (Flashed, dev')" and "psa_store dev' (COUNTER_ID demo) = Some (a, le_bytes 4 (0 :: u64))"
    and "psa_key_usage_flags a = PSA_KEY_USAGE_EXPORT" and "counter_readable (psa_store dev) (COUNTER_ID demo)"
    and "0 < d" and "d < length keys" and "x < MAX_NUM_SUBEVENTS" and "adv_sim (\<lambda>p. p) p tag s (start_abs 0)"
  shows "\<exists>t. flashed_station (\<lambda>p. p) (mac32 demo_hash) keys (demo_device (of_nat d) x t) \<and> confirming_now t \<and>
    cc_value (sc_counter t) \<le> next_counter s \<and> station_slot (demo_device (of_nat d) x t) = (x, 0) \<and> view_at s (x, 0) = Free"
proof -
  from demo_confirming [where p = "psa_store dev'", OF assms(2,3), of "of_nat d"] obtain t where
    t: "sc_reach demo (of_nat d) (psa_store dev') t" "confirming_now t" "selected_slot t = \<lparr>subevent = 0, rsp_slot = 0\<rparr>" "cc_value (sc_counter t) = 0"
    by blast
  have "flashed_station (\<lambda>p. p) (mac32 demo_hash) keys (demo_device (of_nat d) x t)"
    using assms(1,4-7) t(1) demo_reliable unfolding flashed_station_def demo_device_def by auto
  moreover have "view_at s (x, 0) = Free"
    using sim_slot [OF assms(8,7), of 0] start_abs_free [OF assms(7), of 0 0] by (simp add: view_at_def adv_sizes)
  moreover have "station_slot (demo_device (of_nat d) x t) = (x, 0)"
    by (simp add: station_slot_def own_slot_def demo_device_def t(3))
  ultimately show ?thesis using t by auto
qed

theorem flashed_fleet_delivers_witness:
  "\<exists>s t1 t2. \<exists>m \<le> 6. informed True EVT_NO_FAULT (device_at demo demo_air (s, [demo_device 1 0 t1, demo_device 2 1 t2]) 0 m)"
proof -
  let ?ks = "[demo_key 4, demo_key 5, demo_key 6]" and ?dev = "\<lparr>psa_store = Map.empty, zlog = []\<rparr> :: key_map device"
  have pre: "counter_readable (psa_store ?dev) (COUNTER_ID demo)" "0 < (1 :: nat)" "1 < length ?ks" "length ?ks \<le> 65536"
    "\<forall>k \<in> set ?ks. length k = MAC_LEN" "?ks \<noteq> []" "0 < (2 :: nat)" "2 < length ?ks"
    by (simp_all add: counter_readable_def demo_key_def MAC_LEN_def)
  from flashed_devices_share_keys [OF demo_reliable demo_reliable pre(1,1-5)] obtain adv' d1 ca c1 where
    adv': "flasher_main demo ?ks 0 ?dev = Some (Flashed, adv')" and ca: "psa_store adv' (COUNTER_ID demo) = Some (ca, le_bytes 4 (0 :: u64))"
      "psa_key_usage_flags ca = PSA_KEY_USAGE_EXPORT"
    and d1: "flasher_main demo ?ks 1 ?dev = Some (Flashed, d1)" "psa_store d1 (COUNTER_ID demo) = Some (c1, le_bytes 4 (0 :: u64))"
      "psa_key_usage_flags c1 = PSA_KEY_USAGE_EXPORT"
    by blast
  from flashed_devices_share_keys [OF demo_reliable demo_reliable pre(1,1,7,8,4,5)] obtain d2 c2 where
    d2: "flasher_main demo ?ks 2 ?dev = Some (Flashed, d2)" "psa_store d2 (COUNTER_ID demo) = Some (c2, le_bytes 4 (0 :: u64))"
      "psa_key_usage_flags c2 = PSA_KEY_USAGE_EXPORT"
    by blast
  let ?s = "started demo (psa_store adv')"
  have sim: "adv_sim (\<lambda>p. p) (psa_store adv') (\<lambda>m. []) ?s (start_abs 0)"
    using pawr_reliable.started_sim [where p = "psa_store adv'", OF demo_reliable ca] by (simp add: store_le_bytes_0)
  then have start: "adv_time ?s = 0" by (simp add: adv_sim_def start_abs_def adv_time_def)
  have sub: "0 < MAX_NUM_SUBEVENTS" "1 < MAX_NUM_SUBEVENTS" by (simp_all add: adv_sizes)
  from demo_flashed [OF d1 pre(1-3) sub(1) sim] obtain t1 where t1:
    "flashed_station (\<lambda>p. p) (mac32 demo_hash) ?ks (demo_device 1 0 t1)" "confirming_now t1" "cc_value (sc_counter t1) \<le> next_counter ?s"
    "station_slot (demo_device 1 0 t1) = (0, 0)" "view_at ?s (0, 0) = Free"
    by auto
  from demo_flashed [OF d2 pre(1,7,8) sub(2) sim] obtain t2 where t2:
    "flashed_station (\<lambda>p. p) (mac32 demo_hash) ?ks (demo_device 2 1 t2)" "confirming_now t2" "cc_value (sc_counter t2) \<le> next_counter ?s"
    "station_slot (demo_device 2 1 t2) = (1, 0)" "view_at ?s (1, 0) = Free"
    by auto
  let ?qs = "[demo_device 1 0 t1, demo_device 2 1 t2]"
  have dev: "st_dev (demo_device i x t) = t" for i x t by (simp add: demo_device_def)
  have all: "\<forall>q \<in> set ?qs. flashed_station (\<lambda>p. p) (mac32 demo_hash) ?ks q \<and> confirming_now (st_dev q) \<and>
      cc_value (sc_counter (st_dev q)) \<le> next_counter ?s \<and> view_at ?s (station_slot q) = Free"
    using t1 t2 by (simp add: dev)
  have "distinct (map station_slot ?qs)" by (simp add: t1(4) t2(4) [simplified])
  from flashed_fleet_delivers [where es = "[]", OF demo_reliable pre(1,6,4,5) adv' _ _ all this _ _ _ demo_air_ok(3) refl] start demo_air_ok
  show ?thesis by fastforce
qed

end
